(* ===== verification/Prelude.thy ===== *)
theory Prelude
  imports Main "HOL-Library.Word" "HOL-Library.Multiset"
begin

text \<open>
  Shared vocabulary of the crossbar development: the machine integers the crate uses, the
  checked, saturating and converting arithmetic of the Rust standard library, integer ranges
  of \<open>for\<close> loops, little-endian byte encodings, and the lemmas on masks and powers of two that
  every ring buffer of the crate relies on.

  All targets of the crate are 64-bit and little-endian (\<open>layout.rs\<close> refuses others), so
  \<open>usize\<close> is a 64-bit word.  Plain \<open>+\<close>, \<open>-\<close> and \<open>*\<close> on machine integers wrap, as in a release
  build.
\<close>

unbundle bit_operations_syntax

type_synonym u8 = "8 word"
type_synonym u32 = "32 word"
type_synonym u64 = "64 word"
type_synonym usize = "64 word"

type_synonym bytes = "u8 list"

named_theorems layout_simps \<open>exact natural-number values of the layout arithmetic\<close>
named_theorems op_defs \<open>definitions of the pool, ring and topic operations\<close>

section \<open>Integer operations of the Rust standard library\<close>

definition as_usize :: "u32 \<Rightarrow> usize" where
  "as_usize w = ucast w"

definition as_u64 :: "u32 \<Rightarrow> u64" where
  "as_u64 w = ucast w"

definition as_u32 :: "u64 \<Rightarrow> u32" where
  "as_u32 w = ucast w"

definition checked_mul :: "usize \<Rightarrow> usize \<Rightarrow> usize option" where
  "checked_mul a b = (if unat a * unat b < 2 ^ 64 then Some (a * b) else None)"

definition checked_add :: "usize \<Rightarrow> usize \<Rightarrow> usize option" where
  "checked_add a b = (if unat a + unat b < 2 ^ 64 then Some (a + b) else None)"

definition saturating_sub :: "u64 \<Rightarrow> u64 \<Rightarrow> u64" where
  "saturating_sub a b = (if a < b then 0 else a - b)"

definition saturating_add :: "u32 \<Rightarrow> u32 \<Rightarrow> u32" where
  "saturating_add a b = (if unat a + unat b < 2 ^ 32 then a + b else - 1)"

definition count_ones :: "'a::len word \<Rightarrow> nat" where
  "count_ones w = length (filter (bit w) [0..<LENGTH('a)])"

definition is_power_of_two :: "'a::len word \<Rightarrow> bool" where
  "is_power_of_two w \<longleftrightarrow> count_ones w = 1"

text \<open>The range \<open>0..n\<close> of a \<open>for\<close> loop over a 32-bit counter.\<close>

definition range_u32 :: "u32 \<Rightarrow> u32 list" where
  "range_u32 n = map of_nat [0..<unat n]"

subsection \<open>Conversions\<close>

lemma unat_u8_less: "unat (w :: u8) < 256"
  by (rule unsigned_less [where 'a = nat, of w, simplified])

lemma unat_u32_less: "unat (w :: u32) < 4294967296"
  by (rule unsigned_less [where 'a = nat, of w, simplified])

lemma unat_u64_less: "unat (w :: u64) < 18446744073709551616"
  by (rule unsigned_less [where 'a = nat, of w, simplified])

lemma unat_as_usize [simp, layout_simps]: "unat (as_usize w) = unat w"
  using unat_u32_less [of w]
  by (simp add: as_usize_def unsigned_ucast_eq take_bit_nat_eq_self)

lemma unat_as_u64 [simp, layout_simps]: "unat (as_u64 w) = unat w"
  using unat_u32_less [of w]
  by (simp add: as_u64_def unsigned_ucast_eq take_bit_nat_eq_self)

lemma unat_as_u32 [layout_simps]: "unat (as_u32 w) = unat w mod 2 ^ 32"
  by (simp add: as_u32_def unsigned_ucast_eq take_bit_eq_mod)

lemma as_u32_as_u64 [simp]: "as_u32 (as_u64 w) = w"
  using unat_u32_less [of w] by (simp add: unat_as_u32 word_unat_eq_iff)

subsection \<open>Checked arithmetic is exact\<close>

lemma checked_mul_SomeD:
  "checked_mul a b = Some c \<Longrightarrow> unat c = unat a * unat b \<and> unat a * unat b < 2 ^ 64"
  by (auto simp: checked_mul_def unat_word_ariths split: if_splits)

lemma checked_add_SomeD:
  "checked_add a b = Some c \<Longrightarrow> unat c = unat a + unat b \<and> unat a + unat b < 2 ^ 64"
  by (auto simp: checked_add_def unat_word_ariths split: if_splits)

lemma unat_add_exact: "unat a + unat b < 2 ^ 64 \<Longrightarrow> unat (a + b :: u64) = unat a + unat b"
  by (simp add: unat_word_ariths)

lemma unat_mult_exact: "unat a * unat b < 2 ^ 64 \<Longrightarrow> unat (a * b :: u64) = unat a * unat b"
  by (simp add: unat_word_ariths)

lemma saturating_sub_nat: "unat (saturating_sub a b) = unat a - unat b"
  by (auto simp: saturating_sub_def word_less_nat_alt unat_sub_if' word_le_nat_alt)

subsection \<open>Ranges\<close>

lemma unat_of_nat_below: "k < unat (n :: u32) \<Longrightarrow> unat (of_nat k :: u32) = k"
  using unat_u32_less [of n] by (simp add: unat_of_nat)

lemma set_range_u32 [simp]: "set (range_u32 n) = {i. i < n}"
proof -
  have "i \<in> of_nat ` {0..<unat n} \<longleftrightarrow> i < n" for i :: u32
  proof
    assume "i \<in> of_nat ` {0..<unat n}"
    then obtain k where "k < unat n" "i = of_nat k" by auto
    then show "i < n" by (simp add: word_less_nat_alt unat_of_nat_below)
  next
    assume "i < n"
    then have "unat i \<in> {0..<unat n}" and "i = of_nat (unat i)"
      by (simp_all add: word_less_nat_alt)
    then show "i \<in> of_nat ` {0..<unat n}" by blast
  qed
  then show ?thesis by (auto simp: range_u32_def)
qed

lemma length_range_u32 [simp]: "length (range_u32 n) = unat n"
  by (simp add: range_u32_def)

lemma nth_range_u32: "i < unat n \<Longrightarrow> range_u32 n ! i = of_nat i"
  by (simp add: range_u32_def)

lemma distinct_range_u32 [simp]: "distinct (range_u32 n)"
proof -
  have "inj_on (of_nat :: nat \<Rightarrow> u32) {0..<unat n}"
  proof (rule inj_onI)
    fix i j
    assume "i \<in> {0..<unat n}" "j \<in> {0..<unat n}" and eq: "(of_nat i :: u32) = of_nat j"
    then have "i < unat n" "j < unat n" by simp_all
    with arg_cong [OF eq, of unat] show "i = j" by (simp only: unat_of_nat_below)
  qed
  then show ?thesis by (simp add: range_u32_def distinct_map)
qed

section \<open>Powers of two and masks\<close>

text \<open>
  Ring depths and ring sizes are powers of two, and a sequence number is reduced to a slot by
  \<open>seq & (depth - 1)\<close>.  The mask is the remainder modulo the depth.
\<close>

lemma is_power_of_twoE:
  assumes "is_power_of_two (w :: 'a::len word)"
  obtains k where "k < LENGTH('a)" and "w = 2 ^ k"
proof -
  let ?bs = "filter (bit w) [0..<LENGTH('a)]"
  from assms have "length ?bs = 1" by (simp add: is_power_of_two_def count_ones_def)
  then obtain k where bs: "?bs = [k]" by (auto simp: length_Suc_conv)
  from arg_cong [OF bs, of set] have mem: "{i. i < LENGTH('a) \<and> bit w i} = {k}" by auto
  then have k: "k < LENGTH('a)" by blast
  have "bit w i \<longleftrightarrow> bit (2 ^ k :: 'a word) i" if "i < LENGTH('a)" for i
    using mem that k by (auto simp: bit_exp_iff)
  then have "w = 2 ^ k" by (simp add: bit_word_eqI)
  with k that show thesis by blast
qed

lemma is_power_of_two_pos: "is_power_of_two w \<Longrightarrow> 0 < w"
  by (elim is_power_of_twoE) (simp add: word_gt_0)

lemma unat_two_power: "k < LENGTH('a) \<Longrightarrow> unat (2 ^ k :: 'a::len word) = 2 ^ k"
  using unat_of_nat [of "2 ^ k", where 'a = 'a] by simp

lemma unat_and_mask:
  assumes "is_power_of_two (d :: 'a::len word)"
  shows "unat (x AND (d - 1)) = unat x mod unat d"
proof -
  from assms obtain k where k: "k < LENGTH('a)" and d: "d = 2 ^ k" by (rule is_power_of_twoE)
  have "x AND (d - 1) = take_bit k x"
    by (simp add: d take_bit_eq_mask mask_eq_exp_minus_1)
  then have "unat (x AND (d - 1)) = take_bit k (unat x)"
    by (simp add: unsigned_take_bit_eq)
  with k show ?thesis by (simp add: d take_bit_eq_mod unat_two_power)
qed

lemma unat_and_mask_less:
  "is_power_of_two d \<Longrightarrow> unat (x AND (d - 1)) < unat d"
  using is_power_of_two_pos [of d] by (simp add: unat_and_mask word_less_nat_alt)

text \<open>Numbers less than \<open>d\<close> apart have different remainders.\<close>

lemma mod_apart: "(a :: nat) < b \<Longrightarrow> b < a + d \<Longrightarrow> a mod d \<noteq> b mod d"
  by (metis add_diff_inverse_nat less_diff_conv2 less_imp_le_nat linorder_not_less mod_eq_dvd_iff_nat nat_dvd_not_less zero_less_diff add.commute)

lemma is_power_of_two_as_u64: "is_power_of_two d \<Longrightarrow> is_power_of_two (as_u64 d)"
proof (elim is_power_of_twoE)
  fix k
  assume k: "k < LENGTH(32)" and d: "d = 2 ^ k"
  then have u: "as_u64 d = 2 ^ k"
    by (simp add: word_unat_eq_iff unat_two_power)
  have "filter (bit (2 ^ k :: u64)) [0..<64] = filter (\<lambda>i. i = k) [0..<64]"
    using k by (intro filter_cong) (auto simp: bit_exp_iff)
  also have "\<dots> = [k]"
  proof -
    have "[0..<64] = [0..<k] @ k # [Suc k..<64]"
      using k upt_add_eq_append [of 0 k "64 - k"] by (simp add: upt_conv_Cons)
    then show ?thesis by (simp add: filter_False)
  qed
  finally show ?thesis by (simp add: u is_power_of_two_def count_ones_def)
qed

section \<open>Little-endian byte encodings\<close>

text \<open>
  \<open>to_le n w\<close> is the \<open>n\<close>-byte little-endian image of a word (\<open>to_le_bytes\<close>, and what a
  \<open>*mut u32\<close> or \<open>*mut u64\<close> store leaves in memory); \<open>from_le\<close> reads it back.
\<close>

fun to_le :: "nat \<Rightarrow> 'a::len word \<Rightarrow> bytes" where
  "to_le 0 w = []"
| "to_le (Suc n) w = ucast w # to_le n (drop_bit 8 w)"

fun from_le :: "bytes \<Rightarrow> 'a::len word" where
  "from_le [] = 0"
| "from_le (b # bs) = ucast b OR push_bit 8 (from_le bs)"

lemma length_to_le [simp]: "length (to_le n w) = n"
  by (induction n arbitrary: w) auto

lemma from_le_to_le: "from_le (to_le n w) = take_bit (8 * n) (w :: 'a::len word)"
proof (induction n arbitrary: w)
  case 0
  then show ?case by simp
next
  case (Suc n)
  show ?case
  proof (rule bit_word_eqI)
    fix i
    assume "i < LENGTH('a)"
    then show "bit (from_le (to_le (Suc n) w) :: 'a word) i \<longleftrightarrow> bit (take_bit (8 * Suc n) w) i"
      by (auto simp: Suc bit_or_iff bit_push_bit_iff bit_take_bit_iff bit_drop_bit_eq
          bit_ucast_iff)
  qed
qed

lemma from_le_to_le_u32 [simp]: "from_le (to_le 4 (w :: u32)) = w"
  by (simp add: from_le_to_le take_bit_word_eq_self)

lemma from_le_to_le_u64 [simp]: "from_le (to_le 8 (w :: u64)) = w"
  by (simp add: from_le_to_le take_bit_word_eq_self)

end
