(* ===== verification/Errors.thy ===== *)
theory Errors
  imports Prelude
begin

text \<open>
  The error type of the crate (\<open>src/error.rs\<close>).  A fallible operation returns
  \<open>error + 'a\<close>, with \<open>Inl\<close> for \<open>Err\<close>.  The payload of \<open>Io\<close> is the operating system's error,
  kept as the text it displays.  \<open>display_error\<close> is \<open>Display for Error\<close>.
\<close>

datatype error =
    Io string
  | PublisherDead
  | InvalidRegion string
  | PoolExhausted
  | Full
  | DataTooLarge usize usize
  | PinnedReadersActive u32 u32
  | ClockError
  | TopicNotFound string
  | MaxTopicsReached
  | UriTooLong usize usize
  | LockContention string
  | AlignmentError usize usize
  | SegmentNameInvalid string
  | HandleMismatch
  | RegionSizeOverflow
  | RegionCorrupted string

type_synonym 'a result = "error + 'a"

text \<open>Decimal rendering of an unsigned integer, as \<open>format!\<close> prints it.\<close>

fun dec :: "nat \<Rightarrow> string" where
  "dec n = (if n < 10 then [char_of (48 + n)] else dec (n div 10) @ [char_of (48 + n mod 10)])"

declare dec.simps [simp del]

abbreviation show_u32 :: "u32 \<Rightarrow> string" where
  "show_u32 w \<equiv> dec (unat w)"

abbreviation show_u64 :: "u64 \<Rightarrow> string" where
  "show_u64 w \<equiv> dec (unat w)"

fun display_error :: "error \<Rightarrow> string" where
  "display_error (Io e) = ''I/O error: '' @ e"
| "display_error PublisherDead = ''shared-memory publisher is dead (heartbeat stale)''"
| "display_error (InvalidRegion msg) = ''invalid shared-memory region: '' @ msg"
| "display_error PoolExhausted = ''block pool exhausted -- increase block_count in Config''"
| "display_error Full =
     ''bounded PodBus ring is full -- slowest subscriber is too far behind''"
| "display_error (DataTooLarge sz cap) =
     ''data ('' @ show_u64 sz @ '') exceeds block data capacity ('' @ show_u64 cap @ '')''"
| "display_error (PinnedReadersActive n topic_idx) =
     show_u32 n @ '' active PinnedGuard(s) on topic '' @ show_u32 topic_idx @
     '' -- drop all guards before calling loan_pinned''"
| "display_error ClockError = ''system clock is before UNIX epoch''"
| "display_error (TopicNotFound uri) = ''topic '' @ [CHR 0x27] @ uri @ [CHR 0x27] @ '' not found''"
| "display_error MaxTopicsReached = ''maximum topics reached''"
| "display_error (UriTooLong len mx) =
     ''topic URI too long ('' @ show_u64 len @ '' > '' @ show_u64 mx @ '')''"
| "display_error (LockContention name) =
     ''pub/sub region '' @ [CHR 0x27] @ name @ [CHR 0x27] @ '' is already active (lock held)''"
| "display_error (AlignmentError align mx) =
     ''Pod type alignment ('' @ show_u64 align @ '') exceeds block data offset ('' @
     show_u64 mx @ '')''"
| "display_error (SegmentNameInvalid name) =
     ''invalid segment name '' @ [CHR 0x27] @ name @ [CHR 0x27] @
     '': must be non-empty and contain no '' @ [CHR 0x27] @ ''/'' @ [CHR 0x27] @ '', '' @
     [CHR 0x27, CHR 0x5C, CHR 0x27] @ '', '' @ [CHR 0x27] @ ''..'' @ [CHR 0x27] @
     '', or null bytes''"
| "display_error HandleMismatch = ''Topic belongs to a different Publisher''"
| "display_error RegionSizeOverflow = ''region size computation overflow''"
| "display_error (RegionCorrupted msg) = ''shared-memory region corrupted: '' @ msg"

end
