(* ===== verification/Layout.thy ===== *)
theory Layout
  imports Errors
begin

text \<open>
  The shared-memory layout (\<open>src/protocol/layout.rs\<close>) and the configuration it is computed
  from (\<open>src/protocol/config.rs\<close>): layout constants, offset helpers, checked region size, the
  FNV-1a topic hash, the packed Treiber-stack head and the segment-name check.  The theorems
  show that the offset arithmetic is exact for every configuration whose size check passes,
  that no two cells of the region (header, topic entries, ring entries, blocks) overlap and
  all lie inside the region, and that packing is lossless.
\<close>

section \<open>Configuration\<close>

text \<open>A \<open>Duration\<close> is its number of nanoseconds.\<close>

type_synonym duration = nat

definition from_secs :: "nat \<Rightarrow> duration" where "from_secs n = n * 1000000000"
definition from_millis :: "nat \<Rightarrow> duration" where "from_millis n = n * 1000000"
definition from_micros :: "nat \<Rightarrow> duration" where "from_micros n = n * 1000"
definition as_micros :: "duration \<Rightarrow> nat" where "as_micros d = d div 1000"
definition as_millis :: "duration \<Rightarrow> nat" where "as_millis d = d div 1000000"

record config =
  max_topics :: u32
  block_count :: u32
  block_size :: u32
  ring_depth :: u32
  heartbeat_interval :: duration
  stale_timeout :: duration

definition config_default :: config where
  "config_default =
     \<lparr>max_topics = 16, block_count = 256, block_size = 65536, ring_depth = 8,
      heartbeat_interval = from_millis 100, stale_timeout = from_secs 5\<rparr>"

section \<open>Layout constants\<close>

definition MAGIC :: bytes where
  "MAGIC = map of_char (''XBAR_ZC'' @ [CHR 0x00])"
definition VERSION :: u32 where "VERSION = 3"

definition HEADER_SIZE :: usize where "HEADER_SIZE = 128"
definition TOPIC_ENTRY_SIZE :: usize where "TOPIC_ENTRY_SIZE = 128"
definition RING_ENTRY_SIZE :: usize where "RING_ENTRY_SIZE = 16"
definition BLOCK_DATA_OFFSET :: usize where "BLOCK_DATA_OFFSET = 8"
definition NO_BLOCK :: u32 where "NO_BLOCK = - 1"

definition SEQ_WRITING :: u64 where "SEQ_WRITING = - 1"

definition TE_STATE_FREE :: u32 where "TE_STATE_FREE = 0"
definition TE_STATE_INIT :: u32 where "TE_STATE_INIT = 2"
definition TE_STATE_ACTIVE :: u32 where "TE_STATE_ACTIVE = 1"

definition MAX_TOPICS_LIMIT :: u32 where "MAX_TOPICS_LIMIT = 4096"
definition PINNED_WRITER_ACTIVE :: u32 where "PINNED_WRITER_ACTIVE = - 1"

definition TE_URI_MAX :: usize where "TE_URI_MAX = 64"

lemmas size_consts = HEADER_SIZE_def TOPIC_ENTRY_SIZE_def RING_ENTRY_SIZE_def
  BLOCK_DATA_OFFSET_def TE_URI_MAX_def
lemmas topic_state_consts = TE_STATE_FREE_def TE_STATE_INIT_def TE_STATE_ACTIVE_def

section \<open>Offset helpers\<close>

definition topic_entry_off :: "u32 \<Rightarrow> usize" where
  "topic_entry_off idx = HEADER_SIZE + as_usize idx * TOPIC_ENTRY_SIZE"

definition ring_base :: "config \<Rightarrow> usize" where
  "ring_base c = HEADER_SIZE + as_usize (max_topics c) * TOPIC_ENTRY_SIZE"

definition ring_entry_off :: "config \<Rightarrow> u32 \<Rightarrow> u32 \<Rightarrow> usize" where
  "ring_entry_off c topic_idx slot =
     ring_base c + as_usize topic_idx * as_usize (ring_depth c) * RING_ENTRY_SIZE
       + as_usize slot * RING_ENTRY_SIZE"

definition block_pool_offset_checked :: "config \<Rightarrow> usize option" where
  "block_pool_offset_checked c =
     (let rb = ring_base c in
      case checked_mul (as_usize (max_topics c)) (as_usize (ring_depth c)) of
        None \<Rightarrow> None
      | Some n \<Rightarrow>
          (case checked_mul n RING_ENTRY_SIZE of
             None \<Rightarrow> None
           | Some ring_size \<Rightarrow> checked_add rb ring_size))"

definition block_pool_offset :: "config \<Rightarrow> usize" where
  "block_pool_offset c =
     ring_base c + as_usize (max_topics c) * as_usize (ring_depth c) * RING_ENTRY_SIZE"

definition region_size_checked :: "config \<Rightarrow> usize option" where
  "region_size_checked c =
     (case block_pool_offset_checked c of
        None \<Rightarrow> None
      | Some pool_off \<Rightarrow>
          (case checked_mul (as_usize (block_count c)) (as_usize (block_size c)) of
             None \<Rightarrow> None
           | Some pool_size \<Rightarrow> checked_add pool_off pool_size))"

definition uri_hash :: "string \<Rightarrow> u64" where
  "uri_hash uri =
     foldl (\<lambda>h b. (h XOR ucast (b :: u8)) * 0x100000001b3) 0xcbf29ce484222325
       (map of_char uri)"

section \<open>Treiber stack helpers\<close>

definition pack :: "u32 \<Rightarrow> u32 \<Rightarrow> u64" where
  "pack gen idx = push_bit 32 (as_u64 gen) OR as_u64 idx"

definition unpack :: "u64 \<Rightarrow> u32 \<times> u32" where
  "unpack val = (as_u32 (drop_bit 32 val), as_u32 val)"

section \<open>Segment names\<close>

fun contains_str :: "string \<Rightarrow> string \<Rightarrow> bool" where
  "contains_str [] pat = (pat = [])"
| "contains_str (x # xs) pat = (take (length pat) (x # xs) = pat \<or> contains_str xs pat)"

definition is_valid_segment_name :: "string \<Rightarrow> bool" where
  "is_valid_segment_name name =
     (if name = [] then False
      else CHR ''/'' \<notin> set name \<and> CHR 0x5C \<notin> set name \<and> CHR 0x00 \<notin> set name \<and>
        \<not> contains_str name ''..'')"

section \<open>The offset arithmetic is exact\<close>

lemma u32_prod_bound: "unat (a :: u32) * unat (b :: u32) < 2 ^ 64"
proof -
  have "unat a * unat b \<le> (2 ^ 32 - 1) * (2 ^ 32 - 1)"
    using unat_u32_less [of a] unat_u32_less [of b] by (intro mult_le_mono) simp_all
  then show ?thesis by simp
qed

lemma unat_topic_entry_off [layout_simps]: "unat (topic_entry_off i) = 128 + unat i * 128"
  using unat_u32_less [of i]
  by (simp add: topic_entry_off_def size_consts unat_add_exact unat_mult_exact)

lemma unat_ring_base [layout_simps]: "unat (ring_base c) = 128 + unat (max_topics c) * 128"
  using unat_u32_less [of "max_topics c"]
  by (simp add: ring_base_def size_consts unat_add_exact unat_mult_exact)

text \<open>
  The size of a region as an unbounded natural number, and the fact that the checked
  computation returns exactly this number, and fails exactly when it does not fit.
\<close>

definition pool_start :: "config \<Rightarrow> nat" where
  "pool_start c = 128 + unat (max_topics c) * 128
     + unat (max_topics c) * unat (ring_depth c) * 16"

definition region_bytes :: "config \<Rightarrow> nat" where
  "region_bytes c = pool_start c + unat (block_count c) * unat (block_size c)"

lemma block_pool_offset_checked_eq:
  "block_pool_offset_checked c =
     (if pool_start c < 2 ^ 64 then Some (block_pool_offset c) else None)"
proof -
  let ?m = "as_usize (max_topics c)" and ?d = "as_usize (ring_depth c)"
  have md: "unat ?m * unat ?d < 2 ^ 64" by (simp only: unat_as_usize u32_prod_bound)
  then have n: "checked_mul ?m ?d = Some (?m * ?d)" "unat (?m * ?d) = unat ?m * unat ?d"
    by (simp_all add: checked_mul_def unat_mult_exact)
  show ?thesis
    using md
    by (auto simp: block_pool_offset_checked_def block_pool_offset_def n checked_mul_def
        checked_add_def pool_start_def unat_ring_base size_consts unat_mult_exact Let_def
        split: if_splits)
qed

lemma region_size_checked_eq:
  "region_size_checked c =
     (if region_bytes c < 2 ^ 64
      then Some (block_pool_offset c + as_usize (block_count c) * as_usize (block_size c))
      else None)"
proof -
  let ?p = "as_usize (block_count c)" and ?s = "as_usize (block_size c)"
  have ps: "unat ?p * unat ?s < 2 ^ 64" by (simp only: unat_as_usize u32_prod_bound)
  have po: "unat (block_pool_offset c) = pool_start c" if "pool_start c < 2 ^ 64"
    using that unat_u32_less [of "max_topics c"] u32_prod_bound [of "max_topics c" "ring_depth c"]
    by (simp add: block_pool_offset_def pool_start_def unat_ring_base size_consts
        unat_add_exact unat_mult_exact)
  show ?thesis
    using ps po
    by (auto simp: region_size_checked_def block_pool_offset_checked_eq checked_mul_def
        checked_add_def region_bytes_def unat_mult_exact)
qed

lemma unat_block_pool_offset [layout_simps]:
  "pool_start c < 2 ^ 64 \<Longrightarrow> unat (block_pool_offset c) = pool_start c"
  using unat_u32_less [of "max_topics c"] u32_prod_bound [of "max_topics c" "ring_depth c"]
  by (simp add: block_pool_offset_def pool_start_def unat_ring_base size_consts
      unat_add_exact unat_mult_exact)

lemma region_size_checked_SomeD:
  assumes "region_size_checked c = Some sz"
  shows "unat sz = region_bytes c" and "region_bytes c < 2 ^ 64"
proof -
  from assms show b: "region_bytes c < 2 ^ 64"
    by (simp add: region_size_checked_eq split: if_splits)
  then have p: "pool_start c < 2 ^ 64" by (simp add: region_bytes_def)
  from assms b p show "unat sz = region_bytes c"
    using u32_prod_bound [of "block_count c" "block_size c"]
    by (auto simp: region_size_checked_eq region_bytes_def unat_block_pool_offset
        unat_add_exact unat_mult_exact)
qed

lemma grid_less:
  assumes "s < (d :: nat)" and "t < m"
  shows "t * d + s < m * d"
proof -
  have "t * d + s < (t + 1) * d" using assms(1) by simp
  also have "\<dots> \<le> m * d" using assms(2) by (intro mult_le_mono1) simp
  finally show ?thesis .
qed

lemma grid_inj:
  assumes "s < (d :: nat)" and "s' < d" and "t * d + s = t' * d + s'"
  shows "t = t' \<and> s = s'"
proof -
  have "(t * d + s) div d = t" "(t' * d + s') div d = t'" using assms(1,2) by simp_all
  with assms(3) show ?thesis by auto
qed

lemma unat_ring_entry_off:
  assumes sz: "pool_start c < 2 ^ 64" and t: "t < max_topics c" and s: "s < ring_depth c"
  shows "unat (ring_entry_off c t s)
    = 128 + unat (max_topics c) * 128 + (unat t * unat (ring_depth c) + unat s) * 16"
proof -
  let ?d = "unat (ring_depth c)"
  have lt: "unat t * ?d + unat s < unat (max_topics c) * ?d"
    using s t by (intro grid_less) (simp_all add: word_less_nat_alt)
  then have fits: "128 + unat (max_topics c) * 128 + (unat t * ?d + unat s) * 16 < 2 ^ 64"
    using sz by (simp add: pool_start_def)
  have td: "unat (as_usize t * as_usize (ring_depth c)) = unat t * ?d"
    using u32_prod_bound [of t "ring_depth c"] by (simp add: unat_mult_exact)
  have row: "unat (as_usize t * as_usize (ring_depth c) * RING_ENTRY_SIZE) = unat t * ?d * 16"
    using fits by (simp add: td unat_mult_exact size_consts)
  have col: "unat (as_usize s * RING_ENTRY_SIZE) = unat s * 16"
    using fits by (simp add: unat_mult_exact size_consts)
  show ?thesis
    using fits unfolding ring_entry_off_def
    by (simp add: unat_add_exact row col unat_ring_base add_mult_distrib)
qed

section \<open>The cells of a region\<close>

text \<open>
  The region is a header, \<open>max_topics\<close> topic entries, one ring of \<open>ring_depth\<close> entries per
  topic and \<open>block_count\<close> blocks.  \<open>cell_range\<close> is the half-open byte range of each, computed
  by the offset helpers of the code; the block offset is the one of \<open>Region::block_ptr\<close>.
\<close>

datatype cell = HeaderCell | TopicCell u32 | RingCell u32 u32 | BlockCell u32

fun cell_valid :: "config \<Rightarrow> cell \<Rightarrow> bool" where
  "cell_valid c HeaderCell = True"
| "cell_valid c (TopicCell i) = (i < max_topics c)"
| "cell_valid c (RingCell t s) = (t < max_topics c \<and> s < ring_depth c)"
| "cell_valid c (BlockCell i) = (i < block_count c)"

fun cell_range :: "config \<Rightarrow> cell \<Rightarrow> nat \<times> nat" where
  "cell_range c HeaderCell = (0, unat HEADER_SIZE)"
| "cell_range c (TopicCell i) =
     (let off = unat (topic_entry_off i) in (off, off + unat TOPIC_ENTRY_SIZE))"
| "cell_range c (RingCell t s) =
     (let off = unat (ring_entry_off c t s) in (off, off + unat RING_ENTRY_SIZE))"
| "cell_range c (BlockCell i) =
     (let off = unat (block_pool_offset c + as_usize i * as_usize (block_size c))
      in (off, off + unat (block_size c)))"

definition disjoint_ranges :: "nat \<times> nat \<Rightarrow> nat \<times> nat \<Rightarrow> bool" where
  "disjoint_ranges p q \<longleftrightarrow> snd p \<le> fst q \<or> snd q \<le> fst p"

lemma unat_block_off:
  assumes b: "region_bytes c < 2 ^ 64" and i: "i < block_count c"
  shows "unat (block_pool_offset c + as_usize i * as_usize (block_size c))
    = pool_start c + unat i * unat (block_size c)"
    and "pool_start c + unat i * unat (block_size c) + unat (block_size c) \<le> region_bytes c"
proof -
  have "(unat i + 1) * unat (block_size c) \<le> unat (block_count c) * unat (block_size c)"
    using i by (intro mult_le_mono1) (simp add: word_less_nat_alt)
  then show le: "pool_start c + unat i * unat (block_size c) + unat (block_size c)
      \<le> region_bytes c"
    by (simp add: region_bytes_def)
  have "pool_start c < 2 ^ 64" using b by (simp add: region_bytes_def)
  then show "unat (block_pool_offset c + as_usize i * as_usize (block_size c))
    = pool_start c + unat i * unat (block_size c)"
    using b le u32_prod_bound [of i "block_size c"]
    by (simp add: unat_block_pool_offset unat_add_exact unat_mult_exact)
qed

text \<open>The four groups of cells occupy four consecutive bands of the region.\<close>

lemma topic_cell_range [layout_simps]:
  "cell_range c (TopicCell i) = (128 + unat i * 128, 128 + unat i * 128 + 128)"
  by (simp add: unat_topic_entry_off size_consts)

lemma ring_cell_range:
  assumes "pool_start c < 2 ^ 64" "t < max_topics c" "s < ring_depth c"
  shows "cell_range c (RingCell t s) =
    (let off = 128 + unat (max_topics c) * 128 + (unat t * unat (ring_depth c) + unat s) * 16
     in (off, off + 16))"
  using assms by (simp add: unat_ring_entry_off size_consts Let_def)

lemma ring_cell_in_band:
  assumes "t < max_topics c" "s < ring_depth c"
  shows "128 + unat (max_topics c) * 128 + (unat t * unat (ring_depth c) + unat s) * 16 + 16
    \<le> pool_start c"
proof -
  have "unat t * unat (ring_depth c) + unat s < unat (max_topics c) * unat (ring_depth c)"
    using assms by (intro grid_less) (simp_all add: word_less_nat_alt)
  then show ?thesis by (simp add: pool_start_def)
qed

text \<open>Band \<open>b\<close> is the half-open range from \<open>band_start c b\<close> to \<open>band_start c (b + 1)\<close>.\<close>

fun cell_band :: "cell \<Rightarrow> nat" where
  "cell_band HeaderCell = 0"
| "cell_band (TopicCell _) = 1"
| "cell_band (RingCell _ _) = 2"
| "cell_band (BlockCell _) = 3"

definition band_start :: "config \<Rightarrow> nat \<Rightarrow> nat" where
  "band_start c b = (if b = 0 then 0 else if b = 1 then 128
     else if b = 2 then 128 + unat (max_topics c) * 128
     else if b = 3 then pool_start c else region_bytes c)"

lemma band_start_mono: "a \<le> b \<Longrightarrow> band_start c a \<le> band_start c b"
  by (auto simp: band_start_def region_bytes_def pool_start_def)

lemma cell_in_band:
  assumes b: "region_bytes c < 2 ^ 64" and v: "cell_valid c x"
  shows "band_start c (cell_band x) \<le> fst (cell_range c x)"
    and "snd (cell_range c x) \<le> band_start c (cell_band x + 1)"
proof (atomize (full), cases x)
  case HeaderCell
  then show "band_start c (cell_band x) \<le> fst (cell_range c x) \<and>
      snd (cell_range c x) \<le> band_start c (cell_band x + 1)"
    by (simp add: size_consts band_start_def)
next
  case (TopicCell i)
  with v have "unat i < unat (max_topics c)" by (simp add: word_less_nat_alt)
  with TopicCell show "band_start c (cell_band x) \<le> fst (cell_range c x) \<and>
      snd (cell_range c x) \<le> band_start c (cell_band x + 1)"
    by (simp add: unat_topic_entry_off size_consts band_start_def)
next
  case (RingCell t s)
  with v b ring_cell_in_band [of t c s]
  show "band_start c (cell_band x) \<le> fst (cell_range c x) \<and>
      snd (cell_range c x) \<le> band_start c (cell_band x + 1)"
    by (simp add: unat_ring_entry_off size_consts Let_def region_bytes_def band_start_def)
next
  case (BlockCell i)
  with v b unat_block_off [of c i]
  show "band_start c (cell_band x) \<le> fst (cell_range c x) \<and>
      snd (cell_range c x) \<le> band_start c (cell_band x + 1)"
    by (simp add: Let_def band_start_def)
qed

lemma cell_range_in_region:
  "region_bytes c < 2 ^ 64 \<Longrightarrow> cell_valid c x \<Longrightarrow> snd (cell_range c x) \<le> region_bytes c"
  using cell_in_band(2) [of c x] band_start_mono [of "cell_band x + 1" 4 c]
  by (cases x) (auto simp: band_start_def)

lemma nat_mult_separated: "i \<noteq> j \<Longrightarrow> (i + 1) * k \<le> j * k \<or> (j + 1) * k \<le> i * (k :: nat)"
  by (metis Suc_eq_plus1 Suc_leI mult_le_mono1 nat_neq_iff)

lemma same_band_disjoint:
  assumes b: "region_bytes c < 2 ^ 64" and vx: "cell_valid c x" and vy: "cell_valid c y"
    and ne: "x \<noteq> y" and band: "cell_band x = cell_band y"
  shows "disjoint_ranges (cell_range c x) (cell_range c y)"
proof (cases x)
  case HeaderCell
  with ne band show ?thesis by (cases y) auto
next
  case (TopicCell i)
  with band obtain j where "y = TopicCell j" by (cases y) auto
  with TopicCell ne show ?thesis
    by (auto simp: unat_topic_entry_off size_consts disjoint_ranges_def word_unat_eq_iff)
next
  case (RingCell t s)
  with band obtain t' s' where y: "y = RingCell t' s'" by (cases y) auto
  have "unat t * unat (ring_depth c) + unat s \<noteq> unat t' * unat (ring_depth c) + unat s'"
    using RingCell y ne vx vy
      grid_inj [of "unat s" "unat (ring_depth c)" "unat s'" "unat t" "unat t'"]
    by (auto simp: word_less_nat_alt word_unat_eq_iff)
  moreover have "pool_start c < 2 ^ 64" using b by (simp add: region_bytes_def)
  ultimately show ?thesis
    using RingCell y vx vy
    by (auto simp: unat_ring_entry_off size_consts disjoint_ranges_def Let_def)
next
  case (BlockCell i)
  with band obtain j where y: "y = BlockCell j" by (cases y) auto
  with BlockCell ne have "unat i \<noteq> unat j" by (auto simp: word_unat_eq_iff)
  from nat_mult_separated [OF this, of "unat (block_size c)"] show ?thesis
    using BlockCell y vx vy b
    by (auto simp: unat_block_off disjoint_ranges_def Let_def)
qed

lemma cells_disjoint:
  assumes b: "region_bytes c < 2 ^ 64" and vx: "cell_valid c x" and vy: "cell_valid c y"
    and ne: "x \<noteq> y"
  shows "disjoint_ranges (cell_range c x) (cell_range c y)"
proof (cases "cell_band x" "cell_band y" rule: linorder_cases)
  case less
  then show ?thesis
    using cell_in_band [OF b vx] cell_in_band [OF b vy]
      band_start_mono [of "cell_band x + 1" "cell_band y" c]
    by (simp add: disjoint_ranges_def)
next
  case equal
  with assms show ?thesis by (rule same_band_disjoint)
next
  case greater
  then show ?thesis
    using cell_in_band [OF b vx] cell_in_band [OF b vy]
      band_start_mono [of "cell_band y + 1" "cell_band x" c]
    by (simp add: disjoint_ranges_def)
qed

text \<open>
  \<^bold>\<open>C6.\<close> For every configuration that passes the checked size computation, the region has
  exactly the computed size as an unbounded number (no offset wraps), every header, topic,
  ring and block cell lies inside it, and two different cells never share a byte.
\<close>

theorem region_layout_sound:
  assumes "region_size_checked c = Some sz"
  shows "unat sz = 128 + unat (max_topics c) * 128
           + unat (max_topics c) * unat (ring_depth c) * 16
           + unat (block_count c) * unat (block_size c) \<and>
    (\<forall>x. cell_valid c x \<longrightarrow> snd (cell_range c x) \<le> unat sz) \<and>
    (\<forall>x y. cell_valid c x \<and> cell_valid c y \<and> x \<noteq> y \<longrightarrow>
       disjoint_ranges (cell_range c x) (cell_range c y))"
  using region_size_checked_SomeD [OF assms]
  by (simp add: cell_range_in_region cells_disjoint) (simp add: region_bytes_def pool_start_def)

theorem region_layout_sound_witness:
  "region_size_checked config_default = Some 16781440 \<and>
   disjoint_ranges (cell_range config_default (RingCell 3 7)) (cell_range config_default (BlockCell 0))"
proof -
  have sz: "region_size_checked config_default = Some 16781440"
    by (simp add: region_size_checked_eq region_bytes_def pool_start_def config_default_def
        block_pool_offset_def ring_base_def size_consts as_usize_def)
  moreover have "cell_valid config_default (RingCell 3 7)" "cell_valid config_default (BlockCell 0)"
    by (simp_all add: config_default_def)
  ultimately show ?thesis using region_layout_sound [OF sz] by blast
qed

section \<open>Packing the stack head\<close>

lemma unpack_pack [simp]: "unpack (pack gen idx) = (gen, idx)"
proof -
  have "as_u32 (drop_bit 32 (pack gen idx)) = gen"
    by (rule bit_word_eqI)
      (auto simp: as_u32_def as_u64_def pack_def bit_ucast_iff bit_drop_bit_eq bit_or_iff
        bit_push_bit_iff dest: bit_imp_le_length)
  moreover have "as_u32 (pack gen idx) = idx"
    by (rule bit_word_eqI)
      (auto simp: as_u32_def as_u64_def pack_def bit_ucast_iff bit_or_iff bit_push_bit_iff
        dest: bit_imp_le_length)
  ultimately show ?thesis by (simp add: unpack_def)
qed

lemma pack_unpack [simp]: "pack (fst (unpack v)) (snd (unpack v)) = v"
proof (rule bit_word_eqI)
  fix i
  assume "i < LENGTH(64)"
  then show "bit (pack (fst (unpack v)) (snd (unpack v))) i = bit v i"
    by (auto simp: pack_def unpack_def as_u32_def as_u64_def bit_or_iff bit_push_bit_iff
        bit_ucast_iff bit_drop_bit_eq)
qed

text \<open>
  The 64-bit stack head holds a 32-bit generation and a 32-bit block index without
  loss, in both directions: two heads are equal exactly when both halves are.
\<close>

theorem pack_unpack_roundtrip:
  "unpack (pack gen idx) = (gen, idx) \<and> pack (fst (unpack v)) (snd (unpack v)) = v"
  by simp

lemma NO_BLOCK_not_less [simp]: "\<not> NO_BLOCK < n"
  unfolding NO_BLOCK_def using word_order.extremum [of n] by (simp add: not_less)

lemma index_not_NO_BLOCK: "i < n \<Longrightarrow> i \<noteq> NO_BLOCK"
  by (auto dest: NO_BLOCK_not_less [THEN notE])

end
