(* ===== verification/Pool.thy ===== *)
theory Pool
  imports Layout
begin

text \<open>
  The shared region as a store, and the block pool of \<open>src/protocol/region.rs\<close>.

  \<open>shm\<close> is the shared memory behind one segment: each atomic or plain field that the code
  reaches through \<open>base.add(offset)\<close> is a field of a record, and the arrays of topic entries,
  ring entries and blocks are functions of their index.  That the offsets of different cells
  are disjoint and inside the mapping is \<open>region_layout_sound\<close> of theory \<open>Layout\<close>.
  \<open>region\<close> is the process-local \<open>Region\<close> handle: the configuration, the pool offset and the
  \<open>last_freed\<close> hint, which lives outside the shared memory.

  The operations here are the uncontended runs of the code's compare-and-swap loops: a
  \<open>compare_exchange_weak\<close> on an unchanged head installs the new head (a spurious failure
  repeats the same iteration).  Interleaved runs of the same loops are in theory \<open>Treiber\<close>.

  The pool is specified as a stack of block indices (locale \<open>block_stack\<close>); \<open>alloc_block\<close> and
  \<open>free_block\<close> implement it.
\<close>

section \<open>Shared memory\<close>

record block =
  bk_next :: u32
  bk_refcount :: u32
  bk_data :: bytes

record ring_entry =
  re_seq :: u64
  re_block_idx :: u32
  re_data_len :: u32

record topic_entry =
  te_active :: u32
  te_write_seq :: u64
  te_waiters :: u32
  te_uri_len :: u32
  te_uri_hash :: u64
  te_uri :: bytes
  te_type_size :: u32
  te_pinned_block :: u32
  te_pinned_readers :: u32
  te_pinned_seq :: u64
  te_subscriber_count :: u32

record shm =
  pool_head :: u64
  heartbeat :: u64
  topics :: "u32 \<Rightarrow> topic_entry"
  rings :: "u32 \<Rightarrow> u32 \<Rightarrow> ring_entry"
  blocks :: "u32 \<Rightarrow> block"

record region =
  rg_config :: config
  pool_offset :: usize
  last_freed :: u32

abbreviation upd_block :: "u32 \<Rightarrow> (block \<Rightarrow> block) \<Rightarrow> shm \<Rightarrow> shm" where
  "upd_block i f s \<equiv> s\<lparr>blocks := (blocks s)(i := f (blocks s i))\<rparr>"

abbreviation upd_topic :: "u32 \<Rightarrow> (topic_entry \<Rightarrow> topic_entry) \<Rightarrow> shm \<Rightarrow> shm" where
  "upd_topic t f s \<equiv> s\<lparr>topics := (topics s)(t := f (topics s t))\<rparr>"

abbreviation upd_ring :: "u32 \<Rightarrow> u32 \<Rightarrow> (ring_entry \<Rightarrow> ring_entry) \<Rightarrow> shm \<Rightarrow> shm" where
  "upd_ring t k f s \<equiv>
     s\<lparr>rings := (rings s)(t := (rings s t)(k := f (rings s t k)))\<rparr>"

abbreviation refcount :: "shm \<Rightarrow> u32 \<Rightarrow> u32" where
  "refcount s i \<equiv> bk_refcount (blocks s i)"

text \<open>A freshly created segment file is zero-filled (\<open>File::set_len\<close> after truncation).\<close>

definition zero_topic :: topic_entry where
  "zero_topic = \<lparr>te_active = 0, te_write_seq = 0, te_waiters = 0, te_uri_len = 0, te_uri_hash = 0,
     te_uri = replicate 64 0, te_type_size = 0, te_pinned_block = 0, te_pinned_readers = 0,
     te_pinned_seq = 0, te_subscriber_count = 0\<rparr>"

definition zero_shm :: "config \<Rightarrow> shm" where
  "zero_shm c =
     \<lparr>pool_head = 0, heartbeat = 0, topics = (\<lambda>_. zero_topic),
      rings = (\<lambda>_ _. \<lparr>re_seq = 0, re_block_idx = 0, re_data_len = 0\<rparr>),
      blocks = (\<lambda>_. \<lparr>bk_next = 0, bk_refcount = 0, bk_data = replicate (unat (block_size c) - 8) 0\<rparr>)\<rparr>"

section \<open>Region operations\<close>

definition from_raw :: "config \<Rightarrow> region" where
  "from_raw c = \<lparr>rg_config = c, pool_offset = block_pool_offset c, last_freed = NO_BLOCK\<rparr>"

definition block_ptr :: "region \<Rightarrow> u32 \<Rightarrow> usize" where
  "block_ptr r idx = pool_offset r + as_usize idx * as_usize (block_size (rg_config r))"

definition block_ptr_checked :: "region \<Rightarrow> u32 \<Rightarrow> usize option" where
  "block_ptr_checked r idx =
     (if idx \<ge> block_count (rg_config r) then None else Some (block_ptr r idx))"

definition block_refcount_checked :: "config \<Rightarrow> shm \<Rightarrow> u32 \<Rightarrow> u32 option" where
  "block_refcount_checked c s idx = (if idx \<ge> block_count c then None else Some (refcount s idx))"

definition alloc_block :: "config \<Rightarrow> shm \<Rightarrow> (unit + u32 option) \<times> shm" where
  [op_defs]: "alloc_block c s =
     (let (gen, idx) = unpack (pool_head s) in
      if idx = NO_BLOCK then (Inr None, s)
      else if idx \<ge> block_count c then (Inl (), s)
      else let next = bk_next (blocks s idx) in
        if next \<noteq> NO_BLOCK \<and> next \<ge> block_count c then (Inl (), s)
        else (Inr (Some idx), s\<lparr>pool_head := pack (gen + 1) next\<rparr>))"

definition alloc_recycled :: "region \<Rightarrow> u32 option \<times> region" where
  [op_defs]: "alloc_recycled r =
     (let idx = last_freed r; r' = r\<lparr>last_freed := NO_BLOCK\<rparr>
      in if idx \<noteq> NO_BLOCK then (Some idx, r') else (None, r'))"

definition free_block :: "config \<Rightarrow> u32 \<Rightarrow> shm \<Rightarrow> shm" where
  [op_defs]: "free_block c idx s =
     (if idx \<ge> block_count c then s
      else let (gen, old_head_idx) = unpack (pool_head s);
        s' = upd_block idx (\<lambda>b. b\<lparr>bk_next := old_head_idx\<rparr>) s
      in s'\<lparr>pool_head := pack (gen + 1) idx\<rparr>)"

definition init_block :: "config \<Rightarrow> u32 \<Rightarrow> block \<Rightarrow> block" where
  "init_block c i b =
     b\<lparr>bk_next := if i + 1 < block_count c then i + 1 else NO_BLOCK, bk_refcount := 0\<rparr>"

definition init_free_list :: "config \<Rightarrow> shm \<Rightarrow> shm" where
  "init_free_list c s =
     (fold (\<lambda>i s. upd_block i (init_block c i) s) (range_u32 (block_count c)) s)
       \<lparr>pool_head := pack 0 0\<rparr>"

definition data_capacity :: "config \<Rightarrow> usize" where
  "data_capacity c = as_usize (block_size c) - BLOCK_DATA_OFFSET"

definition release_block :: "config \<Rightarrow> u32 \<Rightarrow> shm \<Rightarrow> shm" where
  [op_defs]: "release_block c idx s =
     (case block_refcount_checked c s idx of
        None \<Rightarrow> s
      | Some prev \<Rightarrow>
          let s' = upd_block idx (\<lambda>b. b\<lparr>bk_refcount := prev - 1\<rparr>) s
          in if prev = 1 then free_block c idx s' else s')"

subsection \<open>Heartbeat\<close>

text \<open>
  The wall clock is an argument: the microseconds since the UNIX epoch, or \<open>None\<close> when the
  clock is before the epoch.
\<close>

type_synonym clock = "u64 option"

definition now_micros :: "clock \<Rightarrow> u64 result" where
  "now_micros clk = (case clk of None \<Rightarrow> Inl ClockError | Some t \<Rightarrow> Inr t)"

definition update_heartbeat :: "clock \<Rightarrow> shm \<Rightarrow> unit result \<times> shm" where
  "update_heartbeat clk s =
     (case now_micros clk of
        Inl e \<Rightarrow> (Inl e, s)
      | Inr now \<Rightarrow> (Inr (), s\<lparr>heartbeat := max (heartbeat s) now\<rparr>))"

definition check_heartbeat :: "config \<Rightarrow> clock \<Rightarrow> shm \<Rightarrow> unit result" where
  "check_heartbeat c clk s =
     (let hb = heartbeat s in
      case now_micros clk of
        Inl e \<Rightarrow> Inl e
      | Inr now \<Rightarrow>
          if saturating_sub now hb > of_nat (as_micros (stale_timeout c))
          then Inl PublisherDead else Inr ())"

section \<open>The pool as a stack\<close>

text \<open>\<open>free_path nx h xs\<close>: following the free-list links from \<open>h\<close> visits \<open>xs\<close> and ends.\<close>

fun free_path :: "(u32 \<Rightarrow> u32) \<Rightarrow> u32 \<Rightarrow> u32 list \<Rightarrow> bool" where
  "free_path nx h [] \<longleftrightarrow> h = NO_BLOCK"
| "free_path nx h (x # xs) \<longleftrightarrow> h = x \<and> free_path nx (nx x) xs"

abbreviation links :: "shm \<Rightarrow> u32 \<Rightarrow> u32" where
  "links s \<equiv> \<lambda>i. bk_next (blocks s i)"

definition free_list :: "config \<Rightarrow> shm \<Rightarrow> u32 list \<Rightarrow> bool" where
  "free_list c s xs \<longleftrightarrow>
     free_path (links s) (snd (unpack (pool_head s))) xs \<and> distinct xs \<and>
     (\<forall>x \<in> set xs. x < block_count c)"

lemma free_path_cong:
  "(\<And>x. x \<in> set xs \<Longrightarrow> nx x = nx' x) \<Longrightarrow> free_path nx h xs = free_path nx' h xs"
  by (induction xs arbitrary: h) auto

lemma free_path_functional: "free_path nx h xs \<Longrightarrow> free_path nx h ys \<Longrightarrow>
   NO_BLOCK \<notin> set xs \<Longrightarrow> NO_BLOCK \<notin> set ys \<Longrightarrow> xs = ys"
proof (induction xs arbitrary: h ys)
  case Nil
  then show ?case by (cases ys) auto
next
  case (Cons x xs)
  then show ?case by (cases ys) auto
qed

lemma free_list_functional: "free_list c s xs \<Longrightarrow> free_list c s ys \<Longrightarrow> xs = ys"
  unfolding free_list_def by (blast intro: free_path_functional dest: index_not_NO_BLOCK)

text \<open>
  The free list depends only on the head and on the links of its own blocks, so an operation
  that leaves those alone leaves the free list alone.
\<close>

lemma free_list_cong:
  assumes "pool_head s' = pool_head s"
    and "\<And>x. x \<in> set xs \<Longrightarrow> bk_next (blocks s' x) = bk_next (blocks s x)"
  shows "free_list c s' xs = free_list c s xs"
  using assms free_path_cong [of xs "links s'" "links s"] by (simp add: free_list_def)

lemma free_list_upd_other:
  "(\<And>b. bk_next (f b) = bk_next b) \<Longrightarrow> free_list c (upd_block i f s) xs = free_list c s xs"
  by (rule free_list_cong) auto

locale block_stack =
  fixes pop :: "'s \<Rightarrow> (unit + u32 option) \<times> 's"
    and push :: "u32 \<Rightarrow> 's \<Rightarrow> 's"
    and valid :: "u32 \<Rightarrow> bool"
    and stack :: "'s \<Rightarrow> u32 list \<Rightarrow> bool"
  assumes pop_empty: "stack s [] \<Longrightarrow> pop s = (Inr None, s)"
    and pop_cons: "stack s (x # xs) \<Longrightarrow> \<exists>s'. pop s = (Inr (Some x), s') \<and> stack s' xs"
    and push_stack: "stack s xs \<Longrightarrow> valid x \<Longrightarrow> x \<notin> set xs \<Longrightarrow> stack (push x s) (x # xs)"
    and stack_distinct: "stack s xs \<Longrightarrow> distinct xs"
    and stack_valid: "stack s xs \<Longrightarrow> x \<in> set xs \<Longrightarrow> valid x"
begin

lemma pop_total:
  assumes "stack s xs"
  shows "\<exists>s'. stack s' (tl xs) \<and>
    pop s = (Inr (case xs of [] \<Rightarrow> None | x # _ \<Rightarrow> Some x), s')"
  using assms pop_empty pop_cons by (cases xs) fastforce+

lemma pop_push:
  assumes "stack s xs" "valid x" "x \<notin> set xs"
  shows "\<exists>s'. pop (push x s) = (Inr (Some x), s') \<and> stack s' xs"
  by (rule pop_cons [OF push_stack [OF assms]])

lemma push_all:
  assumes "stack s xs" "distinct ys" "set ys \<inter> set xs = {}" "\<forall>y \<in> set ys. valid y"
  shows "stack (fold push ys s) (rev ys @ xs)"
  using assms
proof (induction ys arbitrary: s xs)
  case (Cons y ys)
  then have "stack (push y s) (y # xs)" by (simp add: push_stack)
  then have "stack (fold push ys (push y s)) (rev ys @ y # xs)"
    using Cons.prems by (intro Cons.IH) auto
  then show ?case by simp
qed simp

end

lemma alloc_block_empty: "free_list c s [] \<Longrightarrow> alloc_block c s = (Inr None, s)"
  by (auto simp: alloc_block_def free_list_def split: prod.splits)

lemma alloc_block_cons:
  assumes "free_list c s (x # xs)"
  shows "alloc_block c s =
      (Inr (Some x),
       s\<lparr>pool_head := pack (fst (unpack (pool_head s)) + 1) (bk_next (blocks s x))\<rparr>)"
    and "free_list c (snd (alloc_block c s)) xs"
proof -
  from assms have h: "snd (unpack (pool_head s)) = x" and p: "free_path (links s) (bk_next (blocks s x)) xs"
    and d: "distinct (x # xs)" and b: "\<forall>y \<in> set (x # xs). y < block_count c"
    by (auto simp: free_list_def)
  from b have xb: "x < block_count c" "x \<noteq> NO_BLOCK" by (auto dest: index_not_NO_BLOCK)
  have n: "bk_next (blocks s x) = NO_BLOCK \<or> bk_next (blocks s x) < block_count c"
    using p b by (cases xs) auto
  show eq: "alloc_block c s = (Inr (Some x),
       s\<lparr>pool_head := pack (fst (unpack (pool_head s)) + 1) (bk_next (blocks s x))\<rparr>)"
    using h xb n by (auto simp: alloc_block_def Let_def not_le split: prod.splits)
  show "free_list c (snd (alloc_block c s)) xs"
    using p d b by (simp add: eq free_list_def)
qed

lemma free_block_stack:
  assumes "free_list c s xs" "x < block_count c" "x \<notin> set xs"
  shows "free_list c (free_block c x s) (x # xs)"
proof -
  let ?h = "snd (unpack (pool_head s))"
  let ?bs = "(blocks s)(x := (blocks s x)\<lparr>bk_next := ?h\<rparr>)"
  have "free_path (\<lambda>i. bk_next (?bs i)) ?h xs = free_path (links s) ?h xs"
    by (rule free_path_cong) (use assms(3) in auto)
  moreover have "blocks (free_block c x s) = ?bs" "snd (unpack (pool_head (free_block c x s))) = x"
    using assms(2) [unfolded not_le [symmetric]] by (simp_all add: free_block_def case_prod_unfold Let_def)
  ultimately show ?thesis
    using assms by (simp add: free_list_def)
qed

interpretation pool: block_stack "alloc_block c" "free_block c" "\<lambda>x. x < block_count c" "free_list c"
  for c
proof unfold_locales
  show "free_list c s [] \<Longrightarrow> alloc_block c s = (Inr None, s)" for s
    by (rule alloc_block_empty)
  show "free_list c s (x # xs) \<Longrightarrow>
      \<exists>s'. alloc_block c s = (Inr (Some x), s') \<and> free_list c s' xs" for s x xs
    using alloc_block_cons [of c s x xs] by (metis prod.collapse snd_conv)
  show "free_list c s xs \<Longrightarrow> x < block_count c \<Longrightarrow> x \<notin> set xs \<Longrightarrow>
      free_list c (free_block c x s) (x # xs)" for s xs x
    by (rule free_block_stack)
qed (simp_all add: free_list_def)

section \<open>Initialisation\<close>

lemma fold_upd_block:
  "distinct is \<Longrightarrow> blocks (fold (\<lambda>i s. upd_block i (f i) s) is s) =
      (\<lambda>j. if j \<in> set is then f j (blocks s j) else blocks s j)"
  by (induction "is" arbitrary: s) auto

lemma fold_upd_block_frame:
  "pool_head (fold (\<lambda>i s. upd_block i (f i) s) is s) = pool_head s"
  "heartbeat (fold (\<lambda>i s. upd_block i (f i) s) is s) = heartbeat s"
  "topics (fold (\<lambda>i s. upd_block i (f i) s) is s) = topics s"
  "rings (fold (\<lambda>i s. upd_block i (f i) s) is s) = rings s"
  by (induction "is" arbitrary: s) auto

lemma init_blocks:
  "blocks (init_free_list c s) i =
     (if i < block_count c then init_block c i (blocks s i) else blocks s i)"
  unfolding init_free_list_def by (simp add: fold_upd_block)

lemma init_pool_head [simp]: "pool_head (init_free_list c s) = pack 0 0"
  by (simp add: init_free_list_def)

lemma init_path:
  assumes "k + m = unat (block_count c)" and "0 < m"
  shows "free_path (links (init_free_list c s)) (of_nat k) (map of_nat [k..<k + m])"
  using assms
proof (induction m arbitrary: k)
  case 0
  then show ?case by simp
next
  case (Suc m)
  then have k: "k < unat (block_count c)" by simp
  have kb: "(of_nat k :: u32) < block_count c"
    using unat_of_nat_below [OF k] k by (simp add: word_less_nat_alt)
  have step: "[k..<k + Suc m] = k # [Suc k..<Suc k + m]"
    by (simp add: upt_conv_Cons del: upt_Suc)
  show ?case
  proof (cases "m = 0")
    case True
    have "\<not> (of_nat k + 1 :: u32) < block_count c"
    proof
      assume "(of_nat k + 1 :: u32) < block_count c"
      then have "unat (of_nat (Suc k) :: u32) < unat (block_count c)"
        by (simp add: word_less_nat_alt add.commute)
      then have "unat (of_nat (Suc k) :: u32) < Suc k"
        using Suc.prems(1) True by (simp del: of_nat_Suc)
      then have "Suc k mod 2 ^ 32 < Suc k" by (simp add: unat_of_nat del: of_nat_Suc)
      moreover have "Suc k < 2 ^ 32"
        using Suc.prems(1) True unat_u32_less [of "block_count c"] by simp
      ultimately show False by simp
    qed
    with kb True show ?thesis by (simp add: init_blocks init_block_def)
  next
    case False
    then have k1: "Suc k < unat (block_count c)" using Suc.prems(1) by simp
    have "(of_nat k + 1 :: u32) < block_count c"
      using unat_of_nat_below [OF k1] k1 by (simp add: word_less_nat_alt add.commute)
    then have "bk_next (blocks (init_free_list c s) (of_nat k)) = of_nat (Suc k)"
      using kb by (simp add: init_blocks init_block_def add.commute)
    moreover have "free_path (links (init_free_list c s)) (of_nat (Suc k))
        (map of_nat [Suc k..<Suc k + m])"
      using Suc.prems False by (intro Suc.IH) simp_all
    ultimately show ?thesis unfolding step by (simp del: upt_Suc of_nat_Suc)
  qed
qed

lemma init_free_list_full:
  assumes "0 < block_count c"
  shows "free_list c (init_free_list c s) (range_u32 (block_count c))"
proof -
  have "free_path (links (init_free_list c s)) (of_nat 0) (map of_nat [0..<0 + unat (block_count c)])"
    using assms by (intro init_path) (simp_all add: word_less_nat_alt)
  moreover have "snd (unpack (pool_head (init_free_list c s))) = 0"
    by (simp add: init_free_list_def)
  ultimately show ?thesis by (simp add: free_list_def flip: range_u32_def)
qed

lemma block_ptr_in_region:
  assumes "region_size_checked c = Some sz" and "i < block_count c"
  shows "pool_start c \<le> unat (block_ptr (from_raw c) i) \<and>
    unat (block_ptr (from_raw c) i) + unat (block_size c) \<le> unat sz"
proof -
  have "region_bytes c < 2 ^ 64" "unat sz = region_bytes c"
    using region_size_checked_SomeD [OF assms(1)] by simp_all
  with unat_block_off [of c i] assms(2) show ?thesis by (simp add: block_ptr_def from_raw_def)
qed

section \<open>Properties\<close>

text \<open>
  \<^bold>\<open>C7.\<close> Memory safety of \<open>alloc_block\<close> whatever the shared memory holds.  On any content of the
  region, corrupt or not, the call changes nothing but the pool head; an index it returns is
  inside the pool, so that the block's byte range lies inside the mapping; and it fails with
  \<open>Err(())\<close> exactly when the head or the link it would install is out of range.
\<close>

theorem alloc_block_safe_on_any_memory:
  assumes "region_size_checked c = Some sz" and "alloc_block c s = (res, s')"
  shows "s' = s\<lparr>pool_head := pool_head s'\<rparr> \<and>
    (\<forall>i. res = Inr (Some i) \<longrightarrow>
       i < block_count c \<and> i = snd (unpack (pool_head s)) \<and>
       pool_start c \<le> unat (block_ptr (from_raw c) i) \<and>
       unat (block_ptr (from_raw c) i) + unat (block_size c) \<le> unat sz) \<and>
    (res = Inl () \<longleftrightarrow>
       (let i = snd (unpack (pool_head s)) in i \<noteq> NO_BLOCK \<and>
          (block_count c \<le> i \<or> (bk_next (blocks s i) \<noteq> NO_BLOCK \<and> block_count c \<le> bk_next (blocks s i)))))"
proof -
  have "i < block_count c \<Longrightarrow> pool_start c \<le> unat (block_ptr (from_raw c) i) \<and>
      unat (block_ptr (from_raw c) i) + unat (block_size c) \<le> unat sz" for i
    using block_ptr_in_region [OF assms(1)] .
  then show ?thesis
    using assms(2) by (auto simp: alloc_block_def Let_def not_le split: prod.splits if_splits)
qed

theorem alloc_block_safe_on_any_memory_witness:
  "fst (alloc_block config_default (init_free_list config_default (zero_shm config_default))) = Inr (Some 0) \<and>
   unat (block_ptr (from_raw config_default) 0) + 65536 \<le> 16781440"
proof -
  let ?c = config_default and ?s = "init_free_list config_default (zero_shm config_default)"
  have sz: "region_size_checked ?c = Some 16781440"
    by (simp add: region_size_checked_eq region_bytes_def pool_start_def config_default_def
        block_pool_offset_def ring_base_def size_consts as_usize_def)
  have bc: "block_count ?c = 256" "block_size ?c = 65536" by (simp_all add: config_default_def)
  have r: "fst (alloc_block ?c ?s) = Inr (Some 0)"
    by (simp add: alloc_block_def Let_def init_blocks init_block_def bc)
      (simp add: NO_BLOCK_def word_le_nat_alt)
  obtain s' where "alloc_block ?c ?s = (Inr (Some 0), s')" using r by (cases "alloc_block ?c ?s") auto
  from alloc_block_safe_on_any_memory [OF sz this] r show ?thesis by (simp add: bc)
qed

text \<open>
  \<^bold>\<open>C5.\<close> The pool implements a stack.  After \<open>init_free_list\<close> it holds every block of the
  pool; \<open>alloc_block\<close> pops the top or reports an empty pool, never corruption; and freeing a
  block that is in the pool's range and not already free makes it the next block allocated,
  with the rest of the stack below it.
\<close>

theorem pool_is_stack:
  assumes "0 < block_count c"
  shows "free_list c (init_free_list c s0) (range_u32 (block_count c)) \<and>
    (\<forall>s xs. free_list c s xs \<longrightarrow>
       (\<exists>s'. alloc_block c s = (Inr (case xs of [] \<Rightarrow> None | x # _ \<Rightarrow> Some x), s') \<and> free_list c s' (tl xs))) \<and>
    (\<forall>s xs x. free_list c s xs \<and> x < block_count c \<and> x \<notin> set xs \<longrightarrow>
       free_list c (free_block c x s) (x # xs) \<and>
       (\<exists>s'. alloc_block c (free_block c x s) = (Inr (Some x), s') \<and> free_list c s' xs))"
  using init_free_list_full [OF assms] pool.pop_total [of c] pool.push_stack [of c] pool.pop_push [of c]
  by blast

theorem pool_is_stack_witness:
  "\<exists>s'. alloc_block config_default (init_free_list config_default (zero_shm config_default)) = (Inr (Some 0), s') \<and>
     free_list config_default s' (tl (range_u32 256))"
proof -
  let ?c = config_default and ?xs = "range_u32 256"
  have bc: "block_count ?c = 256" by (simp add: config_default_def)
  then have "0 < block_count ?c" by simp
  note st = pool_is_stack [OF this, of "zero_shm ?c"]
  have "?xs ! 0 = 0" "length ?xs = 256" using nth_range_u32 [of 0 256] by simp_all
  then have xs: "?xs = 0 # tl ?xs" by (cases ?xs) auto
  from st obtain s' where "alloc_block ?c (init_free_list ?c (zero_shm ?c)) =
      (Inr (case ?xs of [] \<Rightarrow> None | x # _ \<Rightarrow> Some x), s')" "free_list ?c s' (tl ?xs)"
    unfolding bc by blast
  moreover have "(case ?xs of [] \<Rightarrow> None | x # _ \<Rightarrow> Some x) = Some 0" by (subst xs) simp
  ultimately show ?thesis by auto
qed

text \<open>
  The heartbeat never goes back, and right after an update a check passes exactly when
  the reader's clock is at most the timeout ahead of the recorded time; a reader whose clock
  is behind the publisher's passes.  A clock before the epoch is reported by both calls and
  changes nothing.  The timeout is taken in microseconds.
\<close>

theorem heartbeat_update_check:
  assumes "as_micros (stale_timeout c) < 2 ^ 64"
  shows "(\<forall>t s. fst (update_heartbeat (Some t) s) = Inr () \<and>
       heartbeat s \<le> heartbeat (snd (update_heartbeat (Some t) s)) \<and>
       t \<le> heartbeat (snd (update_heartbeat (Some t) s))) \<and>
    (\<forall>t t' s. check_heartbeat c (Some t') (snd (update_heartbeat (Some t) s)) = Inr () \<longleftrightarrow>
       unat t' \<le> max (unat (heartbeat s)) (unat t) + as_micros (stale_timeout c)) \<and>
    (\<forall>s. update_heartbeat None s = (Inl ClockError, s) \<and> check_heartbeat c None s = Inl ClockError)"
proof -
  have "unat (of_nat (as_micros (stale_timeout c)) :: u64) = as_micros (stale_timeout c)"
    using assms by (simp add: unat_of_nat)
  then have le: "saturating_sub t' h > of_nat (as_micros (stale_timeout c)) \<longleftrightarrow>
      \<not> unat t' \<le> unat h + as_micros (stale_timeout c)" for t' h
    by (auto simp: word_less_nat_alt saturating_sub_nat)
  have "unat (max a b) = max (unat a) (unat b)" for a b :: u64
    by (auto simp: max_def word_le_nat_alt)
  with le show ?thesis
    by (simp add: update_heartbeat_def check_heartbeat_def now_micros_def Let_def)
qed

theorem heartbeat_update_check_witness:
  "check_heartbeat config_default (Some 5000010) (snd (update_heartbeat (Some 10) (zero_shm config_default))) = Inr () \<and>
   check_heartbeat config_default (Some 5000011) (snd (update_heartbeat (Some 10) (zero_shm config_default))) \<noteq> Inr ()"
proof -
  have to: "as_micros (stale_timeout config_default) = 5000000"
    by (simp add: config_default_def as_micros_def from_secs_def)
  then have "as_micros (stale_timeout config_default) < 2 ^ 64" by simp
  from heartbeat_update_check [OF this] show ?thesis by (simp add: to zero_shm_def)
qed

end
