(* ===== verification/Treiber.thy ===== *)
theory Treiber
  imports Pool
begin

text \<open>
  Interleaved runs of \<open>Region::alloc_block\<close> and \<open>Region::free_block\<close>.  Every atomic access to
  the packed head or to a free-list link is one step, so any number of threads (of any number
  of processes) may be between two accesses of the same loop.  A failed
  \<open>compare_exchange_weak\<close>, spurious or not, goes back to the loop with the head it saw.

  The steps carry two ghost items: \<open>t_ver\<close> counts the head updates so far, and each loaded
  head remembers the count at its load.  The generation half of the head is \<open>t_ver\<close> modulo
  \<open>2^32\<close>; it distinguishes heads as long as fewer than \<open>2^32\<close> updates happen between a thread's
  load and its compare-and-swap (\<open>snap_fresh\<close>), which is the standing assumption of tagged
  pointers and a hypothesis of \<open>treiber_reach\<close>.

  Under it, no block is ever handed to two threads, no block is lost, the corruption branches
  are not taken, and every successful compare-and-swap is a pop or a push of the abstract
  stack.
\<close>

type_synonym tid = nat

text \<open>
  Where a thread stands in the code: outside the two functions (\<open>Idle\<close>), in \<open>alloc_block\<close> with
  the head loaded (\<open>ALoaded\<close>) or the link also read and validated (\<open>ANext\<close>), in \<open>free_block\<close>
  with the head loaded (\<open>FLoaded\<close>) or the link stored (\<open>FLinked\<close>), or returned with \<open>Err(())\<close>
  (\<open>Corrupt\<close>).
\<close>

datatype pc =
    Idle
  | ALoaded u64 nat
  | ANext u64 u32 nat
  | FLoaded u32 u64 nat
  | FLinked u32 u64 nat
  | Corrupt

record tstate =
  t_head :: u64
  t_next :: "u32 \<Rightarrow> u32"
  t_pc :: "tid \<Rightarrow> pc"
  t_owned :: "tid \<Rightarrow> u32 set"
  t_ver :: nat

abbreviation gen_of :: "u64 \<Rightarrow> u32" where "gen_of h \<equiv> fst (unpack h)"
abbreviation idx_of :: "u64 \<Rightarrow> u32" where "idx_of h \<equiv> snd (unpack h)"

abbreviation in_pool :: "config \<Rightarrow> u32 \<Rightarrow> bool" where
  "in_pool c i \<equiv> i < block_count c"

abbreviation link_ok :: "config \<Rightarrow> u32 \<Rightarrow> bool" where
  "link_ok c n \<equiv> n = NO_BLOCK \<or> in_pool c n"

inductive tstep :: "config \<Rightarrow> tstate \<Rightarrow> tstate \<Rightarrow> bool" for c where
  alloc_load: "t_pc s i = Idle \<Longrightarrow>
    tstep c s (s\<lparr>t_pc := (t_pc s)(i := ALoaded (t_head s) (t_ver s))\<rparr>)"
| alloc_empty: "t_pc s i = ALoaded h v \<Longrightarrow> idx_of h = NO_BLOCK \<Longrightarrow>
    tstep c s (s\<lparr>t_pc := (t_pc s)(i := Idle)\<rparr>)"
| alloc_corrupt_idx: "t_pc s i = ALoaded h v \<Longrightarrow> idx_of h \<noteq> NO_BLOCK \<Longrightarrow>
    \<not> in_pool c (idx_of h) \<Longrightarrow>
    tstep c s (s\<lparr>t_pc := (t_pc s)(i := Corrupt)\<rparr>)"
| alloc_corrupt_next: "t_pc s i = ALoaded h v \<Longrightarrow> in_pool c (idx_of h) \<Longrightarrow>
    \<not> link_ok c (t_next s (idx_of h)) \<Longrightarrow>
    tstep c s (s\<lparr>t_pc := (t_pc s)(i := Corrupt)\<rparr>)"
| alloc_next: "t_pc s i = ALoaded h v \<Longrightarrow> in_pool c (idx_of h) \<Longrightarrow>
    link_ok c (t_next s (idx_of h)) \<Longrightarrow>
    tstep c s (s\<lparr>t_pc := (t_pc s)(i := ANext h (t_next s (idx_of h)) v)\<rparr>)"
| alloc_cas: "t_pc s i = ANext h n v \<Longrightarrow> t_head s = h \<Longrightarrow>
    tstep c s (s\<lparr>t_head := pack (gen_of h + 1) n, t_pc := (t_pc s)(i := Idle),
      t_owned := (t_owned s)(i := insert (idx_of h) (t_owned s i)), t_ver := t_ver s + 1\<rparr>)"
| alloc_retry: "t_pc s i = ANext h n v \<Longrightarrow>
    tstep c s (s\<lparr>t_pc := (t_pc s)(i := ALoaded (t_head s) (t_ver s))\<rparr>)"
| free_load: "t_pc s i = Idle \<Longrightarrow> b \<in> t_owned s i \<Longrightarrow> in_pool c b \<Longrightarrow>
    tstep c s (s\<lparr>t_pc := (t_pc s)(i := FLoaded b (t_head s) (t_ver s)),
      t_owned := (t_owned s)(i := t_owned s i - {b})\<rparr>)"
| free_link: "t_pc s i = FLoaded b h v \<Longrightarrow>
    tstep c s (s\<lparr>t_next := (t_next s)(b := idx_of h), t_pc := (t_pc s)(i := FLinked b h v)\<rparr>)"
| free_cas: "t_pc s i = FLinked b h v \<Longrightarrow> t_head s = h \<Longrightarrow>
    tstep c s (s\<lparr>t_head := pack (gen_of h + 1) b, t_pc := (t_pc s)(i := Idle),
      t_ver := t_ver s + 1\<rparr>)"
| free_retry: "t_pc s i = FLinked b h v \<Longrightarrow>
    tstep c s (s\<lparr>t_pc := (t_pc s)(i := FLoaded b (t_head s) (t_ver s))\<rparr>)"

fun snap :: "pc \<Rightarrow> nat option" where
  "snap (ALoaded h v) = Some v"
| "snap (ANext h n v) = Some v"
| "snap (FLoaded b h v) = Some v"
| "snap (FLinked b h v) = Some v"
| "snap _ = None"

fun freeing :: "pc \<Rightarrow> u32 option" where
  "freeing (FLoaded b h v) = Some b"
| "freeing (FLinked b h v) = Some b"
| "freeing _ = None"

definition snap_fresh :: "tstate \<Rightarrow> bool" where
  "snap_fresh s \<longleftrightarrow> (\<forall>i v. snap (t_pc s i) = Some v \<longrightarrow> t_ver s - v < 2 ^ 32)"

text \<open>The pool right after \<open>init_free_list\<close>, with no thread inside the allocator.\<close>

definition tinit :: "config \<Rightarrow> shm \<Rightarrow> tstate" where
  "tinit c s =
     (let s0 = init_free_list c s in
      \<lparr>t_head = pool_head s0, t_next = links s0, t_pc = (\<lambda>_. Idle), t_owned = (\<lambda>_. {}),
       t_ver = 0\<rparr>)"

inductive treiber_reach :: "config \<Rightarrow> tstate \<Rightarrow> bool" for c where
  reach_init: "treiber_reach c (tinit c s)"
| reach_step: "treiber_reach c s \<Longrightarrow> snap_fresh s \<Longrightarrow> tstep c s s' \<Longrightarrow> treiber_reach c s'"

section \<open>The invariant\<close>

definition head_ok :: "config \<Rightarrow> tstate \<Rightarrow> u64 \<Rightarrow> nat \<Rightarrow> bool" where
  "head_ok c s h v \<longleftrightarrow> v \<le> t_ver s \<and> gen_of h = of_nat v \<and> (v = t_ver s \<longrightarrow> h = t_head s) \<and>
     link_ok c (idx_of h)"

fun pc_ok :: "config \<Rightarrow> tstate \<Rightarrow> pc \<Rightarrow> bool" where
  "pc_ok c s Idle = True"
| "pc_ok c s (ALoaded h v) = head_ok c s h v"
| "pc_ok c s (ANext h n v) =
     (head_ok c s h v \<and> in_pool c (idx_of h) \<and> link_ok c n \<and>
      (v = t_ver s \<longrightarrow> n = t_next s (idx_of h)))"
| "pc_ok c s (FLoaded b h v) = head_ok c s h v"
| "pc_ok c s (FLinked b h v) = (head_ok c s h v \<and> t_next s b = idx_of h)"
| "pc_ok c s Corrupt = False"

text \<open>
  \<open>places\<close> says where a block is: on the free list, owned by a thread, or being freed by one.
  The invariant demands exactly one place for every block of the pool.
\<close>

datatype place = OnList | OwnedBy tid | FreedBy tid

definition places :: "tstate \<Rightarrow> u32 list \<Rightarrow> u32 \<Rightarrow> place set" where
  "places s fs b =
     {p. case p of OnList \<Rightarrow> b \<in> set fs | OwnedBy i \<Rightarrow> b \<in> t_owned s i
         | FreedBy i \<Rightarrow> freeing (t_pc s i) = Some b}"

definition tinv :: "config \<Rightarrow> tstate \<Rightarrow> u32 list \<Rightarrow> bool" where
  "tinv c s fs \<longleftrightarrow>
     gen_of (t_head s) = of_nat (t_ver s) \<and>
     free_path (t_next s) (idx_of (t_head s)) fs \<and> distinct fs \<and>
     (\<forall>b. if in_pool c b then \<exists>p. places s fs b = {p} else places s fs b = {}) \<and>
     (\<forall>b. in_pool c b \<longrightarrow> link_ok c (t_next s b)) \<and>
     (\<forall>i. pc_ok c s (t_pc s i))"

lemmas tinv_defs = tinv_def head_ok_def

lemma tinvI:
  assumes "gen_of (t_head s) = of_nat (t_ver s)"
    and "free_path (t_next s) (idx_of (t_head s)) fs" and "distinct fs"
    and "\<And>b. if in_pool c b then \<exists>p. places s fs b = {p} else places s fs b = {}"
    and "\<And>b. in_pool c b \<Longrightarrow> link_ok c (t_next s b)"
    and "\<And>i. pc_ok c s (t_pc s i)"
  shows "tinv c s fs"
  using assms by (simp add: tinv_def)

lemma tinvD:
  assumes "tinv c s fs"
  shows "gen_of (t_head s) = of_nat (t_ver s)"
    and "free_path (t_next s) (idx_of (t_head s)) fs" and "distinct fs"
    and "if in_pool c b then \<exists>p. places s fs b = {p} else places s fs b = {}"
    and "in_pool c b \<Longrightarrow> link_ok c (t_next s b)"
    and "pc_ok c s (t_pc s i)"
  using assms by (simp_all add: tinv_def)

lemma pc_ok_cong:
  "t_head s' = t_head s \<Longrightarrow> t_next s' = t_next s \<Longrightarrow> t_ver s' = t_ver s \<Longrightarrow>
   pc_ok c s' p = pc_ok c s p"
  by (cases p) (simp_all add: head_ok_def)

lemma places_cong:
  "t_owned s' = t_owned s \<Longrightarrow> (\<And>j. freeing (t_pc s' j) = freeing (t_pc s j)) \<Longrightarrow>
   places s' fs b = places s fs b"
  by (auto simp: places_def split: place.splits)

lemma places_eqI:
  assumes "b \<in> set fs' \<longleftrightarrow> b \<in> set fs"
    and "\<And>j. b \<in> t_owned s' j \<longleftrightarrow> b \<in> t_owned s j"
    and "\<And>j. freeing (t_pc s' j) = Some b \<longleftrightarrow> freeing (t_pc s j) = Some b"
  shows "places s' fs' b = places s fs b"
  using assms by (auto simp: places_def split: place.splits)

lemma path_head_in: "free_path nx h fs \<Longrightarrow> h \<noteq> NO_BLOCK \<Longrightarrow> h \<in> set fs \<and> fs = h # tl fs"
  by (cases fs) auto

lemma tinv_head_link: "tinv c s fs \<Longrightarrow> link_ok c (idx_of (t_head s))"
proof (cases fs)
  case (Cons x xs)
  assume inv: "tinv c s fs"
  then have "OnList \<in> places s fs (idx_of (t_head s))" by (simp add: tinv_def places_def Cons)
  with inv show ?thesis by (auto simp: tinv_def split: if_splits)
qed (simp add: tinv_def)

text \<open>A step that only moves one thread between two points of the same phase.\<close>

lemma tinv_pc_only:
  assumes inv: "tinv c s fs" and fr: "freeing p = freeing (t_pc s i)" and ok: "pc_ok c s p"
  shows "tinv c (s\<lparr>t_pc := (t_pc s)(i := p)\<rparr>) fs"
proof -
  let ?s = "s\<lparr>t_pc := (t_pc s)(i := p)\<rparr>"
  have pl: "places ?s fs b = places s fs b" for b
    by (rule places_cong) (use fr in auto)
  have "pc_ok c ?s (t_pc ?s j)" for j
    using ok inv by (auto simp: tinv_def pc_ok_cong [of ?s s])
  with inv pl show ?thesis by (simp add: tinv_def)
qed

lemma places_unique:
  assumes "tinv c s fs" "p \<in> places s fs b"
  shows "in_pool c b" and "places s fs b = {p}"
proof -
  from assms(1) have "if in_pool c b then \<exists>p. places s fs b = {p} else places s fs b = {}"
    by (simp add: tinv_def)
  with assms(2) show "in_pool c b" and "places s fs b = {p}" by (auto split: if_splits)
qed

text \<open>A block that changes place, all others staying where they are.\<close>

lemma places_moved:
  assumes inv: "tinv c s fs" and old: "p \<in> places s fs b" and new: "places s' fs' b = {q}"
    and others: "\<And>b'. b' \<noteq> b \<Longrightarrow> places s' fs' b' = places s fs b'"
  shows "if in_pool c b' then \<exists>p. places s' fs' b' = {p} else places s' fs' b' = {}"
proof (cases "b' = b")
  case True
  with new places_unique(1) [OF inv old] show ?thesis by simp
next
  case False
  with others inv show ?thesis by (simp add: tinv_def)
qed

lemma fresh_generation:
  assumes fresh: "t_ver s - v < 2 ^ 32" and ok: "head_ok c s h v"
    and inv: "tinv c s fs" and eq: "t_head s = h"
  shows "v = t_ver s"
proof -
  have "(of_nat v :: u32) = of_nat (t_ver s)" using ok inv eq by (simp add: tinv_defs)
  then have "take_bit 32 v = take_bit 32 (t_ver s)"
    by (simp add: word_of_nat_eq_iff)
  then have "v mod 2 ^ 32 = t_ver s mod 2 ^ 32" by (simp add: take_bit_eq_mod)
  moreover have "v \<le> t_ver s" using ok by (simp add: head_ok_def)
  ultimately have "2 ^ 32 dvd t_ver s - v" by (metis mod_eq_dvd_iff_nat)
  then have "t_ver s - v = 0" using fresh by (metis dvd_imp_le not_le not_gr_zero)
  with \<open>v \<le> t_ver s\<close> show ?thesis by simp
qed

lemma tinv_alloc_cas:
  assumes inv: "tinv c s fs" and fresh: "snap_fresh s" and pc: "t_pc s i = ANext h n v"
    and eq: "t_head s = h"
  defines "s' \<equiv> s\<lparr>t_head := pack (gen_of h + 1) n, t_pc := (t_pc s)(i := Idle),
      t_owned := (t_owned s)(i := insert (idx_of h) (t_owned s i)), t_ver := t_ver s + 1\<rparr>"
  shows "\<exists>fs'. fs = idx_of h # fs' \<and> tinv c s' fs'"
proof -
  let ?x = "idx_of h"
  from inv pc have ok: "pc_ok c s (ANext h n v)" by (metis tinv_def)
  have "snap (t_pc s i) = Some v" by (simp add: pc)
  with fresh have "t_ver s - v < 2 ^ 32" unfolding snap_fresh_def by blast
  from fresh_generation [OF this _ inv eq] ok have v: "v = t_ver s" by simp
  with ok have n: "n = t_next s ?x" and x: "?x < block_count c" by simp_all
  have path: "free_path (t_next s) ?x fs" using inv eq by (simp add: tinv_def)
  from path_head_in [OF path index_not_NO_BLOCK [OF x]] obtain fs' where fs: "fs = ?x # fs'"
    by blast
  have old: "OnList \<in> places s fs ?x" by (simp add: places_def fs)
  have only: "places s fs ?x = {OnList}" by (rule places_unique(2) [OF inv old])
  have d: "?x \<notin> set fs'" using inv by (simp add: tinv_def fs)
  have new: "places s' fs' ?x = {OwnedBy i}"
    using only d pc by (auto simp: places_def s'_def set_eq_iff split: place.splits if_splits)
  have others: "places s' fs' b = places s fs b" if "b \<noteq> ?x" for b
    by (rule places_eqI) (use that pc in \<open>simp_all add: s'_def fs\<close>)
  have pcs: "pc_ok c s' (t_pc s' j)" for j
    using tinvD(6) [OF inv, of j] by (cases "t_pc s j") (auto simp: s'_def head_ok_def)
  have "tinv c s' fs'"
  proof (rule tinvI)
    show "gen_of (t_head s') = of_nat (t_ver s')"
      using inv eq by (simp add: s'_def tinv_def add.commute)
    show "free_path (t_next s') (idx_of (t_head s')) fs'"
      using path by (simp add: fs s'_def n)
    show "distinct fs'" using inv by (simp add: tinv_def fs)
    show "if in_pool c b then \<exists>p. places s' fs' b = {p} else places s' fs' b = {}" for b
      by (rule places_moved [OF inv old new others])
    show "in_pool c b \<Longrightarrow> link_ok c (t_next s' b)" for b
      using tinvD(5) [OF inv] by (simp add: s'_def)
    show "pc_ok c s' (t_pc s' j)" for j by (rule pcs)
  qed
  with fs show ?thesis by blast
qed

lemma tinv_free_load:
  assumes inv: "tinv c s fs" and pc: "t_pc s i = Idle" and own: "b \<in> t_owned s i"
  defines "s' \<equiv> s\<lparr>t_pc := (t_pc s)(i := FLoaded b (t_head s) (t_ver s)),
      t_owned := (t_owned s)(i := t_owned s i - {b})\<rparr>"
  shows "tinv c s' fs"
proof -
  have old: "OwnedBy i \<in> places s fs b" by (simp add: places_def own)
  have only: "places s fs b = {OwnedBy i}" by (rule places_unique(2) [OF inv old])
  have new: "places s' fs b = {FreedBy i}"
    using only by (auto simp: places_def s'_def set_eq_iff split: place.splits if_splits)
  have others: "places s' fs b' = places s fs b'" if "b' \<noteq> b" for b'
    by (rule places_eqI) (use that pc in \<open>simp_all add: s'_def\<close>)
  have hd: "head_ok c s (t_head s) (t_ver s)"
    using inv tinv_head_link [OF inv] by (simp add: tinv_defs)
  show ?thesis
  proof (rule tinvI)
    show "pc_ok c s' (t_pc s' j)" for j
      using tinvD(6) [OF inv] hd pc_ok_cong [of s' s] by (simp add: s'_def head_ok_def)
    show "if in_pool c b' then \<exists>p. places s' fs b' = {p} else places s' fs b' = {}" for b'
      by (rule places_moved [OF inv old new others])
  qed (use tinvD(1-3,5) [OF inv] in \<open>simp_all add: s'_def\<close>)
qed

lemma tinv_free_link:
  assumes inv: "tinv c s fs" and pc: "t_pc s i = FLoaded b h v"
  defines "s' \<equiv> s\<lparr>t_next := (t_next s)(b := idx_of h), t_pc := (t_pc s)(i := FLinked b h v)\<rparr>"
  shows "tinv c s' fs"
proof -
  from inv pc have ok: "head_ok c s h v" by (metis tinv_def pc_ok.simps(4))
  have "FreedBy i \<in> places s fs b" by (simp add: places_def pc)
  then have only: "places s fs b = {FreedBy i}" by (rule places_unique(2) [OF inv])
  have b_off: "b \<notin> set fs" using only by (auto simp: places_def set_eq_iff split: place.splits)
  have b_one: "j = i" if "freeing (t_pc s j) = Some b" for j
  proof -
    from that have "FreedBy j \<in> places s fs b" by (simp add: places_def)
    with only show ?thesis by simp
  qed
  have path: "free_path (t_next s) (idx_of (t_head s)) fs" using inv by (simp add: tinv_def)
  have pl: "places s' fs b' = places s fs b'" for b'
    by (rule places_cong) (auto simp: s'_def pc)
  have pcs: "pc_ok c s' (t_pc s' j)" for j
  proof (cases "j = i")
    case True
    with ok show ?thesis by (simp add: s'_def head_ok_def)
  next
    case False
    have okj: "pc_ok c s (t_pc s j)" using inv by (simp add: tinv_def)
    show ?thesis
    proof (cases "t_pc s j")
      case (ANext h' n' v')
      have "idx_of h' \<noteq> b" if "v' = t_ver s"
      proof -
        from okj ANext that have "h' = t_head s" "idx_of h' \<noteq> NO_BLOCK"
          by (auto simp: head_ok_def dest: index_not_NO_BLOCK)
        with path_head_in [OF path] b_off show ?thesis by auto
      qed
      with okj ANext False show ?thesis by (auto simp: s'_def head_ok_def)
    next
      case (FLinked b' h' v')
      with b_one [of j] False have "b' \<noteq> b" by auto
      with okj FLinked False show ?thesis by (simp add: s'_def head_ok_def)
    qed (use okj False in \<open>simp_all add: s'_def head_ok_def\<close>)
  qed
  have "free_path (t_next s') (idx_of (t_head s')) fs = free_path (t_next s) (idx_of (t_head s)) fs"
    unfolding s'_def by simp (rule free_path_cong, use b_off in auto)
  then have path': "free_path (t_next s') (idx_of (t_head s')) fs" using path by simp
  show ?thesis
  proof (rule tinvI)
    show "link_ok c (t_next s' b')" if "in_pool c b'" for b'
      using tinvD(5) [OF inv that] ok by (simp add: s'_def head_ok_def)
    show "if in_pool c b' then \<exists>p. places s' fs b' = {p} else places s' fs b' = {}" for b'
      using tinvD(4) [OF inv] by (simp only: pl)
  qed (use tinvD(1,3) [OF inv] path' pcs in \<open>simp_all add: s'_def\<close>)
qed

lemma tinv_free_cas:
  assumes inv: "tinv c s fs" and pc: "t_pc s i = FLinked b h v" and eq: "t_head s = h"
  defines "s' \<equiv> s\<lparr>t_head := pack (gen_of h + 1) b, t_pc := (t_pc s)(i := Idle), t_ver := t_ver s + 1\<rparr>"
  shows "tinv c s' (b # fs)"
proof -
  from inv pc have ok: "pc_ok c s (FLinked b h v)" by (metis tinv_def)
  have old: "FreedBy i \<in> places s fs b" by (simp add: places_def pc)
  have only: "places s fs b = {FreedBy i}" by (rule places_unique(2) [OF inv old])
  have b_off: "b \<notin> set fs" using only by (auto simp: places_def set_eq_iff split: place.splits)
  have new: "places s' (b # fs) b = {OnList}"
    using only by (auto simp: places_def s'_def set_eq_iff split: place.splits if_splits)
  have others: "places s' (b # fs) b' = places s fs b'" if "b' \<noteq> b" for b'
    by (rule places_eqI) (use that pc in \<open>simp_all add: s'_def\<close>)
  have pcs: "pc_ok c s' (t_pc s' j)" for j
    using tinvD(6) [OF inv, of j] by (cases "t_pc s j") (auto simp: s'_def head_ok_def)
  show ?thesis
  proof (rule tinvI)
    show "if in_pool c b' then \<exists>p. places s' (b # fs) b' = {p} else places s' (b # fs) b' = {}" for b'
      by (rule places_moved [OF inv old new others])
    show "pc_ok c s' (t_pc s' j)" for j by (rule pcs)
    show "free_path (t_next s') (idx_of (t_head s')) (b # fs)"
      using tinvD(2) [OF inv] ok eq by (simp add: s'_def)
  qed (use tinvD(1,3,5) [OF inv] eq b_off in \<open>simp_all add: s'_def add.commute\<close>)
qed

lemma tinv_init:
  assumes "0 < block_count c"
  shows "tinv c (tinit c s) (range_u32 (block_count c))"
proof -
  let ?s0 = "init_free_list c s"
  have fl: "free_list c ?s0 (range_u32 (block_count c))"
    by (rule init_free_list_full [OF assms])
  have st: "t_head (tinit c s) = pool_head ?s0" "t_next (tinit c s) = links ?s0"
    "t_pc (tinit c s) = (\<lambda>_. Idle)" "t_owned (tinit c s) = (\<lambda>_. {})" "t_ver (tinit c s) = 0"
    by (simp_all add: tinit_def Let_def)
  show ?thesis
  proof (rule tinvI)
    show "gen_of (t_head (tinit c s)) = of_nat (t_ver (tinit c s))"
      by (simp add: st init_free_list_def)
    show "if in_pool c b then \<exists>p. places (tinit c s) (range_u32 (block_count c)) b = {p}
       else places (tinit c s) (range_u32 (block_count c)) b = {}" for b
      by (auto simp: places_def st set_eq_iff split: place.splits intro!: exI [of _ OnList])
    show "link_ok c (t_next (tinit c s) b)" if "in_pool c b" for b
      using that by (simp add: st init_blocks init_block_def)
  qed (use fl in \<open>simp_all add: st free_list_def\<close>)
qed

section \<open>Every step is a stack step\<close>

text \<open>
  The abstract stack machine: a step of the interleaved code leaves the stack alone, pops its
  top into the hands of one thread, or pushes a block that a thread was freeing.
\<close>

datatype stack_event = Silent | Popped tid u32 | Pushed tid u32

fun stack_event_ok :: "tstate \<Rightarrow> u32 list \<Rightarrow> tstate \<Rightarrow> u32 list \<Rightarrow> stack_event \<Rightarrow> bool" where
  "stack_event_ok s fs s' fs' Silent = (fs' = fs \<and> t_ver s' = t_ver s)"
| "stack_event_ok s fs s' fs' (Popped i b) =
     (fs = b # fs' \<and> t_owned s' i = insert b (t_owned s i) \<and> t_ver s' = t_ver s + 1)"
| "stack_event_ok s fs s' fs' (Pushed i b) =
     (fs' = b # fs \<and> freeing (t_pc s i) = Some b \<and> t_ver s' = t_ver s + 1)"

lemma head_ok_now: "tinv c s fs \<Longrightarrow> head_ok c s (t_head s) (t_ver s)"
  using tinv_head_link [of c s fs] tinvD(1) [of c s fs] by (simp add: head_ok_def)

lemma tstep_simulates:
  assumes step: "tstep c s s'" and fresh: "snap_fresh s" and inv: "tinv c s fs"
  shows "\<exists>fs' e. tinv c s' fs' \<and> stack_event_ok s fs s' fs' e"
  using step
proof cases
  case (alloc_load i)
  have "tinv c s' fs"
    unfolding alloc_load(1)
    by (rule tinv_pc_only [OF inv]) (use alloc_load(2) head_ok_now [OF inv] in simp_all)
  then show ?thesis using alloc_load by (intro exI [of _ fs] exI [of _ Silent]) simp
next
  case (alloc_empty i h v)
  have "tinv c s' fs"
    unfolding alloc_empty(1) by (rule tinv_pc_only [OF inv]) (use alloc_empty(2) in simp_all)
  then show ?thesis using alloc_empty by (intro exI [of _ fs] exI [of _ Silent]) simp
next
  case (alloc_corrupt_idx i h v)
  then show ?thesis using tinvD(6) [OF inv, of i] by (simp add: head_ok_def)
next
  case (alloc_corrupt_next i h v)
  then show ?thesis using tinvD(5) [OF inv, of "idx_of h"] by simp
next
  case (alloc_next i h v)
  have "tinv c s' fs"
    unfolding alloc_next(1)
    by (rule tinv_pc_only [OF inv]) (use alloc_next(2-) tinvD(6) [OF inv, of i] in simp_all)
  then show ?thesis using alloc_next by (intro exI [of _ fs] exI [of _ Silent]) simp
next
  case (alloc_cas i h n v)
  from tinv_alloc_cas [OF inv fresh alloc_cas(2,3)] alloc_cas(1)
  obtain fs' where "fs = idx_of h # fs'" "tinv c s' fs'" by blast
  then show ?thesis
    using alloc_cas(1) by (intro exI [of _ fs'] exI [of _ "Popped i (idx_of h)"]) simp
next
  case (alloc_retry i h n v)
  have "tinv c s' fs"
    unfolding alloc_retry(1)
    by (rule tinv_pc_only [OF inv]) (use alloc_retry(2) head_ok_now [OF inv] in simp_all)
  then show ?thesis using alloc_retry by (intro exI [of _ fs] exI [of _ Silent]) simp
next
  case (free_load i b)
  with tinv_free_load [OF inv free_load(2,3)] have "tinv c s' fs" by simp
  then show ?thesis using free_load by (intro exI [of _ fs] exI [of _ Silent]) simp
next
  case (free_link i b h v)
  with tinv_free_link [OF inv free_link(2)] have "tinv c s' fs" by simp
  then show ?thesis using free_link by (intro exI [of _ fs] exI [of _ Silent]) simp
next
  case (free_cas i b h v)
  with tinv_free_cas [OF inv free_cas(2,3)] have "tinv c s' (b # fs)" by simp
  then show ?thesis using free_cas by (intro exI [of _ "b # fs"] exI [of _ "Pushed i b"]) simp
next
  case (free_retry i b h v)
  have "tinv c s' fs"
    unfolding free_retry(1)
    by (rule tinv_pc_only [OF inv]) (use free_retry(2) head_ok_now [OF inv] in simp_all)
  then show ?thesis using free_retry by (intro exI [of _ fs] exI [of _ Silent]) simp
qed

lemma treiber_reach_inv:
  assumes "treiber_reach c s" and "0 < block_count c"
  shows "\<exists>fs. tinv c s fs"
  using assms(1)
proof induction
  case (reach_init s)
  show ?case using tinv_init [OF assms(2)] by blast
next
  case (reach_step s s')
  then show ?case using tstep_simulates by blast
qed

text \<open>A run of the default configuration in which thread 0 allocates block 0.\<close>

lemma treiber_example:
  "\<exists>s. treiber_reach config_default s \<and> snap_fresh s \<and> 0 \<in> t_owned s 0 \<and> t_pc s 1 = Idle"
proof -
  let ?c = config_default
  define s0 where "s0 = tinit ?c (zero_shm ?c)"
  define s1 where "s1 = s0\<lparr>t_pc := (t_pc s0)(0 := ALoaded (t_head s0) (t_ver s0))\<rparr>"
  define s2 where "s2 = s1\<lparr>t_pc := (t_pc s1)(0 := ANext (t_head s0) (t_next s1 (idx_of (t_head s0))) 0)\<rparr>"
  define s3 where "s3 = s2\<lparr>t_head := pack (gen_of (t_head s0) + 1) (t_next s1 (idx_of (t_head s0))),
      t_pc := (t_pc s2)(0 := Idle),
      t_owned := (t_owned s2)(0 := insert (idx_of (t_head s0)) (t_owned s2 0)), t_ver := t_ver s2 + 1\<rparr>"
  have bc: "block_count ?c = 256" by (simp add: config_default_def)
  have st0: "t_head s0 = pack 0 0" "t_pc s0 = (\<lambda>_. Idle)" "t_ver s0 = 0" "t_owned s0 = (\<lambda>_. {})"
    "t_next s0 0 = 1"
    by (simp_all add: s0_def tinit_def Let_def init_blocks init_block_def bc)
  have r0: "treiber_reach ?c s0" unfolding s0_def by (rule reach_init)
  have "tstep ?c s0 s1" unfolding s1_def by (rule alloc_load) (simp add: st0)
  from reach_step [OF r0 _ this] have r1: "treiber_reach ?c s1"
    by (simp add: snap_fresh_def st0)
  have "tstep ?c s1 s2"
    unfolding s2_def
    by (rule alloc_next) (simp_all add: s1_def st0 bc)
  from reach_step [OF r1 _ this] have r2: "treiber_reach ?c s2"
    by (simp add: snap_fresh_def s1_def st0)
  have "tstep ?c s2 s3" unfolding s3_def
    by (rule alloc_cas) (simp_all add: s2_def s1_def st0)
  from reach_step [OF r2 _ this] have r3: "treiber_reach ?c s3"
    by (simp add: snap_fresh_def s2_def s1_def st0)
  moreover have "snap_fresh s3" by (simp add: snap_fresh_def s3_def s2_def s1_def st0)
  moreover have "0 \<in> t_owned s3 0" "t_pc s3 1 = Idle"
    by (simp_all add: s3_def s2_def s1_def st0)
  ultimately show ?thesis by blast
qed

text \<open>
  \<^bold>\<open>C1.\<close> The lock-free pool is safe under every interleaving.  In every reachable state no
  block is owned by two threads, no owned block is on the free list or being freed, every
  block of the pool is in exactly one of these places (none is lost), and no thread has
  reported free-list corruption.
\<close>

theorem treiber_no_double_alloc:
  assumes "treiber_reach c s" and "0 < block_count c"
  shows "(\<forall>i j b. b \<in> t_owned s i \<and> b \<in> t_owned s j \<longrightarrow> i = j) \<and>
    (\<exists>fs. free_path (t_next s) (idx_of (t_head s)) fs \<and> distinct fs \<and>
       (\<forall>b. in_pool c b \<longleftrightarrow> (\<exists>p. places s fs b = {p})) \<and>
       (\<forall>b. \<not> in_pool c b \<longrightarrow> places s fs b = {})) \<and>
    (\<forall>i. t_pc s i \<noteq> Corrupt)"
proof -
  obtain fs where inv: "tinv c s fs" using treiber_reach_inv [OF assms] by blast
  have "i = j" if "b \<in> t_owned s i" "b \<in> t_owned s j" for i j b
  proof -
    from that have "OwnedBy i \<in> places s fs b" "OwnedBy j \<in> places s fs b"
      by (simp_all add: places_def)
    with places_unique(2) [OF inv] show ?thesis by blast
  qed
  moreover have "in_pool c b \<longleftrightarrow> (\<exists>p. places s fs b = {p})" for b
    using tinvD(4) [OF inv, of b] by (auto split: if_splits)
  moreover have "\<not> in_pool c b \<longrightarrow> places s fs b = {}" for b
    using tinvD(4) [OF inv, of b] by simp
  moreover have "t_pc s i \<noteq> Corrupt" for i
    using tinvD(6) [OF inv, of i] by auto
  ultimately show ?thesis using tinvD(2,3) [OF inv] by blast
qed

theorem treiber_no_double_alloc_witness:
  "\<exists>s. treiber_reach config_default s \<and> 0 \<in> t_owned s 0 \<and> 0 \<notin> t_owned s 1"
proof -
  obtain s where s: "treiber_reach config_default s" "0 \<in> t_owned s 0"
    using treiber_example by blast
  have "0 < block_count config_default" by (simp add: config_default_def)
  from treiber_no_double_alloc [OF s(1) this] have "0 \<in> t_owned s 1 \<longrightarrow> (0 :: nat) = 1"
    using s(2) by blast
  with s show ?thesis by auto
qed

text \<open>
  \<^bold>\<open>C2.\<close> Every atomic step of the interleaved allocator refines a step of an abstract stack: it
  leaves the stack unchanged, pops its top into the hands of the thread whose
  compare-and-swap succeeded, or pushes the block a thread was freeing.
\<close>

theorem treiber_refines_stack:
  assumes "treiber_reach c s" and "0 < block_count c" and "snap_fresh s" and "tstep c s s'"
  shows "\<exists>fs fs' e. free_path (t_next s) (idx_of (t_head s)) fs \<and>
    free_path (t_next s') (idx_of (t_head s')) fs' \<and> stack_event_ok s fs s' fs' e"
proof -
  obtain fs where inv: "tinv c s fs" using treiber_reach_inv [OF assms(1,2)] by blast
  with tstep_simulates [OF assms(4,3)] obtain fs' e
    where "tinv c s' fs'" "stack_event_ok s fs s' fs' e" by blast
  with tinvD(2) [OF inv] tinvD(2) [of c s' fs'] show ?thesis by blast
qed

theorem treiber_refines_stack_witness:
  "\<exists>s s' fs fs' e. treiber_reach config_default s \<and> tstep config_default s s' \<and>
     stack_event_ok s fs s' fs' e"
proof -
  obtain s where s: "treiber_reach config_default s" "snap_fresh s" "t_pc s 1 = Idle"
    using treiber_example by blast
  have step: "tstep config_default s (s\<lparr>t_pc := (t_pc s)(1 := ALoaded (t_head s) (t_ver s))\<rparr>)"
    by (rule alloc_load) (rule s(3))
  have "0 < block_count config_default" by (simp add: config_default_def)
  from treiber_refines_stack [OF s(1) this s(2) step] s(1) step show ?thesis by blast
qed

end
