(* ===== verification/Names.thy ===== *)
theory Names
  imports Layout
begin

text \<open>
  Segment names and the files they stand for (\<open>shm_path\<close>, \<open>lock_path\<close> and \<open>validate_name\<close> of
  \<open>src/platform/shm.rs\<close>, and their \<open>PodBus\<close> twins of \<open>src/platform/pod_bus.rs\<close>).  Paths are
  strings; \<open>set_extension\<close> and \<open>join\<close> follow \<open>std::path\<close>.  \<open>cfg!(target_os)\<close> is the argument
  \<open>os\<close>, \<open>std::env::temp_dir()\<close> the argument \<open>tmp\<close>.

  A valid name adds exactly one file-name component below the segment directory.  Dot-free
  names have pairwise different lock files, none of which is a segment file.  With dots this
  fails: \<open>set_extension\<close> replaces everything after the last dot, so different segments share a
  lock file, and the segment \<open>a.lock\<close> is the lock file of segment \<open>a\<close>.
\<close>

datatype target_os = Linux | Windows | OtherUnix

section \<open>Paths of the standard library\<close>

definition is_sep :: "target_os \<Rightarrow> char \<Rightarrow> bool" where
  "is_sep os ch \<longleftrightarrow> ch = CHR ''/'' \<or> os = Windows \<and> ch = CHR 0x5C"

definition path_join :: "target_os \<Rightarrow> string \<Rightarrow> string \<Rightarrow> string" where
  "path_join os dir file =
     (if dir = [] \<or> is_sep os (last dir) then dir @ file
      else dir @ [if os = Windows then CHR 0x5C else CHR ''/''] @ file)"

definition file_name :: "target_os \<Rightarrow> string \<Rightarrow> string" where
  "file_name os p = rev (takeWhile (\<lambda>ch. \<not> is_sep os ch) (rev p))"

text \<open>\<open>before_last_dot f\<close> is the part of \<open>f\<close> before its last dot, if it has one.\<close>

fun before_last_dot :: "string \<Rightarrow> string option" where
  "before_last_dot [] = None"
| "before_last_dot (ch # f) =
     (case before_last_dot f of
        Some g \<Rightarrow> Some (ch # g)
      | None \<Rightarrow> if ch = CHR ''.'' then Some [] else None)"

definition file_stem :: "string \<Rightarrow> string" where
  "file_stem f =
     (if f = ''..'' then f
      else case before_last_dot f of
        Some g \<Rightarrow> if g = [] then f else g
      | None \<Rightarrow> f)"

definition set_extension :: "target_os \<Rightarrow> string \<Rightarrow> string \<Rightarrow> string" where
  "set_extension os p ext =
     (let f = file_name os p; dir = take (length p - length f) p
      in dir @ file_stem f @ ''.'' @ ext)"

section \<open>Segment files\<close>

definition shm_path :: "target_os \<Rightarrow> string \<Rightarrow> string \<Rightarrow> string" where
  "shm_path os tmp name =
     (case os of
        Linux \<Rightarrow> ''/dev/shm/crossbar-'' @ name
      | Windows \<Rightarrow> path_join os tmp (''crossbar-'' @ name)
      | OtherUnix \<Rightarrow> ''/tmp/crossbar-shm-'' @ name)"

definition lock_path :: "target_os \<Rightarrow> string \<Rightarrow> string \<Rightarrow> string" where
  "lock_path os tmp name = set_extension os (shm_path os tmp name) ''lock''"

definition validate_name :: "string \<Rightarrow> unit result" where
  "validate_name name =
     (if \<not> is_valid_segment_name name then Inl (SegmentNameInvalid name) else Inr ())"

definition pod_bus_shm_path :: "target_os \<Rightarrow> string \<Rightarrow> string \<Rightarrow> string" where
  "pod_bus_shm_path os tmp name =
     (case os of
        Linux \<Rightarrow> ''/dev/shm/crossbar-pod-'' @ name
      | Windows \<Rightarrow> path_join os tmp (''crossbar-pod-'' @ name)
      | OtherUnix \<Rightarrow> ''/tmp/crossbar-pod-shm-'' @ name)"

definition pod_bus_lock_path :: "target_os \<Rightarrow> string \<Rightarrow> string \<Rightarrow> string" where
  "pod_bus_lock_path os tmp name = set_extension os (pod_bus_shm_path os tmp name) ''lock''"

section \<open>Lemmas\<close>

lemma before_last_dot_None_iff: "before_last_dot f = None \<longleftrightarrow> CHR ''.'' \<notin> set f"
  by (induction f) (auto split: option.splits)

lemma before_last_dot_append:
  "CHR ''.'' \<notin> set ext \<Longrightarrow> before_last_dot (f @ CHR ''.'' # ext) = Some f"
  by (induction f) (auto simp: before_last_dot_None_iff split: option.splits)

lemma file_name_append_sep:
  "is_sep os ch \<Longrightarrow> \<forall>x \<in> set f. \<not> is_sep os x \<Longrightarrow> file_name os (dir @ ch # f) = f"
  by (simp add: file_name_def takeWhile_append)

lemma takeWhile_all: "\<forall>x \<in> set xs. P x \<Longrightarrow> takeWhile P xs = xs"
  by (simp add: takeWhile_eq_all_conv)

lemma set_extension_below_dir:
  assumes "is_sep os ch" and "\<forall>x \<in> set f. \<not> is_sep os x"
  shows "set_extension os (dir @ ch # f) ext = dir @ ch # file_stem f @ ''.'' @ ext"
  using file_name_append_sep [OF assms, of dir] by (simp add: set_extension_def Let_def)

lemma file_stem_no_dot: "CHR ''.'' \<notin> set f \<Longrightarrow> file_stem f = f"
  by (simp add: file_stem_def before_last_dot_None_iff [THEN iffD2])

lemma file_stem_dot:
  "CHR ''.'' \<notin> set ext \<Longrightarrow> f \<noteq> [] \<Longrightarrow> f \<noteq> ''.'' \<Longrightarrow> file_stem (f @ CHR ''.'' # ext) = f"
  by (auto simp: file_stem_def before_last_dot_append append_eq_Cons_conv)

lemma before_last_dot_prefix:
  "before_last_dot f = Some g \<Longrightarrow> \<exists>r. f = g @ r"
  by (induction f arbitrary: g) (auto split: option.splits if_splits)

lemma stem_keeps_prefix:
  assumes "CHR ''.'' \<notin> set p" and "p \<noteq> []"
  shows "\<exists>g. file_stem (p @ f) = p @ g \<and> set g \<subseteq> set f"
proof (cases "before_last_dot f")
  case None
  with assms show ?thesis
    by (auto simp: before_last_dot_None_iff file_stem_no_dot)
next
  case (Some g)
  have "before_last_dot (p @ f) = Some (p @ g)"
    using Some by (induction p) auto
  moreover have "p @ f \<noteq> ''..''" using assms by (cases p) auto
  moreover obtain r where "f = g @ r" using before_last_dot_prefix [OF Some] by blast
  ultimately show ?thesis using assms(2) by (auto simp: file_stem_def)
qed

lemma valid_name_no_sep:
  "is_valid_segment_name name \<Longrightarrow> \<forall>x \<in> set name. \<not> is_sep os x"
  by (auto simp: is_valid_segment_name_def is_sep_def split: if_splits)

lemma linux_lock_path:
  assumes "is_valid_segment_name name"
  shows "lock_path Linux tmp name = ''/dev/shm/'' @ file_stem (''crossbar-'' @ name) @ ''.lock''"
proof -
  have "shm_path Linux tmp name = ''/dev/shm'' @ CHR ''/'' # (''crossbar-'' @ name)"
    by (simp add: shm_path_def)
  moreover have "\<forall>x \<in> set (''crossbar-'' @ name). \<not> is_sep Linux x"
    using valid_name_no_sep [OF assms] by (auto simp: is_sep_def)
  ultimately show ?thesis
    unfolding lock_path_def
    by (simp only: set_extension_below_dir [of Linux "CHR ''/''"] is_sep_def simp_thms) simp
qed

text \<open>
  \<^bold>\<open>C8.\<close> On Linux a valid segment name stays inside \<open>/dev/shm\<close>: the segment file and the
  lock file are that directory followed by one file name, which starts with \<open>crossbar-\<close> and
  contains no separator, so no name reaches another directory.
\<close>

theorem valid_name_confined:
  assumes "is_valid_segment_name name"
  shows "validate_name name = Inr () \<and>
    shm_path Linux tmp name = ''/dev/shm/'' @ file_name Linux (shm_path Linux tmp name) \<and>
    file_name Linux (shm_path Linux tmp name) = ''crossbar-'' @ name \<and>
    lock_path Linux tmp name = ''/dev/shm/'' @ file_name Linux (lock_path Linux tmp name) \<and>
    take 9 (file_name Linux (lock_path Linux tmp name)) = ''crossbar-''"
proof -
  have name_ok: "\<forall>x \<in> set (''crossbar-'' @ name). \<not> is_sep Linux x"
    using valid_name_no_sep [OF assms] by (auto simp: is_sep_def)
  have shm: "file_name Linux (shm_path Linux tmp name) = ''crossbar-'' @ name"
    using file_name_append_sep [of Linux "CHR ''/''" "''crossbar-'' @ name" "''/dev/shm''"] name_ok
    by (simp add: shm_path_def is_sep_def)
  obtain g where g: "file_stem (''crossbar-'' @ name) = ''crossbar-'' @ g"
    and sub: "set g \<subseteq> set name"
    using stem_keeps_prefix [of "''crossbar-''" name] by auto
  have "\<forall>x \<in> set (''crossbar-'' @ g @ ''.lock''). \<not> is_sep Linux x"
    using name_ok sub by (auto simp: is_sep_def)
  moreover have lp: "lock_path Linux tmp name = ''/dev/shm'' @ CHR ''/'' # (''crossbar-'' @ g @ ''.lock'')"
    by (simp only: linux_lock_path [OF assms] g) simp
  ultimately have lock: "file_name Linux (lock_path Linux tmp name) = ''crossbar-'' @ g @ ''.lock''"
    by (simp only: lp) (rule file_name_append_sep, simp_all add: is_sep_def)
  have "lock_path Linux tmp name = ''/dev/shm/'' @ file_name Linux (lock_path Linux tmp name)"
    by (simp only: lock) (simp add: lp)
  moreover have "take 9 (file_name Linux (lock_path Linux tmp name)) = ''crossbar-''"
    by (simp only: lock) simp
  moreover have "shm_path Linux tmp name = ''/dev/shm/'' @ file_name Linux (shm_path Linux tmp name)"
    by (simp only: shm) (simp add: shm_path_def)
  ultimately show ?thesis using assms shm by (simp only: validate_name_def) simp
qed

theorem valid_name_confined_witness:
  "is_valid_segment_name ''prices'' \<and> validate_name ''prices'' = Inr () \<and>
   file_name Linux (shm_path Linux ''/tmp'' ''prices'') = ''crossbar-prices''"
  using valid_name_confined [of "''prices''" "''/tmp''"]
  by (simp add: is_valid_segment_name_def)

text \<open>
  Among dot-free names the lock discipline separates segments: different names have
  different lock files, and no lock file is the segment file of a dot-free name.
\<close>

theorem dotfree_lock_files_distinct:
  assumes "is_valid_segment_name a" and "is_valid_segment_name b"
    and "CHR ''.'' \<notin> set a" and "CHR ''.'' \<notin> set b"
  shows "(lock_path Linux tmp a = lock_path Linux tmp b \<longleftrightarrow> a = b) \<and>
    lock_path Linux tmp a \<noteq> shm_path Linux tmp b"
proof -
  have la: "lock_path Linux tmp a = ''/dev/shm/crossbar-'' @ a @ ''.lock''"
    using assms by (simp add: linux_lock_path file_stem_no_dot)
  have lb: "lock_path Linux tmp b = ''/dev/shm/crossbar-'' @ b @ ''.lock''"
    using assms by (simp add: linux_lock_path file_stem_no_dot)
  have "a @ ''.lock'' \<noteq> b"
    using assms(4) by auto
  then show ?thesis by (simp add: la lb) (simp add: shm_path_def)
qed

theorem dotfree_lock_files_distinct_witness:
  "lock_path Linux ''/tmp'' ''rpc-srv'' \<noteq> lock_path Linux ''/tmp'' ''rpc-cli'' \<and>
   lock_path Linux ''/tmp'' ''rpc-srv'' \<noteq> shm_path Linux ''/tmp'' ''rpc-cli''"
  using dotfree_lock_files_distinct [of "''rpc-srv''" "''rpc-cli''" "''/tmp''"]
  by (simp add: is_valid_segment_name_def)

text \<open>
  \<^bold>\<open>C9.\<close> With dots the lock files collide.  Two names that differ only after their last dot
  share one lock file, so the second publisher is refused although its segment is free; and
  the segment file of the valid name \<open>a.lock\<close> is the lock file of segment \<open>a\<close>, which
  \<open>Publisher::create\<close> removes and truncates.
\<close>

theorem dotted_names_share_lock:
  assumes "is_valid_segment_name (a @ CHR ''.'' # x)" and "is_valid_segment_name (a @ CHR ''.'' # y)"
    and "CHR ''.'' \<notin> set x" and "CHR ''.'' \<notin> set y"
    and "is_valid_segment_name b" and "CHR ''.'' \<notin> set b"
  shows "lock_path Linux tmp (a @ CHR ''.'' # x) = lock_path Linux tmp (a @ CHR ''.'' # y) \<and>
    shm_path Linux tmp (b @ ''.lock'') = lock_path Linux tmp b"
proof -
  have "file_stem (''crossbar-'' @ a @ CHR ''.'' # z) = ''crossbar-'' @ a"
    if "CHR ''.'' \<notin> set z" for z
    using file_stem_dot [OF that, of "''crossbar-'' @ a"] by simp
  with assms show ?thesis
    by (simp add: linux_lock_path) (simp add: file_stem_no_dot shm_path_def)
qed

theorem dotted_names_share_lock_witness:
  "shm_path Linux ''/tmp'' ''prices.v1'' \<noteq> shm_path Linux ''/tmp'' ''prices.v2'' \<and>
   lock_path Linux ''/tmp'' ''prices.v1'' = lock_path Linux ''/tmp'' ''prices.v2'' \<and>
   is_valid_segment_name ''prices.lock'' \<and>
   shm_path Linux ''/tmp'' ''prices.lock'' = lock_path Linux ''/tmp'' ''prices''"
  using dotted_names_share_lock [of "''prices''" "''v1''" "''v2''" "''prices''" "''/tmp''"]
  by (simp add: is_valid_segment_name_def shm_path_def)

end
