(* ===== verification/Registry.thy ===== *)
theory Registry
  imports Names Pool
begin

text \<open>
  The global topic registry of \<open>src/platform/registry.rs\<close>: a shared file of 256 fixed-size
  entries in which publishers record (region, URI, pid, timestamp) and clients look topics up.

  A registry is a record of its header fields and the list of its entries; the loops over the
  entry slots are recursion over that list, with the header's entry count threaded through the
  loops that change it.  Strings are stored null-terminated in fixed arrays and read back
  through \<open>String::from_utf8_lossy\<close>, which is modelled on bytes (\<open>utf8_lossy\<close>).

  What clients rely on is the abstract directory \<open>reg_view\<close>, the list of topics in active
  slots: registration, removal, pruning and discovery are proved to be the corresponding list
  operations on it, and the header count is its length.
\<close>

section \<open>Fixed-size strings\<close>

definition as_bytes :: "string \<Rightarrow> bytes" where
  "as_bytes s = map of_char s"

definition from_bytes :: "bytes \<Rightarrow> string" where
  "from_bytes bs = map (\<lambda>b. char_of (unat b)) bs"

text \<open>
  One step of the standard library's UTF-8 decoder: for the lead byte \<open>b\<close>, how many of the
  following bytes belong to its chunk and whether the chunk is a complete character.  Reading
  past the end yields \<open>0\<close>, which is no continuation byte.
\<close>

definition safe_get :: "bytes \<Rightarrow> nat \<Rightarrow> u8" where
  "safe_get bs i = (if i < length bs then bs ! i else 0)"

definition is_cont :: "u8 \<Rightarrow> bool" where
  "is_cont b \<longleftrightarrow> 0x80 \<le> b \<and> b \<le> 0xBF"

definition second3_ok :: "u8 \<Rightarrow> u8 \<Rightarrow> bool" where
  "second3_ok b x \<longleftrightarrow>
     (if b = 0xE0 then 0xA0 \<le> x \<and> x \<le> 0xBF else if b = 0xED then 0x80 \<le> x \<and> x \<le> 0x9F
      else is_cont x)"

definition second4_ok :: "u8 \<Rightarrow> u8 \<Rightarrow> bool" where
  "second4_ok b x \<longleftrightarrow>
     (if b = 0xF0 then 0x90 \<le> x \<and> x \<le> 0xBF else if b = 0xF4 then 0x80 \<le> x \<and> x \<le> 0x8F
      else is_cont x)"

definition utf8_step :: "u8 \<Rightarrow> bytes \<Rightarrow> nat \<times> bool" where
  "utf8_step b bs =
     (if b < 0x80 then (0, True)
      else if 0xC2 \<le> b \<and> b \<le> 0xDF then
        (if is_cont (safe_get bs 0) then (1, True) else (0, False))
      else if 0xE0 \<le> b \<and> b \<le> 0xEF then
        (if \<not> second3_ok b (safe_get bs 0) then (0, False)
         else if is_cont (safe_get bs 1) then (2, True) else (1, False))
      else if 0xF0 \<le> b \<and> b \<le> 0xF4 then
        (if \<not> second4_ok b (safe_get bs 0) then (0, False)
         else if \<not> is_cont (safe_get bs 1) then (1, False)
         else if is_cont (safe_get bs 2) then (3, True) else (2, False))
      else (0, False))"

function utf8_lossy :: "bytes \<Rightarrow> bytes" where
  "utf8_lossy [] = []"
| "utf8_lossy (b # bs) =
     (let (n, ok) = utf8_step b bs in
      (if ok then b # take n bs else [0xEF, 0xBF, 0xBD]) @ utf8_lossy (drop n bs))"
  by pat_completeness auto
termination by (relation "measure length") auto

text \<open>The validity that every Rust \<open>str\<close> has.\<close>

function utf8_valid :: "bytes \<Rightarrow> bool" where
  "utf8_valid [] = True"
| "utf8_valid (b # bs) =
     (let (n, ok) = utf8_step b bs in ok \<and> utf8_valid (drop n bs))"
  by pat_completeness auto
termination by (relation "measure length") auto

fun fixed_len :: "bytes \<Rightarrow> nat" where
  "fixed_len [] = 0"
| "fixed_len (b # bs) = (if b = 0 then 0 else Suc (fixed_len bs))"

definition read_fixed_str :: "bytes \<Rightarrow> string" where
  "read_fixed_str arr = from_bytes (utf8_lossy (take (fixed_len arr) arr))"

definition write_fixed_str :: "string \<Rightarrow> nat \<Rightarrow> bytes" where
  "write_fixed_str s max_len =
     (let bs = as_bytes s; copy_len = min (length bs) (max_len - 1)
      in take copy_len bs @ [0] @ replicate (max_len - copy_len - 1) 0)"

section \<open>State\<close>

definition REG_MAGIC :: bytes where "REG_MAGIC = map of_char (''XREG_ZC'' @ [CHR 0x00])"
definition REG_VERSION :: u32 where "REG_VERSION = 1"
definition REG_HEADER_SIZE :: nat where "REG_HEADER_SIZE = 64"
definition REG_ENTRY_SIZE :: nat where "REG_ENTRY_SIZE = 128"
definition REG_MAX_ENTRIES :: nat where "REG_MAX_ENTRIES = 256"
definition REG_TOTAL_SIZE :: nat where
  "REG_TOTAL_SIZE = REG_HEADER_SIZE + REG_MAX_ENTRIES * REG_ENTRY_SIZE"
definition RE_REGION_NAME_MAX :: nat where "RE_REGION_NAME_MAX = 48"
definition RE_TOPIC_URI_MAX :: nat where "RE_TOPIC_URI_MAX = 64"
definition RE_STATE_FREE :: u32 where "RE_STATE_FREE = 0"
definition RE_STATE_ACTIVE :: u32 where "RE_STATE_ACTIVE = 1"

record reg_entry =
  reg_active :: u32
  reg_pid :: u32
  reg_timestamp :: u64
  reg_region_name :: bytes
  reg_topic_uri :: bytes

record registry =
  reg_magic :: bytes
  reg_version :: u32
  entry_count :: u32
  reg_max_entries :: u32
  entries :: "reg_entry list"

record discovered_topic =
  dt_region :: string
  dt_uri :: string
  dt_pid :: u32
  dt_timestamp_us :: u64

definition zero_entry :: reg_entry where
  "zero_entry = \<lparr>reg_active = 0, reg_pid = 0, reg_timestamp = 0,
     reg_region_name = replicate 48 0, reg_topic_uri = replicate 64 0\<rparr>"

text \<open>
  What opening the file yields: an I/O error, or the file's length and the registry its first
  \<open>REG_TOTAL_SIZE\<close> bytes hold.  Creating it truncates, so the contents are zero.
\<close>

definition try_open_existing :: "(nat \<times> registry) result \<Rightarrow> registry result" where
  "try_open_existing file =
     (case file of
        Inl e \<Rightarrow> Inl e
      | Inr (len, reg) \<Rightarrow>
          if len < REG_TOTAL_SIZE then Inl (InvalidRegion ''registry file too small'')
          else if reg_magic reg \<noteq> REG_MAGIC then Inl (InvalidRegion ''registry: invalid magic'')
          else if reg_version reg \<noteq> REG_VERSION then Inl (InvalidRegion ''registry: unsupported version'')
          else Inr reg)"

definition fresh_registry :: registry where
  "fresh_registry = \<lparr>reg_magic = REG_MAGIC, reg_version = REG_VERSION, entry_count = 0,
     reg_max_entries = of_nat REG_MAX_ENTRIES, entries = replicate REG_MAX_ENTRIES zero_entry\<rparr>"

definition create_new :: "unit result \<Rightarrow> registry result" where
  "create_new created = (case created of Inl e \<Rightarrow> Inl e | Inr () \<Rightarrow> Inr fresh_registry)"

definition open_at :: "(nat \<times> registry) result \<Rightarrow> unit result \<Rightarrow> registry result" where
  "open_at file created =
     (case try_open_existing file of Inr existing \<Rightarrow> Inr existing | Inl _ \<Rightarrow> create_new created)"

definition registry_path :: "string option \<Rightarrow> target_os \<Rightarrow> string \<Rightarrow> string" where
  "registry_path env os temp_dir =
     (case env of
        Some p \<Rightarrow> p
      | None \<Rightarrow>
          if os = Linux then ''/dev/shm/crossbar-registry''
          else if os = Windows then path_join os temp_dir ''crossbar-registry''
          else ''/tmp/crossbar-shm-registry'')"

section \<open>Operations\<close>

text \<open>\<open>now_micros\<close> of this module is the clock itself: \<open>None\<close> before the epoch.\<close>

fun register_update :: "string \<Rightarrow> string \<Rightarrow> u32 \<Rightarrow> u64 \<Rightarrow> reg_entry list \<Rightarrow> reg_entry list option" where
  "register_update rname uri pid ts [] = None"
| "register_update rname uri pid ts (e # es) =
     (if reg_active e = RE_STATE_ACTIVE \<and> reg_pid e = pid \<and>
         read_fixed_str (reg_region_name e) = rname \<and> read_fixed_str (reg_topic_uri e) = uri
      then Some (e\<lparr>reg_timestamp := ts\<rparr> # es)
      else map_option ((#) e) (register_update rname uri pid ts es))"

fun register_claim :: "string \<Rightarrow> string \<Rightarrow> u32 \<Rightarrow> u64 \<Rightarrow> reg_entry list \<Rightarrow> reg_entry list option" where
  "register_claim rname uri pid ts [] = None"
| "register_claim rname uri pid ts (e # es) =
     (if reg_active e = RE_STATE_FREE
      then Some (e\<lparr>reg_active := RE_STATE_ACTIVE, reg_pid := pid, reg_timestamp := ts,
          reg_region_name := write_fixed_str rname RE_REGION_NAME_MAX,
          reg_topic_uri := write_fixed_str uri RE_TOPIC_URI_MAX\<rparr> # es)
      else map_option ((#) e) (register_claim rname uri pid ts es))"

definition registry_register :: "clock \<Rightarrow> string \<Rightarrow> string \<Rightarrow> u32 \<Rightarrow> registry \<Rightarrow> registry" where
  "registry_register clk rname uri pid reg =
     (if length rname \<ge> RE_REGION_NAME_MAX \<or> length uri \<ge> RE_TOPIC_URI_MAX then reg
      else
        let ts = (case clk of None \<Rightarrow> 0 | Some t \<Rightarrow> t) in
        case register_update rname uri pid ts (entries reg) of
          Some es \<Rightarrow> reg\<lparr>entries := es\<rparr>
        | None \<Rightarrow>
            (case register_claim rname uri pid ts (entries reg) of
               Some es \<Rightarrow> reg\<lparr>entries := es, entry_count := entry_count reg + 1\<rparr>
             | None \<Rightarrow> reg))"

text \<open>\<open>fetch_sub(1)\<close>, clamped to zero when it wrapped.\<close>

definition dec_entry_count :: "u32 \<Rightarrow> u32" where
  "dec_entry_count prev = (if prev = 0 then 0 else prev - 1)"

fun unregister_loop :: "string \<Rightarrow> u32 \<Rightarrow> u32 \<Rightarrow> reg_entry list \<Rightarrow> u32 \<times> reg_entry list" where
  "unregister_loop rname pid cnt [] = (cnt, [])"
| "unregister_loop rname pid cnt (e # es) =
     (if reg_active e \<noteq> RE_STATE_ACTIVE \<or> reg_pid e \<noteq> pid \<or> read_fixed_str (reg_region_name e) \<noteq> rname
      then let (cnt', es') = unregister_loop rname pid cnt es in (cnt', e # es')
      else let (cnt', es') = unregister_loop rname pid (dec_entry_count cnt) es
        in (cnt', e\<lparr>reg_active := RE_STATE_FREE\<rparr> # es'))"

definition unregister :: "string \<Rightarrow> u32 \<Rightarrow> registry \<Rightarrow> registry" where
  "unregister rname pid reg =
     (let (cnt, es) = unregister_loop rname pid (entry_count reg) (entries reg)
      in reg\<lparr>entries := es, entry_count := cnt\<rparr>)"

definition strip_suffix_star :: "string \<Rightarrow> string option" where
  "strip_suffix_star pat = (if pat \<noteq> [] \<and> last pat = CHR ''*'' then Some (butlast pat) else None)"

definition uri_matches :: "string \<Rightarrow> string \<Rightarrow> bool" where
  "uri_matches pat uri =
     (case strip_suffix_star pat of
        Some prefix \<Rightarrow> take (length prefix) uri = prefix
      | None \<Rightarrow> uri = pat)"

fun discover_loop :: "string \<Rightarrow> reg_entry list \<Rightarrow> discovered_topic list" where
  "discover_loop pat [] = []"
| "discover_loop pat (e # es) =
     (if reg_active e \<noteq> RE_STATE_ACTIVE then discover_loop pat es
      else let uri = read_fixed_str (reg_topic_uri e) in
        if uri_matches pat uri
        then \<lparr>dt_region = read_fixed_str (reg_region_name e), dt_uri = uri, dt_pid = reg_pid e,
              dt_timestamp_us = reg_timestamp e\<rparr> # discover_loop pat es
        else discover_loop pat es)"

definition discover :: "string \<Rightarrow> registry \<Rightarrow> discovered_topic list" where
  "discover pat reg = discover_loop pat (entries reg)"

fun discover_since_loop :: "string \<Rightarrow> u64 \<Rightarrow> reg_entry list \<Rightarrow> discovered_topic list" where
  "discover_since_loop pat since_us [] = []"
| "discover_since_loop pat since_us (e # es) =
     (if reg_active e \<noteq> RE_STATE_ACTIVE then discover_since_loop pat since_us es
      else if reg_timestamp e \<le> since_us then discover_since_loop pat since_us es
      else let uri = read_fixed_str (reg_topic_uri e) in
        if uri_matches pat uri
        then \<lparr>dt_region = read_fixed_str (reg_region_name e), dt_uri = uri, dt_pid = reg_pid e,
              dt_timestamp_us = reg_timestamp e\<rparr> # discover_since_loop pat since_us es
        else discover_since_loop pat since_us es)"

definition discover_since :: "string \<Rightarrow> u64 \<Rightarrow> registry \<Rightarrow> discovered_topic list" where
  "discover_since pat since_us reg = discover_since_loop pat since_us (entries reg)"

fun prune_loop :: "u64 \<Rightarrow> u32 \<Rightarrow> reg_entry list \<Rightarrow> u32 \<times> reg_entry list" where
  "prune_loop cutoff cnt [] = (cnt, [])"
| "prune_loop cutoff cnt (e # es) =
     (if reg_active e = RE_STATE_ACTIVE \<and> reg_timestamp e < cutoff
      then let (cnt', es') = prune_loop cutoff (dec_entry_count cnt) es
        in (cnt', e\<lparr>reg_active := RE_STATE_FREE\<rparr> # es')
      else let (cnt', es') = prune_loop cutoff cnt es in (cnt', e # es'))"

definition prune_stale :: "duration \<Rightarrow> clock \<Rightarrow> registry \<Rightarrow> registry" where
  "prune_stale timeout clk reg =
     (case clk of
        None \<Rightarrow> reg
      | Some now \<Rightarrow>
          let cutoff = saturating_sub now (of_nat (as_micros timeout));
            (cnt, es) = prune_loop cutoff (entry_count reg) (entries reg)
          in reg\<lparr>entries := es, entry_count := cnt\<rparr>)"

text \<open>The crate's top-level \<open>discover\<close>: open, prune what is older than ten seconds, look up.\<close>

definition lib_discover ::
    "(nat \<times> registry) result \<Rightarrow> unit result \<Rightarrow> clock \<Rightarrow> string \<Rightarrow> discovered_topic list result \<times> registry option" where
  "lib_discover file created clk pat =
     (case open_at file created of
        Inl e \<Rightarrow> (Inl e, None)
      | Inr reg \<Rightarrow>
          let reg' = prune_stale (from_secs 10) clk reg in (Inr (discover pat reg'), Some reg'))"

section \<open>Round trip of fixed-size strings\<close>

lemma unat_of_char [simp]: "unat (of_char ch :: u8) = of_char ch"
proof -
  have "(of_char ch :: u8) = of_nat (of_char ch)" by (simp add: of_nat_of_char)
  then show ?thesis by (simp only: unat_of_nat) simp
qed

lemma of_char_eq_0 [simp]: "(of_char ch :: u8) = 0 \<longleftrightarrow> ch = CHR 0x00"
proof -
  have "(of_char ch :: u8) = 0 \<longleftrightarrow> unat (of_char ch :: u8) = 0" by (simp only: unat_eq_zero)
  also have "\<dots> \<longleftrightarrow> ch = CHR 0x00" by (cases ch) auto
  finally show ?thesis .
qed

lemma from_as_bytes [simp]: "from_bytes (as_bytes s) = s"
  by (simp add: from_bytes_def as_bytes_def comp_def)

lemma length_as_bytes [simp]: "length (as_bytes s) = length s"
  by (simp add: as_bytes_def)

lemma utf8_lossy_valid: "utf8_valid bs \<Longrightarrow> utf8_lossy bs = bs"
  by (induction bs rule: utf8_lossy.induct) (auto split: prod.splits)

lemma fixed_len_append: "0 \<notin> set bs \<Longrightarrow> fixed_len (bs @ 0 # zs) = length bs"
  by (induction bs) auto

lemma read_write_fixed_str:
  assumes "length s < n" "utf8_valid (as_bytes s)" "CHR 0x00 \<notin> set s"
  shows "read_fixed_str (write_fixed_str s n) = s"
proof -
  have "0 \<notin> set (as_bytes s)" using assms(3) by (auto simp: as_bytes_def)
  then have "fixed_len (as_bytes s @ 0 # zs) = length s" for zs
    by (simp add: fixed_len_append)
  then show ?thesis
    using assms(1,2) by (simp add: read_fixed_str_def write_fixed_str_def Let_def min_absorb1 utf8_lossy_valid)
qed

section \<open>The directory of active topics\<close>

definition topic_of :: "reg_entry \<Rightarrow> discovered_topic" where
  "topic_of e = \<lparr>dt_region = read_fixed_str (reg_region_name e), dt_uri = read_fixed_str (reg_topic_uri e),
     dt_pid = reg_pid e, dt_timestamp_us = reg_timestamp e\<rparr>"

definition view :: "reg_entry list \<Rightarrow> discovered_topic list" where
  "view es = map topic_of (filter (\<lambda>e. reg_active e = RE_STATE_ACTIVE) es)"

abbreviation reg_view :: "registry \<Rightarrow> discovered_topic list" where
  "reg_view reg \<equiv> view (entries reg)"

type_synonym topic_key = "string \<times> string \<times> u32"

definition key_of :: "discovered_topic \<Rightarrow> topic_key" where
  "key_of t = (dt_region t, dt_uri t, dt_pid t)"

definition belongs_to :: "string \<Rightarrow> u32 \<Rightarrow> discovered_topic \<Rightarrow> bool" where
  "belongs_to rname pid t \<longleftrightarrow> dt_region t = rname \<and> dt_pid t = pid"

definition reg_wf :: "registry \<Rightarrow> bool" where
  "reg_wf reg \<longleftrightarrow> length (entries reg) = REG_MAX_ENTRIES \<and>
     (\<forall>e \<in> set (entries reg). reg_active e = RE_STATE_FREE \<or> reg_active e = RE_STATE_ACTIVE) \<and>
     unat (entry_count reg) = length (reg_view reg) \<and> distinct (map key_of (reg_view reg))"

definition str_fits :: "nat \<Rightarrow> string \<Rightarrow> bool" where
  "str_fits n s \<longleftrightarrow> length s < n \<and> utf8_valid (as_bytes s) \<and> CHR 0x00 \<notin> set s"

definition topic_fits :: "discovered_topic \<Rightarrow> bool" where
  "topic_fits t \<longleftrightarrow> str_fits RE_REGION_NAME_MAX (dt_region t) \<and> str_fits RE_TOPIC_URI_MAX (dt_uri t)"

lemma view_simps [simp]:
  "view [] = []"
  "view (e # es) = (if reg_active e = RE_STATE_ACTIVE then topic_of e # view es else view es)"
  by (simp_all add: view_def)

lemma topic_of_simps [simp]:
  "dt_region (topic_of e) = read_fixed_str (reg_region_name e)"
  "dt_uri (topic_of e) = read_fixed_str (reg_topic_uri e)"
  "dt_pid (topic_of e) = reg_pid e" "dt_timestamp_us (topic_of e) = reg_timestamp e"
  by (simp_all add: topic_of_def)

lemma state_consts_distinct [simp]: "RE_STATE_FREE \<noteq> RE_STATE_ACTIVE" "RE_STATE_ACTIVE \<noteq> RE_STATE_FREE"
  by (simp_all add: RE_STATE_FREE_def RE_STATE_ACTIVE_def)

lemma topic_of_free [simp]: "topic_of (e\<lparr>reg_active := a\<rparr>) = topic_of e"
  by (simp add: topic_of_def)

lemma topic_eqI: "key_of t = key_of u \<Longrightarrow> dt_timestamp_us t = dt_timestamp_us u \<Longrightarrow> t = u"
  by (cases t, cases u) (simp add: key_of_def)

lemma length_view_le: "length (view es) \<le> length es"
  by (simp add: view_def le_trans [OF length_filter_le])

subsection \<open>Lookups filter the directory\<close>

lemma discover_view: "discover pat reg = filter (\<lambda>t. uri_matches pat (dt_uri t)) (reg_view reg)"
proof -
  have "discover_loop pat es = filter (\<lambda>t. uri_matches pat (dt_uri t)) (view es)" for es
    by (induction es) (simp_all add: Let_def topic_of_def)
  then show ?thesis by (simp add: discover_def)
qed

lemma discover_since_view:
  "discover_since pat since reg =
     filter (\<lambda>t. uri_matches pat (dt_uri t) \<and> since < dt_timestamp_us t) (reg_view reg)"
proof -
  have "discover_since_loop pat since es =
      filter (\<lambda>t. uri_matches pat (dt_uri t) \<and> since < dt_timestamp_us t) (view es)" for es
    by (induction es) (auto simp: Let_def topic_of_def not_le)
  then show ?thesis by (simp add: discover_since_def)
qed

subsection \<open>Removal\<close>

lemma unregister_loop_view:
  "view (snd (unregister_loop rname pid cnt es)) =
     filter (\<lambda>t. \<not> belongs_to rname pid t) (view es)"
  by (induction es arbitrary: cnt) (auto simp: belongs_to_def Let_def case_prod_unfold)

lemma prune_loop_view:
  "view (snd (prune_loop cutoff cnt es)) = filter (\<lambda>t. \<not> dt_timestamp_us t < cutoff) (view es)"
  by (induction es arbitrary: cnt) (auto simp: Let_def case_prod_unfold)

lemma unat_dec: "0 < unat (cnt :: u32) \<Longrightarrow> unat (dec_entry_count cnt) = unat cnt - 1"
  by (auto simp: dec_entry_count_def unat_minus_one)

lemma unregister_loop_count:
  "length (view es) \<le> unat cnt \<Longrightarrow>
   unat (fst (unregister_loop rname pid cnt es)) + length (view es) =
     unat cnt + length (view (snd (unregister_loop rname pid cnt es)))"
proof (induction es arbitrary: cnt)
  case (Cons e es)
  show ?case
  proof (cases "reg_active e = RE_STATE_ACTIVE \<and> reg_pid e = pid \<and> read_fixed_str (reg_region_name e) = rname")
    case True
    then have "unat (dec_entry_count cnt) = unat cnt - 1" "0 < unat cnt"
      using Cons.prems by (simp_all add: unat_dec)
    with True Cons.IH [of "dec_entry_count cnt"] Cons.prems show ?thesis
      by (simp add: Let_def case_prod_unfold)
  next
    case False
    then have "unregister_loop rname pid cnt (e # es) = (fst (unregister_loop rname pid cnt es), e # snd (unregister_loop rname pid cnt es))"
      by (simp add: Let_def case_prod_unfold)
    with Cons.IH [of cnt] Cons.prems show ?thesis by (simp split: if_splits)
  qed
qed simp

lemma prune_loop_count:
  "length (view es) \<le> unat cnt \<Longrightarrow>
   unat (fst (prune_loop cutoff cnt es)) + length (view es) =
     unat cnt + length (view (snd (prune_loop cutoff cnt es)))"
proof (induction es arbitrary: cnt)
  case (Cons e es)
  show ?case
  proof (cases "reg_active e = RE_STATE_ACTIVE \<and> reg_timestamp e < cutoff")
    case True
    then have "unat (dec_entry_count cnt) = unat cnt - 1" "0 < unat cnt"
      using Cons.prems by (simp_all add: unat_dec)
    with True Cons.IH [of "dec_entry_count cnt"] Cons.prems show ?thesis
      by (simp add: Let_def case_prod_unfold)
  next
    case False
    then have "prune_loop cutoff cnt (e # es) = (fst (prune_loop cutoff cnt es), e # snd (prune_loop cutoff cnt es))"
      by (auto simp: Let_def case_prod_unfold)
    with Cons.IH [of cnt] Cons.prems show ?thesis by (simp split: if_splits)
  qed
qed simp

subsection \<open>Registration\<close>

abbreviation set_ts :: "topic_key \<Rightarrow> u64 \<Rightarrow> discovered_topic \<Rightarrow> discovered_topic" where
  "set_ts k ts t \<equiv> (if key_of t = k then t\<lparr>dt_timestamp_us := ts\<rparr> else t)"

lemma register_update_None:
  "register_update rname uri pid ts es = None \<longleftrightarrow> (rname, uri, pid) \<notin> key_of ` set (view es)"
  by (induction es) (auto simp: key_of_def)

lemma register_update_Some:
  "register_update rname uri pid ts es = Some es' \<Longrightarrow> distinct (map key_of (view es)) \<Longrightarrow>
   view es' = map (set_ts (rname, uri, pid) ts) (view es) \<and> map reg_active es' = map reg_active es"
proof (induction es arbitrary: es')
  case (Cons e es)
  let ?k = "(rname, uri, pid)"
  show ?case
  proof (cases "reg_active e = RE_STATE_ACTIVE \<and> key_of (topic_of e) = ?k")
    case True
    then have "?k \<notin> key_of ` set (view es)" using Cons.prems(2) by (simp add: image_iff)
    then have "map (set_ts ?k ts) (view es) = view es" by (intro map_idI) (auto simp: image_iff)
    with True Cons.prems(1) show ?thesis by (auto simp: key_of_def topic_of_def)
  next
    case False
    then obtain es'' where "register_update rname uri pid ts es = Some es''" "es' = e # es''"
      using Cons.prems(1) by (auto simp: key_of_def split: if_splits)
    with False Cons.IH [of es''] Cons.prems(2) show ?thesis by (auto split: if_splits)
  qed
qed simp

lemma register_claim_None:
  "\<forall>e \<in> set es. reg_active e = RE_STATE_FREE \<or> reg_active e = RE_STATE_ACTIVE \<Longrightarrow>
   register_claim rname uri pid ts es = None \<longleftrightarrow> length (view es) = length es"
proof (induction es)
  case (Cons e es)
  with length_view_le [of es] show ?case by auto
qed simp

lemma register_claim_Some:
  assumes "str_fits RE_REGION_NAME_MAX rname" "str_fits RE_TOPIC_URI_MAX uri"
  shows "register_claim rname uri pid ts es = Some es' \<Longrightarrow>
    (\<exists>xs ys. view es = xs @ ys \<and> length es' = length es \<and> length (view es) < length es \<and>
      view es' = xs @ \<lparr>dt_region = rname, dt_uri = uri, dt_pid = pid, dt_timestamp_us = ts\<rparr> # ys) \<and>
    (\<forall>e \<in> set es'. e \<in> set es \<or> reg_active e = RE_STATE_ACTIVE)"
proof (induction es arbitrary: es')
  case (Cons e es)
  show ?case
  proof (cases "reg_active e = RE_STATE_FREE")
    case True
    with Cons.prems assms length_view_le [of es] show ?thesis
      by (auto simp: str_fits_def topic_of_def read_write_fixed_str less_Suc_eq_le
          intro: exI [of _ "[]"])
  next
    case False
    then obtain es'' where e: "register_claim rname uri pid ts es = Some es''" "es' = e # es''"
      using Cons.prems by auto
    from Cons.IH [OF e(1)] obtain xs ys where "view es = xs @ ys" "length es'' = length es"
      "length (view es) < length es"
      "view es'' = xs @ \<lparr>dt_region = rname, dt_uri = uri, dt_pid = pid, dt_timestamp_us = ts\<rparr> # ys"
      "\<forall>e \<in> set es''. e \<in> set es \<or> reg_active e = RE_STATE_ACTIVE" by blast
    then show ?thesis
      by (cases "reg_active e = RE_STATE_ACTIVE")
        (simp_all add: e(2), metis append_Cons, blast)
  qed
qed simp

text \<open>
  On a well-formed registry, registering a topic replaces the entry of its key or, if there
  is none and a slot is free, adds one; when all slots are taken nothing changes.
\<close>

abbreviation register_topic :: "discovered_topic \<Rightarrow> registry \<Rightarrow> registry" where
  "register_topic t \<equiv> registry_register (Some (dt_timestamp_us t)) (dt_region t) (dt_uri t) (dt_pid t)"

definition put_topic :: "discovered_topic \<Rightarrow> discovered_topic multiset \<Rightarrow> discovered_topic multiset" where
  "put_topic t M =
     (if key_of t \<in> key_of ` set_mset M \<or> size M < REG_MAX_ENTRIES
      then add_mset t (filter_mset (\<lambda>u. key_of u \<noteq> key_of t) M) else M)"

lemma filter_other_keys:
  "k \<notin> key_of ` set ts \<Longrightarrow> filter_mset (\<lambda>u. key_of u \<noteq> k) (mset ts) = mset ts"
  by (induction ts) auto

lemma mset_set_ts:
  assumes "distinct (map key_of ts)" "key_of t \<in> key_of ` set ts"
  shows "mset (map (set_ts (key_of t) (dt_timestamp_us t)) ts) =
    add_mset t (filter_mset (\<lambda>u. key_of u \<noteq> key_of t) (mset ts))"
  using assms
proof (induction ts)
  case (Cons u ts)
  show ?case
  proof (cases "key_of u = key_of t")
    case True
    then have n: "key_of t \<notin> key_of ` set ts" using Cons.prems(1) by auto
    then have "map (set_ts (key_of t) (dt_timestamp_us t)) ts = ts"
      by (intro map_idI) (auto simp: image_iff)
    moreover have "filter_mset (\<lambda>u. key_of u \<noteq> key_of t) (mset ts) = mset ts"
      using n by (rule filter_other_keys)
    moreover have "u\<lparr>dt_timestamp_us := dt_timestamp_us t\<rparr> = t"
      by (rule topic_eqI) (use True in \<open>simp_all add: key_of_def\<close>)
    ultimately show ?thesis using True by simp
  next
    case False
    with Cons show ?thesis by auto
  qed
qed simp

lemma register_topic_cases:
  assumes wf: "reg_wf reg" and fits: "topic_fits t"
  obtains (upd) es where "register_topic t reg = reg\<lparr>entries := es\<rparr>"
      "view es = map (set_ts (key_of t) (dt_timestamp_us t)) (reg_view reg)"
      "map reg_active es = map reg_active (entries reg)" "key_of t \<in> key_of ` set (reg_view reg)"
  | (add) es xs ys where "register_topic t reg = reg\<lparr>entries := es, entry_count := entry_count reg + 1\<rparr>"
      "reg_view reg = xs @ ys" "view es = xs @ t # ys" "length (reg_view reg) < REG_MAX_ENTRIES"
      "length es = REG_MAX_ENTRIES" "key_of t \<notin> key_of ` set (reg_view reg)"
      "\<forall>e \<in> set es. e \<in> set (entries reg) \<or> reg_active e = RE_STATE_ACTIVE"
  | (full) "register_topic t reg = reg" "length (reg_view reg) = REG_MAX_ENTRIES"
      "key_of t \<notin> key_of ` set (reg_view reg)"
proof -
  have lens: "\<not> (RE_REGION_NAME_MAX \<le> length (dt_region t) \<or> RE_TOPIC_URI_MAX \<le> length (dt_uri t))"
    using fits by (simp add: topic_fits_def str_fits_def)
  have ts: "\<lparr>dt_region = dt_region t, dt_uri = dt_uri t, dt_pid = dt_pid t, dt_timestamp_us = dt_timestamp_us t\<rparr> = t"
    by simp
  let ?u = "register_update (dt_region t) (dt_uri t) (dt_pid t) (dt_timestamp_us t) (entries reg)"
  let ?cl = "register_claim (dt_region t) (dt_uri t) (dt_pid t) (dt_timestamp_us t) (entries reg)"
  note reg_def = registry_register_def [of "Some (dt_timestamp_us t)" "dt_region t" "dt_uri t" "dt_pid t" reg]
  have known: "?u = None \<longleftrightarrow> key_of t \<notin> key_of ` set (reg_view reg)"
    unfolding register_update_None key_of_def [of t] ..
  consider (u) es where "?u = Some es" | (c) es where "?u = None" "?cl = Some es" | (n) "?u = None" "?cl = None"
    by (cases ?u; cases ?cl) auto
  then show thesis
  proof cases
    case u
    have "view es = map (set_ts (key_of t) (dt_timestamp_us t)) (reg_view reg)"
      "map reg_active es = map reg_active (entries reg)"
      using register_update_Some [OF u] wf by (simp_all add: reg_wf_def key_of_def)
    moreover have "register_topic t reg = reg\<lparr>entries := es\<rparr>" using lens u by (simp add: reg_def)
    ultimately show thesis using upd known u by simp
  next
    case c
    from register_claim_Some [OF _ _ c(2)] fits obtain xs ys where
      "reg_view reg = xs @ ys" "length es = length (entries reg)" "length (reg_view reg) < length (entries reg)"
      "view es = xs @ t # ys" "\<forall>e \<in> set es. e \<in> set (entries reg) \<or> reg_active e = RE_STATE_ACTIVE"
      unfolding ts topic_fits_def by blast
    moreover have "register_topic t reg = reg\<lparr>entries := es, entry_count := entry_count reg + 1\<rparr>"
      using lens c by (simp add: reg_def)
    moreover have "length (entries reg) = REG_MAX_ENTRIES" using wf by (simp add: reg_wf_def)
    ultimately show thesis using add [of es xs ys] known c(1) by metis
  next
    case n
    have "register_topic t reg = reg" using lens n by (simp add: reg_def)
    moreover have "length (reg_view reg) = REG_MAX_ENTRIES"
      using n(2) wf register_claim_None [of "entries reg"] by (simp add: reg_wf_def)
    ultimately show thesis using full known n(1) by blast
  qed
qed

lemma register_topic_view:
  assumes "reg_wf reg" "topic_fits t"
  shows "mset (reg_view (register_topic t reg)) = put_topic t (mset (reg_view reg))"
  using assms
proof (cases rule: register_topic_cases)
  case (upd es)
  then have "mset (reg_view (register_topic t reg)) =
      mset (map (set_ts (key_of t) (dt_timestamp_us t)) (reg_view reg))" by simp
  also have "\<dots> = add_mset t (filter_mset (\<lambda>u. key_of u \<noteq> key_of t) (mset (reg_view reg)))"
    using assms(1) upd(4) by (intro mset_set_ts) (simp_all add: reg_wf_def)
  finally show ?thesis using upd(4) by (simp add: put_topic_def)
next
  case (add es xs ys)
  then have "put_topic t (mset (reg_view reg)) = add_mset t (mset (reg_view reg))"
    using filter_other_keys [OF add(6)] by (simp only: put_topic_def size_mset if_True simp_thms)
  with add(1,2,3) show ?thesis by simp
next
  case full
  then show ?thesis by (simp add: put_topic_def)
qed

section \<open>The invariant\<close>

lemma states_map:
  assumes "map reg_active es = map reg_active es'"
  shows "(\<forall>e \<in> set es. P (reg_active e)) \<longleftrightarrow> (\<forall>e \<in> set es'. P (reg_active e))"
proof -
  have "(\<forall>x \<in> set (map reg_active es). P x) \<longleftrightarrow> (\<forall>x \<in> set (map reg_active es'). P x)"
    by (simp only: assms)
  then show ?thesis by simp
qed

lemma reg_wfI:
  assumes "entries r = es" "entry_count r = n" "length es = REG_MAX_ENTRIES"
    "\<forall>e \<in> set es. reg_active e = RE_STATE_FREE \<or> reg_active e = RE_STATE_ACTIVE"
    "unat n = length (view es)" "distinct (map key_of (view es))"
  shows "reg_wf r"
  using assms by (simp add: reg_wf_def)

lemma reg_wfD:
  assumes "reg_wf r"
  shows "length (entries r) = REG_MAX_ENTRIES"
    "\<forall>e \<in> set (entries r). reg_active e = RE_STATE_FREE \<or> reg_active e = RE_STATE_ACTIVE"
    "unat (entry_count r) = length (reg_view r)" "distinct (map key_of (reg_view r))"
  using assms by (simp_all add: reg_wf_def)

lemma register_topic_wf:
  assumes "reg_wf reg" "topic_fits t"
  shows "reg_wf (register_topic t reg)"
  using assms
proof (cases rule: register_topic_cases)
  case (upd es)
  have keys: "map key_of (view es) = map key_of (reg_view reg)"
    unfolding upd(2) by (simp add: key_of_def)
  show ?thesis
  proof (rule reg_wfI)
    show "entries (register_topic t reg) = es" "entry_count (register_topic t reg) = entry_count reg"
      using upd(1) by simp_all
    show "length es = REG_MAX_ENTRIES"
      using upd(3) reg_wfD(1) [OF assms(1)] by (metis length_map)
    show "\<forall>e \<in> set es. reg_active e = RE_STATE_FREE \<or> reg_active e = RE_STATE_ACTIVE"
      using reg_wfD(2) [OF assms(1)]
        states_map [OF upd(3), of "\<lambda>a. a = RE_STATE_FREE \<or> a = RE_STATE_ACTIVE"] by blast
    show "unat (entry_count reg) = length (view es)"
      unfolding upd(2) length_map by (rule reg_wfD(3) [OF assms(1)])
    show "distinct (map key_of (view es))"
      unfolding keys by (rule reg_wfD(4) [OF assms(1)])
  qed
next
  case (add es xs ys)
  show ?thesis
  proof (rule reg_wfI)
    show "entries (register_topic t reg) = es" "entry_count (register_topic t reg) = entry_count reg + 1"
      using add(1) by simp_all
    show "length es = REG_MAX_ENTRIES" by (rule add(5))
    show "\<forall>e \<in> set es. reg_active e = RE_STATE_FREE \<or> reg_active e = RE_STATE_ACTIVE"
      using reg_wfD(2) [OF assms(1)] add(7) by blast
    show "unat (entry_count reg + 1) = length (view es)"
      using reg_wfD(3) [OF assms(1)] add(2,3,4) by (simp add: unat_word_ariths REG_MAX_ENTRIES_def)
    show "distinct (map key_of (view es))"
      using reg_wfD(4) [OF assms(1)] add(6) unfolding add(2,3) by auto
  qed
next
  case full
  with assms show ?thesis by simp
qed

lemma unregister_loop_states:
  "length (snd (unregister_loop rname pid cnt es)) = length es \<and>
   (\<forall>e \<in> set (snd (unregister_loop rname pid cnt es)). e \<in> set es \<or> reg_active e = RE_STATE_FREE)"
  by (induction es arbitrary: cnt) (auto simp: Let_def case_prod_unfold)

lemma prune_loop_states:
  "length (snd (prune_loop cutoff cnt es)) = length es \<and>
   (\<forall>e \<in> set (snd (prune_loop cutoff cnt es)). e \<in> set es \<or> reg_active e = RE_STATE_FREE)"
  by (induction es arbitrary: cnt) (auto simp: Let_def case_prod_unfold)

lemma reg_wf_filtered:
  assumes "reg_wf reg" "length es = length (entries reg)"
    and "\<forall>e \<in> set es. e \<in> set (entries reg) \<or> reg_active e = RE_STATE_FREE"
    and "view es = filter P (reg_view reg)"
    and "unat cnt + length (reg_view reg) = unat (entry_count reg) + length (view es)"
  shows "reg_wf (reg\<lparr>entries := es, entry_count := cnt\<rparr>)"
proof (rule reg_wfI)
  show "length es = REG_MAX_ENTRIES" using assms(2) reg_wfD(1) [OF assms(1)] by simp
  show "\<forall>e \<in> set es. reg_active e = RE_STATE_FREE \<or> reg_active e = RE_STATE_ACTIVE"
    using assms(3) reg_wfD(2) [OF assms(1)] by blast
  show "unat cnt = length (view es)" using assms(5) reg_wfD(3) [OF assms(1)] by simp
  show "distinct (map key_of (view es))"
    unfolding assms(4) by (rule distinct_map_filter) (rule reg_wfD(4) [OF assms(1)])
qed simp_all

lemma unregister_wf:
  assumes wf: "reg_wf reg"
  shows "reg_wf (unregister rname pid reg)"
  unfolding unregister_def Let_def case_prod_unfold
proof (rule reg_wf_filtered [OF wf])
  have "length (reg_view reg) \<le> unat (entry_count reg)" using reg_wfD(3) [OF wf] by simp
  then show "unat (fst (unregister_loop rname pid (entry_count reg) (entries reg))) + length (reg_view reg) =
      unat (entry_count reg) + length (view (snd (unregister_loop rname pid (entry_count reg) (entries reg))))"
    by (rule unregister_loop_count)
qed (simp_all add: unregister_loop_states, rule unregister_loop_view)

lemma unregister_view:
  "reg_view (unregister rname pid reg) = filter (\<lambda>t. \<not> belongs_to rname pid t) (reg_view reg)"
  by (simp add: unregister_def Let_def case_prod_unfold unregister_loop_view)

lemma prune_stale_wf:
  assumes wf: "reg_wf reg"
  shows "reg_wf (prune_stale d clk reg)"
proof (cases clk)
  case (Some now)
  show ?thesis
    unfolding prune_stale_def Let_def case_prod_unfold Some option.case
  proof (rule reg_wf_filtered [OF wf])
    let ?l = "prune_loop (saturating_sub now (of_nat (as_micros d))) (entry_count reg) (entries reg)"
    have "length (reg_view reg) \<le> unat (entry_count reg)" using reg_wfD(3) [OF wf] by simp
    then show "unat (fst ?l) + length (reg_view reg) = unat (entry_count reg) + length (view (snd ?l))"
      by (rule prune_loop_count)
  qed (simp_all add: prune_loop_states, rule prune_loop_view)
qed (simp add: prune_stale_def wf)

lemma prune_stale_view:
  assumes "as_micros d < 2 ^ 64"
  shows "reg_view (prune_stale d (Some now) reg) =
    filter (\<lambda>t. unat now \<le> unat (dt_timestamp_us t) + as_micros d) (reg_view reg)"
proof -
  have "unat (of_nat (as_micros d) :: u64) = as_micros d" using assms by (simp add: unat_of_nat)
  then have "\<not> ts < saturating_sub now (of_nat (as_micros d)) \<longleftrightarrow> unat now \<le> unat ts + as_micros d" for ts
    by (auto simp: word_less_nat_alt saturating_sub_nat)
  then show ?thesis
    by (simp add: prune_stale_def Let_def case_prod_unfold prune_loop_view)
qed

lemma fresh_registry_wf: "reg_wf fresh_registry" and fresh_registry_view: "reg_view fresh_registry = []"
proof -
  have e: "entries fresh_registry = replicate REG_MAX_ENTRIES zero_entry" "entry_count fresh_registry = 0"
    by (simp_all only: fresh_registry_def registry.simps)
  have z: "reg_active zero_entry = RE_STATE_FREE" by (simp add: zero_entry_def RE_STATE_FREE_def)
  then have "view (replicate n zero_entry) = []" for n by (induction n) simp_all
  then show v: "reg_view fresh_registry = []" unfolding e .
  show "reg_wf fresh_registry"
  proof (rule reg_wfI [OF e])
    show "\<forall>e \<in> set (replicate REG_MAX_ENTRIES zero_entry).
        reg_active e = RE_STATE_FREE \<or> reg_active e = RE_STATE_ACTIVE" by (simp add: z)
    show "unat 0 = length (view (replicate REG_MAX_ENTRIES zero_entry))"
      "distinct (map key_of (view (replicate REG_MAX_ENTRIES zero_entry)))"
      using v unfolding e by simp_all
  qed simp
qed

section \<open>The directory contract and its clients\<close>



section \<open>Properties\<close>

text \<open>A concrete topic, for the instances below.\<close>

definition tick_topic :: discovered_topic where
  "tick_topic = \<lparr>dt_region = ''market'', dt_uri = ''/tick/AAPL'', dt_pid = 7, dt_timestamp_us = 1000\<rparr>"

lemma tick_topic_fits: "topic_fits tick_topic"
  by (simp add: topic_fits_def str_fits_def tick_topic_def RE_REGION_NAME_MAX_def RE_TOPIC_URI_MAX_def
      as_bytes_def utf8_step_def word_less_nat_alt word_le_nat_alt)

lemma tick_topic_registered: "mset (reg_view (register_topic tick_topic fresh_registry)) = {#tick_topic#}"
  using register_topic_view [OF fresh_registry_wf tick_topic_fits]
  by (simp add: put_topic_def fresh_registry_view REG_MAX_ENTRIES_def)

lemma tick_topic_view: "reg_view (register_topic tick_topic fresh_registry) = [tick_topic]"
  using tick_topic_registered by simp

text \<open>
  \<^bold>\<open>C10.\<close> The registry refines a directory of topics keyed by (region, URI, pid).  On a
  well-formed registry every operation keeps it well-formed (256 slots, each free or active,
  the header count equal to the number of active slots, no key twice) and acts on the
  directory: registering a topic whose strings fit replaces the topic of its key or adds it
  while a slot is free; unregistering removes exactly the topics of the region and pid;
  pruning removes exactly those whose timestamp is more than the timeout behind the clock;
  the lookups return exactly the matching topics.  A freshly created registry is empty.
\<close>

theorem registry_refines_directory:
  assumes "reg_wf reg"
  shows "(\<forall>t. topic_fits t \<longrightarrow> reg_wf (register_topic t reg) \<and>
       mset (reg_view (register_topic t reg)) = put_topic t (mset (reg_view reg))) \<and>
    (\<forall>n p. reg_wf (unregister n p reg) \<and>
       reg_view (unregister n p reg) = filter (\<lambda>t. \<not> belongs_to n p t) (reg_view reg)) \<and>
    (\<forall>d now. as_micros d < 2 ^ 64 \<longrightarrow> reg_wf (prune_stale d (Some now) reg) \<and>
       reg_view (prune_stale d (Some now) reg) =
         filter (\<lambda>t. unat now \<le> unat (dt_timestamp_us t) + as_micros d) (reg_view reg)) \<and>
    (\<forall>pat. discover pat reg = filter (\<lambda>t. uri_matches pat (dt_uri t)) (reg_view reg)) \<and>
    (\<forall>pat us. discover_since pat us reg =
       filter (\<lambda>t. uri_matches pat (dt_uri t) \<and> us < dt_timestamp_us t) (reg_view reg)) \<and>
    reg_wf fresh_registry \<and> reg_view fresh_registry = []"
  using assms
  by (simp add: register_topic_wf register_topic_view unregister_wf unregister_view prune_stale_wf
      prune_stale_view discover_view discover_since_view fresh_registry_wf fresh_registry_view)

theorem registry_refines_directory_witness:
  "mset (reg_view (register_topic tick_topic fresh_registry)) = {#tick_topic#}"
  using registry_refines_directory [OF fresh_registry_wf] tick_topic_fits
  by (simp add: put_topic_def REG_MAX_ENTRIES_def)



text \<open>
  The strings of a registry entry round-trip: a string that is valid UTF-8, has no null
  byte and is shorter than the array is read back unchanged, and writing always fills the
  array exactly and terminates it.
\<close>

theorem fixed_str_roundtrip:
  assumes "0 < n"
  shows "length (write_fixed_str s n) = n \<and> last (write_fixed_str s n) = 0 \<and>
    (str_fits n s \<longrightarrow> read_fixed_str (write_fixed_str s n) = s)"
  using assms
  by (auto simp: str_fits_def read_write_fixed_str) (simp_all add: write_fixed_str_def Let_def)

theorem fixed_str_roundtrip_witness:
  "read_fixed_str (write_fixed_str ''/tick/AAPL'' 64) = ''/tick/AAPL''"
  using fixed_str_roundtrip [of 64 "''/tick/AAPL''"] tick_topic_fits
  by (simp add: topic_fits_def tick_topic_def RE_TOPIC_URI_MAX_def)

text \<open>
  \<^bold>\<open>C12.\<close> The crate's \<open>discover\<close> drops live publishers.  Its answer, and the registry it leaves
  behind, hold exactly the topics registered at most ten seconds ago.  Registration is the
  only operation that sets a timestamp, so a publisher that keeps its segment's heartbeat
  fresh is still removed once its registration is ten seconds old.
\<close>

theorem discover_prunes_by_registration_age:
  assumes "try_open_existing file = Inr reg"
  shows "\<exists>reg'. lib_discover file created (Some now) pat =
      (Inr (filter (\<lambda>t. uri_matches pat (dt_uri t)) (reg_view reg')), Some reg') \<and>
    reg_view reg' = filter (\<lambda>t. unat now \<le> unat (dt_timestamp_us t) + 10000000) (reg_view reg)"
proof -
  have d: "as_micros (from_secs 10) = 10000000" by (simp add: as_micros_def from_secs_def)
  then have "reg_view (prune_stale (from_secs 10) (Some now) reg) =
      filter (\<lambda>t. unat now \<le> unat (dt_timestamp_us t) + 10000000) (reg_view reg)"
    using prune_stale_view [of "from_secs 10" now reg] by simp
  then show ?thesis
    by (simp add: lib_discover_def open_at_def assms Let_def discover_view)
qed

theorem discover_prunes_by_registration_age_witness:
  "fst (lib_discover (Inr (REG_TOTAL_SIZE, register_topic tick_topic fresh_registry)) (Inr ()) (Some 10001000) ''/tick/*'')
     = Inr [tick_topic] \<and>
   fst (lib_discover (Inr (REG_TOTAL_SIZE, register_topic tick_topic fresh_registry)) (Inr ()) (Some 10001001) ''/tick/*'')
     = Inr []"
proof -
  let ?reg = "register_topic tick_topic fresh_registry"
  have "reg_magic ?reg = REG_MAGIC" "reg_version ?reg = REG_VERSION"
    by (auto simp: registry_register_def Let_def fresh_registry_def split: option.splits)
  then have o: "try_open_existing (Inr (REG_TOTAL_SIZE, ?reg)) = Inr ?reg"
    by (simp add: try_open_existing_def)
  have m: "uri_matches ''/tick/*'' (dt_uri tick_topic)" "dt_timestamp_us tick_topic = 1000"
    by (simp_all add: uri_matches_def strip_suffix_star_def tick_topic_def)
  show ?thesis
    using discover_prunes_by_registration_age [OF o, of "Inr ()" 10001000 "''/tick/*''"]
      discover_prunes_by_registration_age [OF o, of "Inr ()" 10001001 "''/tick/*''"]
    unfolding tick_topic_view by (auto simp: m)
qed

end
