(* ===== verification/Ring.thy ===== *)
theory Ring
  imports Pool
begin

text \<open>
  Publication into a topic's ring (\<open>Region::commit_to_ring\<close> and \<open>Region::commit_pinned\<close> of
  \<open>src/protocol/region.rs\<close>), as the uninterrupted run of one publisher.

  \<open>acct c s I S\<close> is the accounting invariant of the block pool: every block of the pool is
  either idle, and then in exactly one place (the free list or the multiset \<open>I\<close> of blocks held
  privately by handles), or referenced, and then its reference count is the number of ring
  slots that name it plus its occurrences in the multiset \<open>S\<close> of references held by readers.
  Each pool and ring primitive is one move of blocks or references between these places; a
  commit, for instance, moves a block from \<open>I\<close> into the ring, turns the reference of the slot
  it overwrites into one held by the committer, and then drops that one.
\<close>

section \<open>Claiming a slot\<close>

text \<open>
  The slot-claim loop of the multi-publisher path on a slot whose sequence word stays
  \<open>current\<close>: how many times the word is loaded, and the word it leaves.  A slot stuck in
  \<open>SEQ_WRITING\<close> is claimed by force after 1024 retries.
\<close>

function claim_slot :: "nat \<Rightarrow> u64 \<Rightarrow> nat \<times> u64" where
  "claim_slot spins current =
     (if current = SEQ_WRITING then
        (if spins + 1 > 1024 then (1, SEQ_WRITING)
         else let (n, w) = claim_slot (spins + 1) current in (n + 1, w))
      else (1, SEQ_WRITING))"
  by pat_completeness auto
termination by (relation "measure (\<lambda>(spins, _). 1024 - spins)") auto

declare claim_slot.simps [simp del]

section \<open>Commit\<close>

definition ring_slot :: "config \<Rightarrow> u64 \<Rightarrow> u32" where
  "ring_slot c seq = as_u32 (seq AND (as_u64 (ring_depth c) - 1))"

text \<open>Step 7 of a commit: drop the reference of the overwritten slot, recycling its block.\<close>

definition release_old :: "u32 \<Rightarrow> region \<times> shm \<Rightarrow> region \<times> shm" where
  "release_old old rs =
     (let (r, s) = rs; c = rg_config r in
      if old \<noteq> NO_BLOCK \<and> old < block_count c then
        let prev = refcount s old; s' = upd_block old (\<lambda>x. x\<lparr>bk_refcount := prev - 1\<rparr>) s in
        if prev = 1 then
          (let old_recycled = last_freed r; r' = r\<lparr>last_freed := old\<rparr> in
           (r', if old_recycled \<noteq> NO_BLOCK then free_block c old_recycled s' else s'))
        else (r, s')
      else (r, s))"

text \<open>The result says whether \<open>wake_all\<close> was called.\<close>

definition commit_to_ring ::
    "u32 \<Rightarrow> u32 \<Rightarrow> u32 \<Rightarrow> bool \<Rightarrow> bool \<Rightarrow> region \<times> shm \<Rightarrow> bool \<times> region \<times> shm" where
  "commit_to_ring block_idx data_len topic_idx wake single_publisher rs =
     (let (r, s) = rs; c = rg_config r;
        seq = te_write_seq (topics s topic_idx) + 1;
        s = upd_topic topic_idx (\<lambda>e. e\<lparr>te_write_seq := seq\<rparr>) s;
        slot = ring_slot c seq;
        s = upd_ring topic_idx slot (\<lambda>e. e\<lparr>re_seq :=
              if single_publisher then SEQ_WRITING else snd (claim_slot 0 (re_seq e))\<rparr>) s;
        old_block_idx = re_block_idx (rings s topic_idx slot);
        s = upd_block block_idx (\<lambda>x. x\<lparr>bk_refcount := 1\<rparr>) s;
        s = upd_ring topic_idx slot (\<lambda>e. e\<lparr>re_block_idx := block_idx\<rparr>) s;
        s = upd_ring topic_idx slot (\<lambda>e. e\<lparr>re_data_len := data_len\<rparr>) s;
        s = upd_ring topic_idx slot (\<lambda>e. e\<lparr>re_seq := seq\<rparr>) s;
        (r, s) = release_old old_block_idx (r, s)
      in (wake \<and> te_waiters (topics s topic_idx) > 0, r, s))"

definition commit_pinned :: "u32 \<Rightarrow> u32 \<Rightarrow> shm \<Rightarrow> bool \<times> shm" where
  "commit_pinned data_len topic_idx s =
     (let seq = te_write_seq (topics s topic_idx) + 1;
        s = upd_topic topic_idx (\<lambda>e. e\<lparr>te_write_seq := seq\<rparr>) s;
        packed = push_bit 32 (seq AND 0xFFFFFFFF) OR as_u64 data_len;
        s = upd_topic topic_idx (\<lambda>e. e\<lparr>te_pinned_seq := packed\<rparr>) s
      in (te_waiters (topics s topic_idx) > 0, s))"

definition set_pinned_block :: "u32 \<Rightarrow> u32 \<Rightarrow> shm \<Rightarrow> shm" where
  "set_pinned_block topic_idx block_idx s = upd_topic topic_idx (\<lambda>e. e\<lparr>te_pinned_block := block_idx\<rparr>) s"

text \<open>The loop of \<open>Publisher::create\<close> that empties every ring entry.\<close>

definition empty_entry :: ring_entry where
  "empty_entry = \<lparr>re_seq = 0, re_block_idx = NO_BLOCK, re_data_len = 0\<rparr>"

definition init_rings :: "config \<Rightarrow> shm \<Rightarrow> shm" where
  "init_rings c s =
     fold (\<lambda>t. fold (\<lambda>k. upd_ring t k (\<lambda>_. empty_entry)) (range_u32 (ring_depth c)))
       (range_u32 (max_topics c)) s"

section \<open>The accounting invariant\<close>

definition ring_slots :: "config \<Rightarrow> (u32 \<times> u32) set" where
  "ring_slots c = {(t, k). t < max_topics c \<and> k < ring_depth c}"

definition ring_blocks :: "config \<Rightarrow> shm \<Rightarrow> u32 multiset" where
  "ring_blocks c s = image_mset (\<lambda>(t, k). re_block_idx (rings s t k)) (mset_set (ring_slots c))"

text \<open>How many places an idle or referenced block occupies among free list and private holdings.\<close>

definition vacant :: "u32 \<Rightarrow> nat" where
  "vacant rc = (if rc = 0 then 1 else 0)"

definition acct :: "config \<Rightarrow> shm \<Rightarrow> u32 multiset \<Rightarrow> u32 multiset \<Rightarrow> bool" where
  "acct c s I S \<longleftrightarrow>
     (\<exists>fs. free_list c s fs \<and>
        (\<forall>i < block_count c. count (mset fs + I) i = vacant (refcount s i))) \<and>
     (\<forall>i < block_count c. unat (refcount s i) = count (ring_blocks c s) i + count S i) \<and>
     (\<forall>i \<in># I + S. i < block_count c) \<and>
     (\<forall>i \<in># ring_blocks c s. i = NO_BLOCK \<or> i < block_count c)"

lemma vacant_simps [simp]: "vacant 0 = 1" "vacant 1 = 0" "rc \<noteq> 0 \<Longrightarrow> vacant rc = 0"
  by (simp_all add: vacant_def)

lemma finite_ring_slots [simp]: "finite (ring_slots c)"
  by (rule finite_subset [of _ "UNIV \<times> UNIV"]) auto

lemma acctE:
  assumes "acct c s I S"
  obtains fs where "free_list c s fs"
    "\<And>i. i < block_count c \<Longrightarrow> count (mset fs) i + count I i = vacant (refcount s i)"
    "\<And>i. i < block_count c \<Longrightarrow> unat (refcount s i) = count (ring_blocks c s) i + count S i"
    "\<And>i. i \<in># I \<Longrightarrow> i < block_count c" "\<And>i. i \<in># S \<Longrightarrow> i < block_count c"
    "\<And>i. i \<in># ring_blocks c s \<Longrightarrow> i = NO_BLOCK \<or> i < block_count c"
  using assms unfolding acct_def by auto

lemma acctI:
  assumes "free_list c s fs"
    "\<And>i. i < block_count c \<Longrightarrow> count (mset fs) i + count I i = vacant (refcount s i)"
    "\<And>i. i < block_count c \<Longrightarrow> unat (refcount s i) = count (ring_blocks c s) i + count S i"
    "\<And>i. i \<in># I \<Longrightarrow> i < block_count c" "\<And>i. i \<in># S \<Longrightarrow> i < block_count c"
    "\<And>i. i \<in># ring_blocks c s \<Longrightarrow> i = NO_BLOCK \<or> i < block_count c"
  shows "acct c s I S"
proof -
  have "\<forall>i < block_count c. count (mset fs + I) i = vacant (refcount s i)"
    using assms(2) by simp
  with assms show ?thesis unfolding acct_def by (intro conjI) (blast, auto)
qed

text \<open>An idle block is referenced by no ring slot and no reader, and is held only once.\<close>

lemma acct_idle:
  assumes "acct c s I S" "x \<in># I"
  shows "x < block_count c" "refcount s x = 0" "count I x = 1" "x \<notin># ring_blocks c s" "x \<notin># S"
proof -
  from assms(1) obtain fs where a: "free_list c s fs"
    "\<And>i. i < block_count c \<Longrightarrow> count (mset fs) i + count I i = vacant (refcount s i)"
    "\<And>i. i < block_count c \<Longrightarrow> unat (refcount s i) = count (ring_blocks c s) i + count S i"
    "\<And>i. i \<in># I \<Longrightarrow> i < block_count c" by (rule acctE) blast
  show x: "x < block_count c" using a(4) assms(2) .
  have p: "0 < count I x" using assms(2) by simp
  then show rc: "refcount s x = 0" using a(2) [OF x] by (metis add_is_0 less_numeral_extra(3) vacant_simps(3))
  show "count I x = 1" using p a(2) [OF x] unfolding rc vacant_simps by linarith
  show "x \<notin># ring_blocks c s" "x \<notin># S" using a(3) [OF x] unfolding rc by (auto simp: not_in_iff)
qed

text \<open>A referenced block is not idle.\<close>

lemma acct_ref_positive:
  assumes "acct c s I S" "x \<in># ring_blocks c s + S" "x \<noteq> NO_BLOCK"
  shows "x < block_count c" "0 < unat (refcount s x)" "x \<notin># I"
proof -
  from assms(1) obtain fs where a:
    "\<And>i. i < block_count c \<Longrightarrow> count (mset fs) i + count I i = vacant (refcount s i)"
    "\<And>i. i < block_count c \<Longrightarrow> unat (refcount s i) = count (ring_blocks c s) i + count S i"
    "\<And>i. i \<in># S \<Longrightarrow> i < block_count c"
    "\<And>i. i \<in># ring_blocks c s \<Longrightarrow> i = NO_BLOCK \<or> i < block_count c" by (rule acctE) blast
  show x: "x < block_count c" using a(3,4) assms(2,3) by auto
  have "0 < count (ring_blocks c s + S) x" using assms(2) by simp
  then show p: "0 < unat (refcount s x)" using a(2) [OF x] by simp
  then have "refcount s x \<noteq> 0" by auto
  then show "x \<notin># I" using a(1) [OF x] by (simp add: not_in_iff)
qed

section \<open>Primitive moves\<close>

lemma ring_blocks_cong: "rings s' = rings s \<Longrightarrow> ring_blocks c s' = ring_blocks c s"
  by (simp add: ring_blocks_def)

lemma acct_cong:
  assumes "acct c s I S" "pool_head s' = pool_head s" "rings s' = rings s"
    and "\<And>i. bk_next (blocks s' i) = bk_next (blocks s i)" "\<And>i. refcount s' i = refcount s i"
  shows "acct c s' I S"
proof -
  have "free_list c s' fs = free_list c s fs" for fs by (rule free_list_cong) (simp_all add: assms)
  with assms show ?thesis by (simp add: acct_def ring_blocks_cong [OF assms(3)])
qed

lemma acct_alloc:
  assumes "acct c s I S" "alloc_block c s = (res, s')"
  shows "(\<exists>x. res = Inr (Some x) \<and> acct c s' (add_mset x I) S) \<or>
    (res = Inr None \<and> s' = s \<and> free_list c s [])"
proof -
  from assms(1) obtain fs where a: "free_list c s fs"
    "\<And>i. i < block_count c \<Longrightarrow> count (mset fs) i + count I i = vacant (refcount s i)"
    "\<And>i. i < block_count c \<Longrightarrow> unat (refcount s i) = count (ring_blocks c s) i + count S i"
    "\<And>i. i \<in># I \<Longrightarrow> i < block_count c" "\<And>i. i \<in># S \<Longrightarrow> i < block_count c"
    "\<And>i. i \<in># ring_blocks c s \<Longrightarrow> i = NO_BLOCK \<or> i < block_count c" by (rule acctE) blast
  show ?thesis
  proof (cases fs)
    case Nil
    then show ?thesis using a(1) assms(2) alloc_block_empty by auto
  next
    case (Cons x xs)
    note fl = a(1) [unfolded Cons]
    have s': "res = Inr (Some x)" "blocks s' = blocks s" "rings s' = rings s" "free_list c s' xs"
      using alloc_block_cons [OF fl] assms(2) by auto
    have "x < block_count c" using fl by (simp add: free_list_def)
    have "acct c s' (add_mset x I) S"
    proof (rule acctI [OF s'(4)], goal_cases)
      case (1 i)
      from a(2) [OF 1] show ?case by (cases "x = i") (simp_all add: s'(2) Cons)
    next
      case (2 i)
      from a(3) [OF 2] show ?case by (simp add: s'(2) ring_blocks_cong [OF s'(3)])
    next
      case (3 i)
      with a(4) \<open>x < block_count c\<close> show ?case by auto
    next
      case (5 i)
      with a(6) show ?case by (simp add: ring_blocks_cong [OF s'(3)])
    qed (rule a(5))
    with s'(1) show ?thesis by blast
  qed
qed

lemma free_block_frame [simp]:
  "rings (free_block c x s) = rings s" "topics (free_block c x s) = topics s"
  "heartbeat (free_block c x s) = heartbeat s" "refcount (free_block c x s) i = refcount s i"
  "bk_data (blocks (free_block c x s) i) = bk_data (blocks s i)"
  by (simp_all add: free_block_def Let_def case_prod_unfold)

lemma acct_free:
  assumes "acct c s (add_mset x I) S"
  shows "acct c (free_block c x s) I S"
proof -
  from assms obtain fs where a: "free_list c s fs"
    "\<And>i. i < block_count c \<Longrightarrow> count (mset fs) i + count (add_mset x I) i = vacant (refcount s i)"
    "\<And>i. i < block_count c \<Longrightarrow> unat (refcount s i) = count (ring_blocks c s) i + count S i"
    "\<And>i. i \<in># add_mset x I \<Longrightarrow> i < block_count c" "\<And>i. i \<in># S \<Longrightarrow> i < block_count c"
    "\<And>i. i \<in># ring_blocks c s \<Longrightarrow> i = NO_BLOCK \<or> i < block_count c" by (rule acctE) blast
  have x: "x < block_count c" using a(4) by simp
  have "count (mset fs) x = 0"
    using a(2) [OF x] by (cases "refcount s x = 0") simp_all
  then have fl: "free_list c (free_block c x s) (x # fs)" using a(1) x by (intro free_block_stack) simp_all
  have rb: "ring_blocks c (free_block c x s) = ring_blocks c s" by (rule ring_blocks_cong) simp
  show ?thesis
  proof (rule acctI [OF fl], goal_cases)
    case (1 i)
    from a(2) [OF 1] show ?case by (cases "x = i") simp_all
  next
    case (2 i)
    from a(3) [OF 2] show ?case by (simp add: rb)
  next
    case (3 i)
    then show ?case using a(4) [of i] by simp
  next
    case (5 i)
    with a(6) show ?case by (simp add: rb)
  qed (rule a(5))
qed

text \<open>Dropping a reference makes the block idle exactly when it was the last one.\<close>

lemma acct_unref:
  assumes "acct c s I (add_mset x S)"
    and "s' = upd_block x (\<lambda>b. b\<lparr>bk_refcount := refcount s x - 1\<rparr>) s"
  shows "acct c s' (if refcount s x = 1 then add_mset x I else I) S"
proof -
  from assms(1) obtain fs where a: "free_list c s fs"
    "\<And>i. i < block_count c \<Longrightarrow> count (mset fs) i + count I i = vacant (refcount s i)"
    "\<And>i. i < block_count c \<Longrightarrow> unat (refcount s i) = count (ring_blocks c s) i + count (add_mset x S) i"
    "\<And>i. i \<in># I \<Longrightarrow> i < block_count c" "\<And>i. i \<in># add_mset x S \<Longrightarrow> i < block_count c"
    "\<And>i. i \<in># ring_blocks c s \<Longrightarrow> i = NO_BLOCK \<or> i < block_count c" by (rule acctE) blast
  have x: "x < block_count c" using a(5) by simp
  have pos: "0 < unat (refcount s x)" using a(3) [OF x] by simp
  then have rc2: "refcount s x \<noteq> 0" by auto
  then have rc1: "unat (refcount s x - 1) = unat (refcount s x) - 1" by (rule unat_minus_one)
  have z: "refcount s x - 1 = 0 \<longleftrightarrow> refcount s x = 1" by auto
  have fl: "free_list c s' fs"
    using a(1) by (simp add: assms(2) free_list_upd_other)
  have rb: "ring_blocks c s' = ring_blocks c s" by (rule ring_blocks_cong) (simp add: assms(2))
  show ?thesis
  proof (rule acctI [OF fl])
    fix i assume i: "i < block_count c"
    show "count (mset fs) i + count (if refcount s x = 1 then add_mset x I else I) i =
        vacant (refcount s' i)"
      using a(2) [OF i] z rc2 by (cases "i = x") (simp_all add: assms(2))
    show "unat (refcount s' i) = count (ring_blocks c s') i + count S i"
      using a(3) [OF i] rc1 pos unfolding rb by (cases "i = x") (simp_all add: assms(2))
  next
    fix i assume "i \<in># (if refcount s x = 1 then add_mset x I else I)"
    then show "i < block_count c" using a(4) [of i] x by (auto split: if_splits)
  next
    fix i assume "i \<in># ring_blocks c s'"
    then show "i = NO_BLOCK \<or> i < block_count c" using a(6) unfolding rb by blast
  next
    fix i assume "i \<in># S"
    then show "i < block_count c" using a(5) [of i] by simp
  qed
qed

lemma acct_release:
  assumes "acct c s I (add_mset x S)"
  shows "acct c (release_block c x s) I S"
proof -
  let ?s = "upd_block x (\<lambda>b. b\<lparr>bk_refcount := refcount s x - 1\<rparr>) s"
  have x: "x < block_count c" using acctE [OF assms] by (metis union_single_eq_member add_mset_add_single)
  have u: "acct c ?s (if refcount s x = 1 then add_mset x I else I) S"
    using acct_unref [OF assms] by simp
  have "release_block c x s = (if refcount s x = 1 then free_block c x ?s else ?s)"
    using x [unfolded not_le [symmetric]] by (simp add: release_block_def block_refcount_checked_def Let_def)
  then show ?thesis using u acct_free [of c ?s x I S] by (simp split: if_splits)
qed

text \<open>Taking a reference to a referenced block.\<close>

lemma acct_ref:
  assumes "acct c s I S" "x < block_count c" "refcount s x \<noteq> 0" "unat (refcount s x) + 1 < 2 ^ 32"
    and "s' = upd_block x (\<lambda>b. b\<lparr>bk_refcount := refcount s x + 1\<rparr>) s"
  shows "acct c s' I (add_mset x S)"
proof -
  from assms(1) obtain fs where a: "free_list c s fs"
    "\<And>i. i < block_count c \<Longrightarrow> count (mset fs) i + count I i = vacant (refcount s i)"
    "\<And>i. i < block_count c \<Longrightarrow> unat (refcount s i) = count (ring_blocks c s) i + count S i"
    "\<And>i. i \<in># I \<Longrightarrow> i < block_count c" "\<And>i. i \<in># S \<Longrightarrow> i < block_count c"
    "\<And>i. i \<in># ring_blocks c s \<Longrightarrow> i = NO_BLOCK \<or> i < block_count c" by (rule acctE) blast
  have rc: "unat (refcount s x + 1) = unat (refcount s x) + 1"
    using assms(4) by (simp add: unat_word_ariths)
  then have nz: "refcount s x + 1 \<noteq> 0" by auto
  have fl: "free_list c s' fs" using a(1) by (simp add: assms(5) free_list_upd_other)
  have rb: "ring_blocks c s' = ring_blocks c s" by (rule ring_blocks_cong) (simp add: assms(5))
  show ?thesis
  proof (rule acctI [OF fl])
    fix i assume i: "i < block_count c"
    show "count (mset fs) i + count I i = vacant (refcount s' i)"
      using a(2) [OF i] nz assms(3) by (cases "i = x") (simp_all add: assms(5))
    show "unat (refcount s' i) = count (ring_blocks c s') i + count (add_mset x S) i"
      using a(3) [OF i] rc unfolding rb by (cases "i = x") (simp_all add: assms(5))
  next
    fix i assume "i \<in># add_mset x S"
    then show "i < block_count c" using a(5) [of i] assms(2) by auto
  next
    fix i assume "i \<in># ring_blocks c s'"
    then show "i = NO_BLOCK \<or> i < block_count c" using a(6) unfolding rb by blast
  qed (rule a(4))
qed

section \<open>Commit preserves the accounting\<close>

lemma ring_slot_nat:
  assumes "is_power_of_two (ring_depth c)"
  shows "unat (ring_slot c seq) = unat seq mod unat (ring_depth c)"
proof -
  have "unat (seq AND (as_u64 (ring_depth c) - 1)) = unat seq mod unat (ring_depth c)"
    using unat_and_mask [OF is_power_of_two_as_u64 [OF assms]] by simp
  moreover have "unat seq mod unat (ring_depth c) < 2 ^ 32"
    using is_power_of_two_pos [OF assms] unat_u32_less [of "ring_depth c"]
    by (intro less_trans [OF mod_less_divisor]) (simp_all add: word_less_nat_alt)
  ultimately show ?thesis by (simp add: ring_slot_def unat_as_u32)
qed

lemma ring_slot_less:
  assumes "is_power_of_two (ring_depth c)"
  shows "ring_slot c seq < ring_depth c"
  using is_power_of_two_pos [OF assms] by (simp add: word_less_nat_alt ring_slot_nat [OF assms])

text \<open>Steps 1 to 6 of a commit.\<close>

definition publish_slot :: "config \<Rightarrow> u32 \<Rightarrow> u32 \<Rightarrow> u32 \<Rightarrow> shm \<Rightarrow> shm" where
  "publish_slot c b len t s =
     (let seq = te_write_seq (topics s t) + 1 in
      upd_ring t (ring_slot c seq) (\<lambda>e. e\<lparr>re_block_idx := b, re_data_len := len, re_seq := seq\<rparr>)
        (upd_block b (\<lambda>x. x\<lparr>bk_refcount := 1\<rparr>) (upd_topic t (\<lambda>e. e\<lparr>te_write_seq := seq\<rparr>) s)))"

abbreviation old_block :: "config \<Rightarrow> u32 \<Rightarrow> shm \<Rightarrow> u32" where
  "old_block c t s \<equiv> re_block_idx (rings s t (ring_slot c (te_write_seq (topics s t) + 1)))"

lemma publish_steps:
  "upd_ring t k (\<lambda>e. e\<lparr>re_seq := q\<rparr>) (upd_ring t k (\<lambda>e. e\<lparr>re_data_len := len\<rparr>)
     (upd_ring t k (\<lambda>e. e\<lparr>re_block_idx := b\<rparr>) (upd_block b f (upd_ring t k (\<lambda>e. e\<lparr>re_seq := g e\<rparr>) s)))) =
   upd_ring t k (\<lambda>e. e\<lparr>re_block_idx := b, re_data_len := len, re_seq := q\<rparr>) (upd_block b f s)"
  by (rule shm.equality) simp_all

lemma commit_to_ring_eq:
  "commit_to_ring b len t w sp (r, s) =
     (let (r', s') = release_old (old_block (rg_config r) t s) (r, publish_slot (rg_config r) b len t s)
      in (w \<and> te_waiters (topics s' t) > 0, r', s'))"
  unfolding commit_to_ring_def publish_slot_def Let_def prod.case publish_steps
  by (simp add: case_prod_unfold)

lemma ring_blocks_upd:
  assumes "t < max_topics c" "k < ring_depth c"
  shows "ring_blocks c (upd_ring t k f s) =
      add_mset (re_block_idx (f (rings s t k))) (ring_blocks c s - {#re_block_idx (rings s t k)#})"
    and "re_block_idx (rings s t k) \<in># ring_blocks c s"
proof -
  let ?R = "mset_set (ring_slots c - {(t, k)})"
  have mem: "(t, k) \<in> ring_slots c" using assms by (simp add: ring_slots_def)
  then have split: "mset_set (ring_slots c) = add_mset (t, k) ?R"
    by (simp add: mset_set.remove)
  have rest: "image_mset (\<lambda>(t', k'). re_block_idx (rings (upd_ring t k f s) t' k')) ?R =
      image_mset (\<lambda>(t', k'). re_block_idx (rings s t' k')) ?R"
  proof (rule image_mset_cong)
    fix p assume "p \<in># ?R"
    then have "fst p \<noteq> t \<or> snd p \<noteq> k" by (auto simp: prod_eq_iff)
    then show "(case p of (t', k') \<Rightarrow> re_block_idx (rings (upd_ring t k f s) t' k')) =
        (case p of (t', k') \<Rightarrow> re_block_idx (rings s t' k'))"
      by (cases "fst p = t") (simp_all add: case_prod_unfold)
  qed
  show "ring_blocks c (upd_ring t k f s) =
      add_mset (re_block_idx (f (rings s t k))) (ring_blocks c s - {#re_block_idx (rings s t k)#})"
    unfolding ring_blocks_def split image_mset_add_mset rest by simp
  show "re_block_idx (rings s t k) \<in># ring_blocks c s"
    unfolding ring_blocks_def split by simp
qed

lemma publish_slot_simps [simp]:
  "pool_head (publish_slot c b len t s) = pool_head s"
  "heartbeat (publish_slot c b len t s) = heartbeat s"
  "bk_next (blocks (publish_slot c b len t s) i) = bk_next (blocks s i)"
  "bk_data (blocks (publish_slot c b len t s) i) = bk_data (blocks s i)"
  "refcount (publish_slot c b len t s) i = (if i = b then 1 else refcount s i)"
  by (simp_all add: publish_slot_def Let_def)

lemma acct_publish_slot:
  assumes "acct c s (add_mset b I) S" "t < max_topics c" "is_power_of_two (ring_depth c)"
  shows "acct c (publish_slot c b len t s) I
    (if old_block c t s = NO_BLOCK then S else add_mset (old_block c t s) S)"
proof -
  let ?s = "publish_slot c b len t s" and ?o = "old_block c t s"
  let ?S = "if ?o = NO_BLOCK then S else add_mset ?o S"
  from assms(1) obtain fs where a: "free_list c s fs"
    "\<And>i. i < block_count c \<Longrightarrow> count (mset fs) i + count (add_mset b I) i = vacant (refcount s i)"
    "\<And>i. i < block_count c \<Longrightarrow> unat (refcount s i) = count (ring_blocks c s) i + count S i"
    "\<And>i. i \<in># add_mset b I \<Longrightarrow> i < block_count c" "\<And>i. i \<in># S \<Longrightarrow> i < block_count c"
    "\<And>i. i \<in># ring_blocks c s \<Longrightarrow> i = NO_BLOCK \<or> i < block_count c" by (rule acctE) blast
  have b: "b < block_count c" "refcount s b = 0" "count I b = 0" "b \<notin># ring_blocks c s" "b \<notin># S"
    using acct_idle [OF assms(1), of b] by simp_all
  let ?k = "ring_slot c (te_write_seq (topics s t) + 1)"
  have k: "?k < ring_depth c" by (rule ring_slot_less [OF assms(3)])
  have rb: "ring_blocks c ?s = add_mset b (ring_blocks c s - {#?o#})"
    using ring_blocks_upd(1) [OF assms(2) k, of s "\<lambda>e. e\<lparr>re_block_idx := b, re_data_len := len, re_seq := te_write_seq (topics s t) + 1\<rparr>"]
    by (simp add: publish_slot_def Let_def ring_blocks_def)
  have om: "?o \<in># ring_blocks c s" by (rule ring_blocks_upd(2) [OF assms(2) k])
  then have ob: "?o \<noteq> b" using b(4) by auto
  have fl: "free_list c ?s fs" using a(1) by (subst free_list_cong [of _ s]) simp_all
  show ?thesis
  proof (rule acctI [OF fl], goal_cases)
    case (1 i)
    show ?case using a(2) [OF 1] b(2,3) by (cases "i = b") (auto simp: not_in_iff)
  next
    case (2 i)
    have "count (ring_blocks c s) ?o > 0" using om by simp
    then show ?case
      using a(3) [OF 2] b(4,5) ob index_not_NO_BLOCK [OF 2] unfolding rb
      by (cases "i = b"; cases "i = ?o") (auto simp: not_in_iff)
  next
    case (3 i)
    then show ?case using a(4) [of i] by simp
  next
    case (4 i)
    then show ?case using a(5) [of i] a(6) [OF om] by (auto split: if_splits)
  next
    case (5 i)
    then show ?case using a(6) [of i] b(1) unfolding rb by (auto dest: in_diffD)
  qed
qed

text \<open>The block waiting in a handle's recycling hint.\<close>

definition recycled :: "region \<Rightarrow> u32 multiset" where
  "recycled r = (if last_freed r = NO_BLOCK then {#} else {#last_freed r#})"

lemma acct_release_old:
  assumes "acct (rg_config r) s (I + recycled r) (if old = NO_BLOCK then S else add_mset old S)"
    and "release_old old (r, s) = (r', s')"
  shows "acct (rg_config r) s' (I + recycled r') S" "rg_config r' = rg_config r"
proof -
  let ?c = "rg_config r"
  show "rg_config r' = rg_config r"
    using assms(2) by (auto simp: release_old_def Let_def split: if_splits)
  show "acct ?c s' (I + recycled r') S"
  proof (cases "old = NO_BLOCK")
    case True
    with assms show ?thesis by (simp add: release_old_def)
  next
    case False
    with assms(1) have a: "acct ?c s (I + recycled r) (add_mset old S)" by simp
    have o: "old < block_count ?c" by (rule acct_ref_positive(1) [OF a]) (use False in auto)
    let ?s = "upd_block old (\<lambda>b. b\<lparr>bk_refcount := refcount s old - 1\<rparr>) s"
    have u: "acct ?c ?s (if refcount s old = 1 then add_mset old (I + recycled r) else I + recycled r) S"
      by (rule acct_unref [OF a]) simp
    show ?thesis
    proof (cases "refcount s old = 1")
      case True
      then have rs: "r' = r\<lparr>last_freed := old\<rparr>"
        "s' = (if last_freed r \<noteq> NO_BLOCK then free_block ?c (last_freed r) ?s else ?s)"
        using assms(2) False o by (auto simp: release_old_def Let_def)
      have u': "acct ?c ?s (add_mset old (I + recycled r)) S" using u True by simp
      have "acct ?c s' (add_mset old I) S"
      proof (cases "last_freed r = NO_BLOCK")
        case True
        with u' show ?thesis by (simp add: rs(2) recycled_def)
      next
        case False
        with u' have "acct ?c ?s (add_mset (last_freed r) (add_mset old I)) S"
          by (simp add: recycled_def add_mset_commute)
        with False show ?thesis by (simp only: rs(2) if_True acct_free simp_thms)
      qed
      then show ?thesis using False by (simp add: rs(1) recycled_def)
    next
      case nl: False
      then have "r' = r" "s' = ?s"
        using assms(2) False o by (auto simp: release_old_def Let_def)
      with u nl show ?thesis by simp
    qed
  qed
qed

lemma acct_commit:
  assumes "acct (rg_config r) s (add_mset b (I + recycled r)) S" "t < max_topics (rg_config r)"
    and "is_power_of_two (ring_depth (rg_config r))"
    and "commit_to_ring b len t w sp (r, s) = (woke, r', s')"
  shows "acct (rg_config r) s' (I + recycled r') S" "rg_config r' = rg_config r"
proof -
  have "release_old (old_block (rg_config r) t s) (r, publish_slot (rg_config r) b len t s) = (r', s')"
    using assms(4) by (simp add: commit_to_ring_eq Let_def split: prod.splits)
  from acct_release_old [OF acct_publish_slot [OF assms(1-3)] this]
  show "acct (rg_config r) s' (I + recycled r') S" "rg_config r' = rg_config r" .
qed

lemma release_old_frame:
  assumes "release_old old (r, s) = (r', s')"
  shows "rings s' = rings s" "topics s' = topics s" "heartbeat s' = heartbeat s"
    "bk_data (blocks s' i) = bk_data (blocks s i)" "i \<noteq> old \<Longrightarrow> refcount s' i = refcount s i"
    "pool_offset r' = pool_offset r"
  using assms by (auto simp: release_old_def Let_def split: if_splits)

lemma commit_frame:
  assumes "commit_to_ring b len t w sp (r, s) = (woke, r', s')"
  shows "rings s' = rings (publish_slot (rg_config r) b len t s)"
    "topics s' = topics (publish_slot (rg_config r) b len t s)" "heartbeat s' = heartbeat s"
    "bk_data (blocks s' i) = bk_data (blocks s i)"
    "i \<noteq> old_block (rg_config r) t s \<Longrightarrow> refcount s' i = refcount (publish_slot (rg_config r) b len t s) i"
    "woke = (w \<and> te_waiters (topics s t) > 0)"
proof -
  have "release_old (old_block (rg_config r) t s) (r, publish_slot (rg_config r) b len t s) = (r', s')"
    and w: "woke = (w \<and> te_waiters (topics s' t) > 0)"
    using assms by (auto simp: commit_to_ring_eq Let_def split: prod.splits)
  from release_old_frame [OF this(1)]
  show f: "rings s' = rings (publish_slot (rg_config r) b len t s)"
    "topics s' = topics (publish_slot (rg_config r) b len t s)" "heartbeat s' = heartbeat s"
    "bk_data (blocks s' i) = bk_data (blocks s i)"
    "i \<noteq> old_block (rg_config r) t s \<Longrightarrow> refcount s' i = refcount (publish_slot (rg_config r) b len t s) i"
    by simp_all
  show "woke = (w \<and> te_waiters (topics s t) > 0)"
    using w by (simp add: f(2)) (simp add: publish_slot_def Let_def)
qed

section \<open>The initial state\<close>

lemma init_ring_row:
  "fold (\<lambda>k. upd_ring t k (\<lambda>_. e)) ks s =
     s\<lparr>rings := (rings s)(t := (\<lambda>k. if k \<in> set ks then e else rings s t k))\<rparr>"
  by (induction ks arbitrary: s) (auto simp: fun_eq_iff)

lemma init_ring_rows:
  "fold (\<lambda>t. fold (\<lambda>k. upd_ring t k (\<lambda>_. e)) ks) ts s =
     s\<lparr>rings := (\<lambda>t k. if t \<in> set ts \<and> k \<in> set ks then e else rings s t k)\<rparr>"
  by (induction ts arbitrary: s) (auto simp: init_ring_row fun_eq_iff)

lemma init_rings_eq:
  "init_rings c s =
     s\<lparr>rings := (\<lambda>t k. if t < max_topics c \<and> k < ring_depth c then empty_entry else rings s t k)\<rparr>"
  by (simp add: init_rings_def init_ring_rows)

lemma ring_blocks_init: "i \<in># ring_blocks c (init_rings c s) \<Longrightarrow> i = NO_BLOCK"
  by (auto simp: ring_blocks_def init_rings_eq ring_slots_def empty_entry_def)

lemma acct_init:
  assumes "0 < block_count c"
  shows "acct c (init_rings c (init_free_list c s)) {#} {#}"
proof -
  let ?s = "init_rings c (init_free_list c s)"
  have fl: "free_list c ?s (range_u32 (block_count c))"
    using init_free_list_full [OF assms, of s] by (subst free_list_cong [of _ "init_free_list c s"]) (simp_all add: init_rings_eq)
  have rc: "refcount ?s i = 0" if "i < block_count c" for i
    using that by (simp add: init_rings_eq init_blocks init_block_def)
  show ?thesis
  proof (rule acctI [OF fl], goal_cases)
    case (1 i)
    then have "count (mset (range_u32 (block_count c))) i = 1"
      by (simp add: distinct_count_atmost_1 [THEN iffD1, OF distinct_range_u32])
    then show ?case using rc [OF 1] by simp
  next
    case (2 i)
    have "i \<notin># ring_blocks c ?s" using ring_blocks_init index_not_NO_BLOCK [OF 2] by blast
    then show ?case using rc [OF 2] by (simp add: not_in_iff)
  next
    case (5 i)
    then show ?case using ring_blocks_init by blast
  qed simp_all
qed

section \<open>Properties\<close>



text \<open>
  A commit keeps the accounting of the pool exact.  Given a block held by the committer,
  after the commit the block is referenced by the ring slot alone, the block of the
  overwritten slot has lost that slot's reference and, if it was the last, waits in the
  recycling hint (the previous hint going back to the free list), and still every block of
  the pool is in exactly one place or has a reference count equal to its number of ring slots
  and readers.
\<close>

theorem commit_keeps_accounting:
  assumes "acct (rg_config r) s (add_mset b (I + recycled r)) S"
    and "t < max_topics (rg_config r)" and "is_power_of_two (ring_depth (rg_config r))"
    and "commit_to_ring b len t w sp (r, s) = (woke, r', s')"
    and "seq = te_write_seq (topics s t) + 1"
  shows "acct (rg_config r) s' (I + recycled r') S \<and> refcount s' b = 1 \<and>
    rings s' t (ring_slot (rg_config r) seq) = \<lparr>re_seq = seq, re_block_idx = b, re_data_len = len\<rparr> \<and>
    te_write_seq (topics s' t) = seq"
proof (intro conjI)
  show "acct (rg_config r) s' (I + recycled r') S" using assms(1-4) by (rule acct_commit(1))
  have "old_block (rg_config r) t s \<in># ring_blocks (rg_config r) s"
    by (rule ring_blocks_upd(2) [OF assms(2) ring_slot_less [OF assms(3)]])
  moreover have "b \<notin># ring_blocks (rg_config r) s" by (rule acct_idle(4) [OF assms(1)]) simp
  ultimately have "b \<noteq> old_block (rg_config r) t s" by blast
  with commit_frame(5) [OF assms(4)] show "refcount s' b = 1" by simp
  show "rings s' t (ring_slot (rg_config r) seq) = \<lparr>re_seq = seq, re_block_idx = b, re_data_len = len\<rparr>"
    "te_write_seq (topics s' t) = seq"
    by (simp_all add: commit_frame(1,2) [OF assms(4)] publish_slot_def Let_def assms(5))
qed

theorem commit_keeps_accounting_witness:
  "\<exists>s w r' s'. acct config_default s {#0#} {#} \<and>
     commit_to_ring 0 4 0 True True (from_raw config_default, s) = (w, r', s') \<and>
     acct config_default s' (recycled r') {#} \<and> refcount s' 0 = 1"
proof -
  let ?c = config_default and ?r = "from_raw config_default"
  let ?s = "init_rings ?c (init_free_list ?c (zero_shm ?c))"
  have c: "block_count ?c = 256" "max_topics ?c = 16" "ring_depth ?c = 8" "rg_config ?r = ?c"
    by (simp_all add: config_default_def from_raw_def)
  have a: "acct ?c ?s {#} {#}" by (rule acct_init) (simp add: c)
  have x: "fst (alloc_block ?c ?s) = Inr (Some 0)"
    by (simp add: alloc_block_def Let_def init_rings_eq init_blocks init_block_def c)
      (simp add: NO_BLOCK_def word_le_nat_alt)
  obtain s1 where "alloc_block ?c ?s = (Inr (Some 0), s1)" using x by (cases "alloc_block ?c ?s") auto
  with acct_alloc [OF a] have a1: "acct (rg_config ?r) s1 (add_mset 0 ({#} + recycled ?r)) {#}"
    by (auto simp: recycled_def from_raw_def)
  obtain w r' s' where cm: "commit_to_ring 0 4 0 True True (?r, s1) = (w, r', s')"
    by (cases "commit_to_ring 0 4 0 True True (?r, s1)") auto
  have "is_power_of_two (ring_depth (rg_config ?r))"
    by (simp add: c is_power_of_two_def count_ones_def upt_conv_Cons)
  from commit_keeps_accounting [OF a1 _ this cm refl]
  have "acct ?c s' (recycled r') {#} \<and> refcount s' 0 = 1" by (simp add: c)
  moreover have "acct ?c s1 {#0#} {#}" using a1 by (simp add: c recycled_def) (simp add: from_raw_def)
  ultimately show ?thesis using cm by blast
qed

end
