(* ===== verification/Loan.thy ===== *)
theory Loan
  imports Ring
begin

text \<open>
  Loans of \<open>src/platform/loan.rs\<close>: the writable views of a block that a publisher hands out.

  A \<open>loan\<close> (and \<open>typed_loan\<close>, \<open>pinned_loan\<close>) record is the process-local handle; the bytes it
  writes go to \<open>bk_data\<close> of its block in the shared memory.  Copies into a block are
  \<open>overwrite\<close>; a write that would run past the block's data area, which Rust's \<open>unsafe\<close> code
  would perform anyway, is \<open>None\<close>.  Values of a type \<open>T: Pod\<close> are their byte images.
  Byte counts are natural numbers: a Rust allocation never exceeds \<open>isize::MAX\<close> bytes.

  The streaming copy used for large payloads is proved equal to a plain copy, and the writers
  are proved to stay inside the block.
\<close>

section \<open>Copies\<close>

definition overwrite :: "bytes \<Rightarrow> nat \<Rightarrow> bytes \<Rightarrow> bytes" where
  "overwrite dst off xs = take off dst @ xs @ drop (off + length xs) dst"

text \<open>
  \<open>nontemporal_copy\<close>: \<open>align\<close> is \<open>dst.align_offset(16)\<close>, the number of bytes before the first
  16-byte boundary of the destination.
\<close>

function nt_stream :: "bytes \<Rightarrow> nat \<Rightarrow> nat \<Rightarrow> bytes \<Rightarrow> nat \<times> bytes" where
  "nt_stream src offset len dst =
     (if offset + 16 \<le> len
      then nt_stream src (offset + 16) len (overwrite dst offset (take 16 (drop offset src)))
      else (offset, dst))"
  by pat_completeness auto
termination by (relation "measure (\<lambda>(src, offset, len, dst). len - offset)") auto

declare nt_stream.simps [simp del]

definition nontemporal_copy :: "nat \<Rightarrow> bytes \<Rightarrow> bytes \<Rightarrow> nat \<Rightarrow> bytes" where
  "nontemporal_copy align src dst len =
     (let align_offset = min align len;
        (offset, dst) = (if align_offset > 0 then (align_offset, overwrite dst 0 (take align_offset src)) else (0, dst));
        (offset, dst) = nt_stream src offset len dst
      in if offset < len then overwrite dst offset (take (len - offset) (drop offset src)) else dst)"

section \<open>Handles\<close>

record topic_handle =
  topic_idx :: u32
  publisher_id :: u64

record loan =
  ln_capacity :: nat
  ln_len :: nat
  ln_block_idx :: u32
  ln_topic_idx :: u32
  ln_single_publisher :: bool

record typed_loan =
  tl_block_idx :: u32
  tl_topic_idx :: u32
  tl_single_publisher :: bool

record pinned_loan =
  pl_capacity :: nat
  pl_len :: nat
  pl_block_idx :: u32
  pl_topic_idx :: u32

section \<open>Loan\<close>

abbreviation write_block :: "u32 \<Rightarrow> nat \<Rightarrow> bytes \<Rightarrow> shm \<Rightarrow> shm" where
  "write_block b off xs s \<equiv> upd_block b (\<lambda>x. x\<lparr>bk_data := overwrite (bk_data x) off xs\<rparr>) s"

text \<open>\<open>stream\<close> says whether the target has streaming stores (x86-64); \<open>align\<close> is the block's alignment.\<close>

definition set_data :: "bool \<Rightarrow> nat \<Rightarrow> bytes \<Rightarrow> loan \<Rightarrow> shm \<Rightarrow> unit result \<times> loan \<times> shm" where
  "set_data stream align data l s =
     (if length data > ln_capacity l
      then (Inl (DataTooLarge (of_nat (length data)) (of_nat (ln_capacity l))), l, s)
      else if stream \<and> length data \<ge> 2097152
      then (Inr (), l\<lparr>ln_len := length data\<rparr>,
        upd_block (ln_block_idx l) (\<lambda>x. x\<lparr>bk_data := nontemporal_copy align data (bk_data x) (length data)\<rparr>) s)
      else (Inr (), l\<lparr>ln_len := length data\<rparr>, write_block (ln_block_idx l) 0 data s))"

definition set_len :: "nat \<Rightarrow> loan \<Rightarrow> unit result \<times> loan" where
  "set_len len l =
     (if len > ln_capacity l then (Inl (DataTooLarge (of_nat len) (of_nat (ln_capacity l))), l)
      else (Inr (), l\<lparr>ln_len := len\<rparr>))"

text \<open>
  \<open>write_structured\<close>: \<open>header\<close> and each of \<open>entries\<close> are byte images; the entry count goes
  last, little-endian.
\<close>

definition structured_bytes :: "bytes \<Rightarrow> bytes list \<Rightarrow> nat \<Rightarrow> bytes \<Rightarrow> bytes" where
  "structured_bytes header entries array_size buf =
     (let buf = overwrite buf 0 header;
        buf = (if entries \<noteq> [] then overwrite buf (length header) (concat entries) else buf)
      in overwrite buf (length header + array_size) (to_le 4 (of_nat (length entries) :: u32)))"

definition write_structured :: "bytes \<Rightarrow> bytes list \<Rightarrow> loan \<Rightarrow> shm \<Rightarrow> unit result \<times> loan \<times> shm" where
  "write_structured header entries l s =
     (let array_size = length (concat entries);
        total = length header + array_size + 4 in
      if total > ln_capacity l
      then (Inl (DataTooLarge (of_nat total) (of_nat (ln_capacity l))), l, s)
      else
        let s' = upd_block (ln_block_idx l)
              (\<lambda>x. x\<lparr>bk_data := structured_bytes header entries array_size (bk_data x)\<rparr>) s;
          (res, l') = set_len total l
        in (res, l', s'))"

text \<open>\<open>commit\<close>, with the panic of its assertion as \<open>None\<close>.\<close>

definition loan_commit :: "bool \<Rightarrow> loan \<Rightarrow> region \<times> shm \<Rightarrow> (bool \<times> region \<times> shm) option" where
  "loan_commit wake l rs =
     (if ln_len l \<le> unat (- 1 :: u32)
      then Some (commit_to_ring (ln_block_idx l) (of_nat (ln_len l)) (ln_topic_idx l) wake (ln_single_publisher l) rs)
      else None)"

definition loan_publish :: "loan \<Rightarrow> region \<times> shm \<Rightarrow> (bool \<times> region \<times> shm) option" where
  "loan_publish l rs = loan_commit True l rs"

definition loan_publish_silent :: "loan \<Rightarrow> region \<times> shm \<Rightarrow> (bool \<times> region \<times> shm) option" where
  "loan_publish_silent l rs = loan_commit False l rs"

definition loan_drop :: "config \<Rightarrow> loan \<Rightarrow> shm \<Rightarrow> shm" where
  "loan_drop c l s = free_block c (ln_block_idx l) s"

text \<open>\<open>io::Write\<close>: an \<open>Err\<close> of kind \<open>WriteZero\<close>, or the number of bytes accepted.\<close>

definition io_write :: "bytes \<Rightarrow> loan \<Rightarrow> shm \<Rightarrow> nat option \<times> loan \<times> shm" where
  "io_write buf l s =
     (let remaining = ln_capacity l - ln_len l in
      if remaining = 0 \<and> buf \<noteq> [] then (None, l, s)
      else
        let n = min (length buf) remaining
        in (Some n, l\<lparr>ln_len := ln_len l + n\<rparr>, write_block (ln_block_idx l) (ln_len l) (take n buf) s))"

section \<open>TypedLoan\<close>

definition typed_commit :: "nat \<Rightarrow> bool \<Rightarrow> typed_loan \<Rightarrow> region \<times> shm \<Rightarrow> bool \<times> region \<times> shm" where
  "typed_commit size_of_T wake l rs =
     commit_to_ring (tl_block_idx l) (of_nat size_of_T) (tl_topic_idx l) wake (tl_single_publisher l) rs"

text \<open>
  \<open>send\<close> stores the value at the start of the block without a bounds check: \<open>None\<close> when the
  store leaves the block's data area.
\<close>

definition send :: "bytes \<Rightarrow> typed_loan \<Rightarrow> region \<times> shm \<Rightarrow> (bool \<times> region \<times> shm) option" where
  "send value l rs =
     (let (r, s) = rs in
      if length value > length (bk_data (blocks s (tl_block_idx l))) then None
      else Some (typed_commit (length value) True l (r, write_block (tl_block_idx l) 0 value s)))"

text \<open>\<open>as_mut\<close> lets user code fill in the value; \<open>None\<close> when the reference leaves the data area.\<close>

definition as_mut_write :: "bytes \<Rightarrow> typed_loan \<Rightarrow> shm \<Rightarrow> shm option" where
  "as_mut_write value l s =
     (if length value > length (bk_data (blocks s (tl_block_idx l))) then None
      else Some (write_block (tl_block_idx l) 0 value s))"

definition typed_drop :: "config \<Rightarrow> typed_loan \<Rightarrow> shm \<Rightarrow> shm" where
  "typed_drop c l s = free_block c (tl_block_idx l) s"

section \<open>PinnedLoan\<close>

definition pinned_set_data :: "bytes \<Rightarrow> pinned_loan \<Rightarrow> shm \<Rightarrow> unit result \<times> pinned_loan \<times> shm" where
  "pinned_set_data data l s =
     (if length data > pl_capacity l
      then (Inl (DataTooLarge (of_nat (length data)) (of_nat (pl_capacity l))), l, s)
      else (Inr (), l\<lparr>pl_len := length data\<rparr>, write_block (pl_block_idx l) 0 data s))"

definition pinned_set_len :: "nat \<Rightarrow> pinned_loan \<Rightarrow> unit result \<times> pinned_loan" where
  "pinned_set_len len l =
     (if len > pl_capacity l then (Inl (DataTooLarge (of_nat len) (of_nat (pl_capacity l))), l)
      else (Inr (), l\<lparr>pl_len := len\<rparr>))"

definition pinned_write_structured ::
    "bytes \<Rightarrow> bytes list \<Rightarrow> pinned_loan \<Rightarrow> shm \<Rightarrow> unit result \<times> pinned_loan \<times> shm" where
  "pinned_write_structured header entries l s =
     (let array_size = length (concat entries);
        total = length header + array_size + 4 in
      if total > pl_capacity l
      then (Inl (DataTooLarge (of_nat total) (of_nat (pl_capacity l))), l, s)
      else
        let s' = upd_block (pl_block_idx l)
              (\<lambda>x. x\<lparr>bk_data := structured_bytes header entries array_size (bk_data x)\<rparr>) s;
          (res, l') = pinned_set_len total l
        in (res, l', s'))"

definition clear_sentinel :: "u32 \<Rightarrow> shm \<Rightarrow> shm" where
  "clear_sentinel t s = upd_topic t (\<lambda>e. e\<lparr>te_pinned_readers := 0\<rparr>) s"

definition pinned_publish :: "pinned_loan \<Rightarrow> shm \<Rightarrow> (bool \<times> shm) option" where
  "pinned_publish l s =
     (if pl_len l \<le> unat (- 1 :: u32)
      then let (woke, s') = commit_pinned (of_nat (pl_len l)) (pl_topic_idx l) s
        in Some (woke, clear_sentinel (pl_topic_idx l) s')
      else None)"

definition pinned_drop :: "pinned_loan \<Rightarrow> shm \<Rightarrow> shm" where
  "pinned_drop l s = clear_sentinel (pl_topic_idx l) s"

section \<open>Copy lemmas\<close>

lemma length_overwrite [simp]: "off + length xs \<le> length dst \<Longrightarrow> length (overwrite dst off xs) = length dst"
  by (simp add: overwrite_def)

lemma take_overwrite_0 [simp]: "take (length xs) (overwrite dst 0 xs) = xs"
  by (simp add: overwrite_def)

lemma overwrite_prefix:
  assumes "p + n \<le> length src" "p + n \<le> length d"
  shows "overwrite (take p src @ drop p d) p (take n (drop p src)) = take (p + n) src @ drop (p + n) d"
proof -
  have l: "length (take p src) = p" "length (take n (drop p src)) = n" using assms by simp_all
  have "drop (p + n) (take p src @ drop p d) = drop (n + p) d" using l(1) by simp
  also have "\<dots> = drop (p + n) d" by (simp only: add.commute)
  finally have d: "drop (p + n) (take p src @ drop p d) = drop (p + n) d" .
  show ?thesis unfolding overwrite_def l(2) d using l(1) by (simp add: take_add)
qed

lemma nt_stream_prefix:
  assumes "len \<le> length src" "len \<le> length d" "p \<le> len"
  shows "\<exists>q. nt_stream src p len (take p src @ drop p d) = (q, take q src @ drop q d) \<and> p \<le> q \<and> q \<le> len"
  using assms
proof (induction "len - p" arbitrary: p rule: less_induct)
  case less
  show ?case
  proof (cases "p + 16 \<le> len")
    case True
    then have "overwrite (take p src @ drop p d) p (take 16 (drop p src)) = take (p + 16) src @ drop (p + 16) d"
      using less.prems by (intro overwrite_prefix) simp_all
    moreover have "\<exists>q. nt_stream src (p + 16) len (take (p + 16) src @ drop (p + 16) d) =
        (q, take q src @ drop q d) \<and> p + 16 \<le> q \<and> q \<le> len"
      using True less.prems by (intro less.hyps) simp_all
    ultimately show ?thesis
      using True by (subst nt_stream.simps) auto
  next
    case False
    then show ?thesis using less.prems by (subst nt_stream.simps) auto
  qed
qed

lemma nontemporal_copy_eq:
  assumes "len \<le> length src" "len \<le> length d"
  shows "nontemporal_copy a src d len = take len src @ drop len d"
proof -
  let ?a = "min a len"
  have "(if ?a > 0 then (?a, overwrite d 0 (take ?a src)) else (0, d)) = (?a, take ?a src @ drop ?a d)"
    using assms by (auto simp: overwrite_def min_def)
  moreover obtain q where q: "nt_stream src ?a len (take ?a src @ drop ?a d) = (q, take q src @ drop q d)" "q \<le> len"
    using nt_stream_prefix [OF assms, of ?a] by auto
  moreover have "q < len \<Longrightarrow> overwrite (take q src @ drop q d) q (take (len - q) (drop q src)) = take len src @ drop len d"
    using overwrite_prefix [of q "len - q" src d] assms by simp
  ultimately show ?thesis
    unfolding nontemporal_copy_def Let_def by (auto simp: le_less)
qed

section \<open>Writers stay inside the block\<close>

text \<open>Every block's data area has the size the configuration gives it.\<close>

definition data_wf :: "config \<Rightarrow> shm \<Rightarrow> bool" where
  "data_wf c s \<longleftrightarrow> (\<forall>i < block_count c. length (bk_data (blocks s i)) = unat (data_capacity c))"

definition loan_wf :: "config \<Rightarrow> loan \<Rightarrow> bool" where
  "loan_wf c l \<longleftrightarrow> ln_capacity l = unat (data_capacity c) \<and> ln_len l \<le> ln_capacity l \<and>
     ln_block_idx l < block_count c"

lemma data_wf_upd:
  assumes "data_wf c s" "i < block_count c \<Longrightarrow> length (bk_data (f (blocks s i))) = length (bk_data (blocks s i))"
  shows "data_wf c (upd_block i f s)"
  using assms by (auto simp: data_wf_def)

lemma data_wf_cong:
  "data_wf c s \<Longrightarrow> (\<And>i. bk_data (blocks s' i) = bk_data (blocks s i)) \<Longrightarrow> data_wf c s'"
  by (simp add: data_wf_def)

lemma data_capacity_nat:
  assumes "8 \<le> unat (block_size c)"
  shows "unat (data_capacity c) = unat (block_size c) - 8" "unat (data_capacity c) < 2 ^ 32"
proof -
  show u: "unat (data_capacity c) = unat (block_size c) - 8"
    using assms by (simp add: data_capacity_def BLOCK_DATA_OFFSET_def unat_sub word_le_nat_alt)
  show "unat (data_capacity c) < 2 ^ 32" using unat_u32_less [of "block_size c"] by (simp add: u)
qed

lemma length_structured:
  assumes "length header + length (concat entries) + 4 \<le> length buf"
  shows "length (structured_bytes header entries (length (concat entries)) buf) = length buf"
    and "take (length header + length (concat entries) + 4) (structured_bytes header entries (length (concat entries)) buf) =
      header @ concat entries @ to_le 4 (of_nat (length entries) :: u32)"
proof -
  define b1 where "b1 = overwrite buf 0 header"
  define b2 where "b2 = (if entries \<noteq> [] then overwrite b1 (length header) (concat entries) else b1)"
  have l: "length b1 = length buf" "length b2 = length buf"
    using assms by (simp_all add: b1_def b2_def)
  have "take (length header + length (concat entries)) b2 = header @ concat entries"
    using assms by (simp add: b1_def b2_def overwrite_def)
  moreover have eq: "structured_bytes header entries (length (concat entries)) buf =
      overwrite b2 (length header + length (concat entries)) (to_le 4 (of_nat (length entries) :: u32))"
    by (simp add: structured_bytes_def Let_def b1_def b2_def)
  ultimately show "take (length header + length (concat entries) + 4) (structured_bytes header entries (length (concat entries)) buf) =
      header @ concat entries @ to_le 4 (of_nat (length entries) :: u32)"
    using assms l by (simp add: overwrite_def)
  show "length (structured_bytes header entries (length (concat entries)) buf) = length buf"
    unfolding eq using assms l by (subst length_overwrite) simp_all
qed

section \<open>Properties\<close>

text \<open>A small configuration and a loan of its first block, for the instances below.\<close>

definition small_config :: config where
  "small_config = \<lparr>max_topics = 2, block_count = 4, block_size = 24, ring_depth = 2,
     heartbeat_interval = from_millis 100, stale_timeout = from_secs 5\<rparr>"

definition small_loan :: loan where
  "small_loan = \<lparr>ln_capacity = 16, ln_len = 0, ln_block_idx = 0, ln_topic_idx = 0, ln_single_publisher = True\<rparr>"

lemma small_loan_wf: "loan_wf small_config small_loan" "data_wf small_config (zero_shm small_config)"
  by (simp_all add: loan_wf_def data_wf_def small_loan_def small_config_def zero_shm_def data_capacity_def
      BLOCK_DATA_OFFSET_def as_usize_def)

text \<open>
  \<^bold>\<open>C14.\<close> The streaming copy of large payloads is a plain copy: for any alignment of the
  destination it replaces the first \<open>len\<close> bytes by those of the source and leaves the rest, so
  \<open>set_data\<close> has the same effect with and without streaming stores.
\<close>

theorem nontemporal_copy_is_copy:
  assumes "len \<le> length src" and "len \<le> length dst"
  shows "nontemporal_copy align src dst len = overwrite dst 0 (take len src)"
  using nontemporal_copy_eq [OF assms] assms by (simp add: overwrite_def)

theorem nontemporal_copy_is_copy_witness:
  "nontemporal_copy 3 (replicate 40 1) (replicate 48 0) 40 = overwrite (replicate 48 0) 0 (replicate 40 1)"
  using nontemporal_copy_is_copy [of 40 "replicate 40 1" "replicate 48 0" 3] by simp

text \<open>
  \<^bold>\<open>C15.\<close> The writers of a loan are memory safe and exact.  On a well-formed loan each of
  \<open>set_data\<close>, \<open>write_structured\<close> and \<open>io::Write::write\<close> keeps the loan well-formed and every
  block at its size, leaves all other blocks alone, and either reports the error of the code,
  changing nothing, or leaves exactly the promised bytes at the front of the block (for
  \<open>write\<close>: the accepted part of the input right after what was there).
\<close>

theorem loan_writers_exact:
  assumes "loan_wf c l" and "data_wf c s"
  shows "(case set_data stream align data l s of
       (Inl e, l', s') \<Rightarrow> l' = l \<and> s' = s \<and> ln_capacity l < length data
     | (Inr _, l', s') \<Rightarrow> loan_wf c l' \<and> data_wf c s' \<and> ln_len l' = length data \<and>
         take (ln_len l') (bk_data (blocks s' (ln_block_idx l))) = data \<and>
         (\<forall>i. i \<noteq> ln_block_idx l \<longrightarrow> blocks s' i = blocks s i)) \<and>
    (case write_structured header entries l s of
       (Inl e, l', s') \<Rightarrow> l' = l \<and> s' = s \<and> ln_capacity l < length header + length (concat entries) + 4
     | (Inr _, l', s') \<Rightarrow> loan_wf c l' \<and> data_wf c s' \<and>
         take (ln_len l') (bk_data (blocks s' (ln_block_idx l))) =
           header @ concat entries @ to_le 4 (of_nat (length entries) :: u32) \<and>
         (\<forall>i. i \<noteq> ln_block_idx l \<longrightarrow> blocks s' i = blocks s i)) \<and>
    (case io_write buf l s of
       (None, l', s') \<Rightarrow> l' = l \<and> s' = s \<and> ln_len l = ln_capacity l \<and> buf \<noteq> []
     | (Some n, l', s') \<Rightarrow> loan_wf c l' \<and> data_wf c s' \<and> n = min (length buf) (ln_capacity l - ln_len l) \<and>
         take (ln_len l') (bk_data (blocks s' (ln_block_idx l))) =
           take (ln_len l) (bk_data (blocks s (ln_block_idx l))) @ take n buf \<and>
         (\<forall>i. i \<noteq> ln_block_idx l \<longrightarrow> blocks s' i = blocks s i))"
proof (intro conjI, goal_cases)
  let ?b = "ln_block_idx l"
  have len: "length (bk_data (blocks s ?b)) = ln_capacity l" "ln_len l \<le> ln_capacity l"
    using assms by (simp_all add: loan_wf_def data_wf_def)
  note wf = assms(1) [unfolded loan_wf_def]
  {
    case 1
    show ?case
      using wf len assms(2)
      by (auto simp: set_data_def nontemporal_copy_eq loan_wf_def overwrite_def intro!: data_wf_upd)
  next
    case 2
    show ?case
      using wf len assms(2) length_structured [of header entries "bk_data (blocks s ?b)"]
      by (auto simp: write_structured_def set_len_def Let_def loan_wf_def intro!: data_wf_upd)
  next
    case 3
    show ?case
      using wf len assms(2)
      by (auto simp: io_write_def Let_def loan_wf_def intro!: data_wf_upd) (simp_all add: overwrite_def)
  }
qed

theorem loan_writers_exact_witness:
  "(case set_data False 0 [1, 2, 3] small_loan (zero_shm small_config) of
      (Inl _, _, _) \<Rightarrow> False
    | (Inr _, l', s') \<Rightarrow> ln_len l' = 3 \<and> take 3 (bk_data (blocks s' 0)) = [1, 2, 3])"
  using conjunct1 [OF loan_writers_exact [OF small_loan_wf, where stream = False and align = 0 and data = "[1, 2, 3]"]]
  by (simp add: small_loan_def set_data_def numeral_3_eq_3)

end
