(* ===== verification/Subscription.thy ===== *)
theory Subscription
  imports Loan
begin

text \<open>
  Streams, samples and pinned guards of \<open>src/platform/subscription.rs\<close>.

  A \<open>stream\<close> is the process-local cursor; receiving scans the window of sequence numbers that
  can still be in the ring (\<open>seq_range\<close> from \<open>scan_start\<close>), reads a slot and takes a reference on its block.
  The operations are uninterrupted runs: the compare-and-swap loops succeed at once and the
  second sequence check sees the word the first one saw.
\<close>

section \<open>State\<close>

record stream =
  st_config :: config
  st_topic_idx :: u32
  last_seq :: u64
  type_size :: u32

record sample =
  sm_block_idx :: u32
  sm_len :: nat

record pinned_guard =
  pg_topic_idx :: u32
  pg_block_idx :: u32
  pg_len :: nat

section \<open>Receiving\<close>

text \<open>The inclusive range \<open>a..=b\<close> of sequence numbers.\<close>

definition seq_range :: "u64 \<Rightarrow> u64 \<Rightarrow> u64 list" where
  "seq_range a b = map of_nat [unat a..<Suc (unat b)]"

definition try_read_slot_raw :: "u64 \<Rightarrow> stream \<Rightarrow> shm \<Rightarrow> (u32 \<times> u32) option \<times> stream \<times> shm" where
  "try_read_slot_raw seq st s =
     (let c = st_config st; e = rings s (st_topic_idx st) (ring_slot c seq) in
      if re_seq e \<noteq> seq then (None, st, s)
      else let block_idx = re_block_idx e; data_len = re_data_len e in
        if block_idx = NO_BLOCK then (None, st, s)
        else if block_idx \<ge> block_count c then (None, st, s)
        else if as_usize data_len > data_capacity c then (None, st, s)
        else (case block_refcount_checked c s block_idx of
            None \<Rightarrow> (None, st, s)
          | Some rc \<Rightarrow>
              if rc = 0 then (None, st, s)
              else
                let s' = upd_block block_idx (\<lambda>b. b\<lparr>bk_refcount := rc + 1\<rparr>) s in
                if re_seq (rings s' (st_topic_idx st) (ring_slot c seq)) \<noteq> seq
                then (None, st, release_block c block_idx s')
                else (Some (block_idx, data_len), st\<lparr>last_seq := seq\<rparr>, s')))"

definition try_read_slot :: "u64 \<Rightarrow> stream \<Rightarrow> shm \<Rightarrow> sample option \<times> stream \<times> shm" where
  "try_read_slot seq st s =
     (case try_read_slot_raw seq st s of
        (None, st', s') \<Rightarrow> (None, st', s')
      | (Some (b, n), st', s') \<Rightarrow> (Some \<lparr>sm_block_idx = b, sm_len = unat n\<rparr>, st', s'))"

definition scan_start :: "stream \<Rightarrow> u64 \<Rightarrow> u64" where
  "scan_start st current_seq =
     (let ring_depth = as_u64 (ring_depth (st_config st)); start = last_seq st + 1 in
      if current_seq - start \<ge> ring_depth then current_seq - ring_depth + 1 else start)"

fun scan :: "u64 list \<Rightarrow> stream \<Rightarrow> shm \<Rightarrow> sample option \<times> stream \<times> shm" where
  "scan [] st s = (None, st, s)"
| "scan (seq # seqs) st s =
     (case try_read_slot seq st s of
        (Some guard, st', s') \<Rightarrow> (Some guard, st', s')
      | (None, st', s') \<Rightarrow> scan seqs st' s')"

definition try_recv :: "stream \<Rightarrow> shm \<Rightarrow> sample option \<times> stream \<times> shm" where
  "try_recv st s =
     (let current_seq = te_write_seq (topics s (st_topic_idx st)) in
      if current_seq \<le> last_seq st then (None, st, s)
      else scan (seq_range (scan_start st current_seq) current_seq) st s)"

text \<open>A typed sample is the block index; the value is read at the block's start.\<close>

fun scan_typed :: "u64 list \<Rightarrow> stream \<Rightarrow> shm \<Rightarrow> u32 option \<times> stream \<times> shm" where
  "scan_typed [] st s = (None, st, s)"
| "scan_typed (seq # seqs) st s =
     (case try_read_slot_raw seq st s of
        (Some (b, _), st', s') \<Rightarrow> (Some b, st', s')
      | (None, st', s') \<Rightarrow> scan_typed seqs st' s')"

definition try_recv_typed :: "nat \<Rightarrow> stream \<Rightarrow> shm \<Rightarrow> u32 option \<times> stream \<times> shm" where
  "try_recv_typed size_of_T st s =
     (if type_size st \<noteq> 0 \<and> unat (type_size st) \<noteq> size_of_T then (None, st, s)
      else let current_seq = te_write_seq (topics s (st_topic_idx st)) in
        if current_seq \<le> last_seq st then (None, st, s)
        else scan_typed (seq_range (scan_start st current_seq) current_seq) st s)"

definition try_recv_pinned :: "stream \<Rightarrow> shm \<Rightarrow> pinned_guard option \<times> stream \<times> shm" where
  "try_recv_pinned st s =
     (let c = st_config st; t = st_topic_idx st; packed = te_pinned_seq (topics s t) in
      if packed = 0 then (None, st, s)
      else let seq = drop_bit 32 packed; data_len = as_u32 packed in
        if seq \<le> last_seq st then (None, st, s)
        else let block_idx = te_pinned_block (topics s t) in
          if block_idx = NO_BLOCK then (None, st, s)
          else if block_idx \<ge> block_count c then (None, st, s)
          else let current = te_pinned_readers (topics s t) in
            if current = PINNED_WRITER_ACTIVE then (None, st, s)
            else let s' = upd_topic t (\<lambda>e. e\<lparr>te_pinned_readers := current + 1\<rparr>) s in
              if te_pinned_seq (topics s' t) \<noteq> packed
              then (None, st, upd_topic t (\<lambda>e. e\<lparr>te_pinned_readers := te_pinned_readers e - 1\<rparr>) s')
              else (Some \<lparr>pg_topic_idx = t, pg_block_idx = block_idx, pg_len = unat data_len\<rparr>,
                    st\<lparr>last_seq := seq\<rparr>, s'))"

definition stream_drop :: "stream \<Rightarrow> shm \<Rightarrow> shm" where
  "stream_drop st s =
     upd_topic (st_topic_idx st) (\<lambda>e. e\<lparr>te_subscriber_count := te_subscriber_count e - 1\<rparr>) s"

section \<open>Samples\<close>

definition sample_bytes :: "shm \<Rightarrow> sample \<Rightarrow> bytes" where
  "sample_bytes s m = take (sm_len m) (bk_data (blocks s (sm_block_idx m)))"

text \<open>\<open>base\<close> is the address of the mapping.\<close>

definition data_addr :: "nat \<Rightarrow> config \<Rightarrow> u32 \<Rightarrow> nat" where
  "data_addr base c idx = base + unat (block_ptr (from_raw c) idx) + unat BLOCK_DATA_OFFSET"

definition read_header :: "nat \<Rightarrow> config \<Rightarrow> nat \<Rightarrow> nat \<Rightarrow> shm \<Rightarrow> sample \<Rightarrow> bytes option" where
  "read_header base c size_of_T align_of_T s m =
     (if sm_len m < size_of_T then None
      else if data_addr base c (sm_block_idx m) mod align_of_T \<noteq> 0 then None
      else Some (take size_of_T (bk_data (blocks s (sm_block_idx m)))))"

fun chunks :: "nat \<Rightarrow> nat \<Rightarrow> bytes \<Rightarrow> bytes list" where
  "chunks size_of_E 0 bs = []"
| "chunks size_of_E (Suc n) bs = take size_of_E bs # chunks size_of_E n (drop size_of_E bs)"

definition read_array :: "nat \<Rightarrow> config \<Rightarrow> nat \<Rightarrow> nat \<Rightarrow> nat \<Rightarrow> shm \<Rightarrow> sample \<Rightarrow> bytes list option" where
  "read_array base c header_size entry_size align_of_E s m =
     (if sm_len m < header_size + 4 then None
      else
        let count_offset = sm_len m - 4;
          data = sample_bytes s m;
          cnt = unat (from_le (take 4 (drop count_offset data)) :: u32);
          array_bytes = (of_nat cnt * of_nat entry_size :: usize) in
        if of_nat header_size + array_bytes + 4 \<noteq> (of_nat (sm_len m) :: usize) then None
        else if (data_addr base c (sm_block_idx m) + header_size) mod align_of_E \<noteq> 0 then None
        else Some (chunks entry_size cnt (drop header_size (bk_data (blocks s (sm_block_idx m))))))"

definition sample_drop :: "config \<Rightarrow> sample \<Rightarrow> shm \<Rightarrow> shm" where
  "sample_drop c m s = release_block c (sm_block_idx m) s"

text \<open>
  Dereferencing a typed sample reads \<open>size_of::<T>()\<close> bytes whatever was published: \<open>None\<close>
  when that leaves the block's data area.
\<close>

definition typed_sample_value :: "nat \<Rightarrow> shm \<Rightarrow> u32 \<Rightarrow> bytes option" where
  "typed_sample_value size_of_T s b =
     (if size_of_T \<le> length (bk_data (blocks s b)) then Some (take size_of_T (bk_data (blocks s b))) else None)"

definition typed_sample_drop :: "config \<Rightarrow> u32 \<Rightarrow> shm \<Rightarrow> shm" where
  "typed_sample_drop c b s = release_block c b s"

definition pinned_guard_bytes :: "shm \<Rightarrow> pinned_guard \<Rightarrow> bytes option" where
  "pinned_guard_bytes s g =
     (if pg_len g \<le> length (bk_data (blocks s (pg_block_idx g)))
      then Some (take (pg_len g) (bk_data (blocks s (pg_block_idx g)))) else None)"

definition pinned_guard_drop :: "pinned_guard \<Rightarrow> shm \<Rightarrow> shm" where
  "pinned_guard_drop g s =
     upd_topic (pg_topic_idx g) (\<lambda>e. e\<lparr>te_pinned_readers := te_pinned_readers e - 1\<rparr>) s"

section \<open>The scan window\<close>

text \<open>The oldest sequence number still inside the ring's window, or the next unread one.\<close>

definition window_start :: "nat \<Rightarrow> nat \<Rightarrow> nat \<Rightarrow> nat" where
  "window_start d l w = max (l + 1) (w + 1 - d)"

lemma scan_start_nat:
  assumes "last_seq st < w" "0 < ring_depth (st_config st)"
  shows "unat (scan_start st w) = window_start (unat (ring_depth (st_config st))) (unat (last_seq st)) (unat w)"
proof -
  let ?d = "as_u64 (ring_depth (st_config st))" and ?l = "last_seq st"
  have lw: "unat ?l < unat w" using assms(1) by (simp add: word_less_nat_alt)
  then have l1: "unat (?l + 1) = unat ?l + 1"
    using unat_u64_less [of w] by (simp add: unat_word_ariths)
  have d: "0 < unat ?d" using assms(2) by (simp add: word_less_nat_alt)
  have sub: "unat (w - (?l + 1)) = unat w - (unat ?l + 1)"
    using lw l1 by (simp add: unat_sub word_le_nat_alt)
  show ?thesis
  proof (cases "w - (?l + 1) \<ge> ?d")
    case True
    then have ge: "unat ?d \<le> unat w - (unat ?l + 1)" by (simp add: word_le_nat_alt sub)
    then have wd: "unat (w - ?d) = unat w - unat ?d" by (simp add: unat_sub word_le_nat_alt)
    then have "unat (w - ?d + 1) = unat w - unat ?d + 1"
      using d ge unat_u64_less [of w] by (simp add: unat_word_ariths)
    with True ge d show ?thesis by (simp add: scan_start_def Let_def window_start_def)
  next
    case False
    then have "unat w - (unat ?l + 1) < unat ?d" by (simp add: word_le_nat_alt sub)
    with False l1 show ?thesis by (simp add: scan_start_def Let_def window_start_def)
  qed
qed

lemma set_seq_range: "q \<in> set (seq_range a b) \<longleftrightarrow> a \<le> q \<and> q \<le> b"
proof
  assume "q \<in> set (seq_range a b)"
  then obtain k where k: "q = of_nat k" "unat a \<le> k" "k \<le> unat b"
    by (auto simp: seq_range_def less_Suc_eq_le)
  then have "k < 2 ^ 64" using unat_u64_less [of b] by simp
  then have "unat q = k" using k(1) by (simp add: unat_of_nat)
  with k show "a \<le> q \<and> q \<le> b" by (simp add: word_le_nat_alt)
next
  assume "a \<le> q \<and> q \<le> b"
  then have "unat q \<in> {unat a..<Suc (unat b)}" by (simp add: word_le_nat_alt less_Suc_eq_le)
  moreover have "q = of_nat (unat q)" by simp
  ultimately show "q \<in> set (seq_range a b)" unfolding seq_range_def by (metis image_eqI set_map set_upt)
qed

section \<open>Reading a slot\<close>

text \<open>When a slot can be read: it carries the sequence number and names a live block.\<close>

definition slot_ready :: "config \<Rightarrow> u32 \<Rightarrow> u64 \<Rightarrow> shm \<Rightarrow> bool" where
  "slot_ready c t seq s \<longleftrightarrow>
     (let e = rings s t (ring_slot c seq) in
      re_seq e = seq \<and> re_block_idx e \<noteq> NO_BLOCK \<and> re_block_idx e < block_count c \<and>
      as_usize (re_data_len e) \<le> data_capacity c \<and> refcount s (re_block_idx e) \<noteq> 0)"

lemma try_read_slot_raw_eq:
  "try_read_slot_raw seq st s =
     (let c = st_config st; e = rings s (st_topic_idx st) (ring_slot c seq); b = re_block_idx e in
      if slot_ready c (st_topic_idx st) seq s
      then (Some (b, re_data_len e), st\<lparr>last_seq := seq\<rparr>, upd_block b (\<lambda>x. x\<lparr>bk_refcount := refcount s b + 1\<rparr>) s)
      else (None, st, s))"
  by (auto simp: try_read_slot_raw_def slot_ready_def Let_def block_refcount_checked_def not_le not_less)

lemma try_read_slot_eq:
  "try_read_slot seq st s =
     (let c = st_config st; e = rings s (st_topic_idx st) (ring_slot c seq); b = re_block_idx e in
      if slot_ready c (st_topic_idx st) seq s
      then (Some \<lparr>sm_block_idx = b, sm_len = unat (re_data_len e)\<rparr>, st\<lparr>last_seq := seq\<rparr>,
            upd_block b (\<lambda>x. x\<lparr>bk_refcount := refcount s b + 1\<rparr>) s)
      else (None, st, s))"
  by (simp add: try_read_slot_def try_read_slot_raw_eq Let_def)

text \<open>The scan reads the first ready slot of the window and changes nothing else.\<close>

lemma scan_eq:
  "scan seqs st s =
     (case find (\<lambda>q. slot_ready (st_config st) (st_topic_idx st) q s) seqs of
        None \<Rightarrow> (None, st, s) | Some q \<Rightarrow> try_read_slot q st s)"
  by (induction seqs) (auto simp: try_read_slot_eq Let_def)

lemma scan_typed_eq:
  "scan_typed seqs st s =
     (case find (\<lambda>q. slot_ready (st_config st) (st_topic_idx st) q s) seqs of
        None \<Rightarrow> (None, st, s)
      | Some q \<Rightarrow> let b = re_block_idx (rings s (st_topic_idx st) (ring_slot (st_config st) q)) in
          (Some b, st\<lparr>last_seq := q\<rparr>, upd_block b (\<lambda>x. x\<lparr>bk_refcount := refcount s b + 1\<rparr>) s))"
  by (induction seqs) (auto simp: try_read_slot_raw_eq Let_def)

lemma find_first_Some:
  assumes "find P xs = Some x"
  shows "P x" "x \<in> set xs"
  using assms by (auto simp: find_Some_iff in_set_conv_nth)

section \<open>Structured payloads\<close>

lemma chunks_concat:
  "\<forall>e \<in> set es. length e = n \<Longrightarrow> chunks n (length es) (concat es @ rest) = es"
  by (induction es) auto

lemma length_concat_const: "\<forall>e \<in> set es. length e = n \<Longrightarrow> length (concat es) = length es * n"
  by (induction es) auto

lemma read_back:
  assumes len: "sm_len m = length hdr + length es * n + 4" and es: "\<forall>e \<in> set es. length e = n"
    and small: "length es < 2 ^ 32"
    and data: "take (sm_len m) (bk_data (blocks s (sm_block_idx m))) =
      hdr @ concat es @ to_le 4 (of_nat (length es) :: u32)"
  shows "data_addr base c (sm_block_idx m) mod al = 0 \<Longrightarrow>
      read_header base c (length hdr) al s m = Some hdr"
    and "(data_addr base c (sm_block_idx m) + length hdr) mod ae = 0 \<Longrightarrow>
      read_array base c (length hdr) n ae s m = Some es"
proof -
  let ?d = "bk_data (blocks s (sm_block_idx m))" and ?cnt = "to_le 4 (of_nat (length es) :: u32)"
  have lc: "length (concat es) = length es * n" by (rule length_concat_const [OF es])
  have split: "?d = hdr @ concat es @ ?cnt @ drop (sm_len m) ?d"
    using append_take_drop_id [of "sm_len m" ?d] unfolding data by simp
  have "take (length hdr) ?d = hdr" by (subst split) simp
  then show "data_addr base c (sm_block_idx m) mod al = 0 \<Longrightarrow>
      read_header base c (length hdr) al s m = Some hdr"
    using len by (simp add: read_header_def)
  have "take 4 (drop (sm_len m - 4) (sample_bytes s m)) = ?cnt"
    unfolding sample_bytes_def data using len lc by simp
  then have cnt: "unat (from_le (take 4 (drop (sm_len m - 4) (sample_bytes s m))) :: u32) = length es"
    using small by (simp add: unat_of_nat)
  have sz: "(of_nat (length hdr) + of_nat (length es) * of_nat n + 4 :: usize) = of_nat (sm_len m)"
    by (simp add: len)
  have "chunks n (length es) (drop (length hdr) ?d) = es"
    by (subst split) (simp add: chunks_concat [OF es])
  then show "(data_addr base c (sm_block_idx m) + length hdr) mod ae = 0 \<Longrightarrow>
      read_array base c (length hdr) n ae s m = Some es"
    using len unfolding read_array_def Let_def cnt sz by simp
qed

section \<open>Properties\<close>

text \<open>
  \<^bold>\<open>C16.\<close> Structured payloads round-trip.  After \<open>write_structured\<close> succeeded on a loan, a sample
  of the same block with the loan's length reads back the same header and the same entries,
  provided the block and the array are aligned for their types; nothing between the write and
  the read has to be known but that the block's bytes are still there.
\<close>

theorem structured_roundtrip:
  assumes "loan_wf c l" and "data_wf c s"
    and "write_structured hdr es l s = (Inr (), l', s')"
    and "\<forall>e \<in> set es. length e = n" and "length es < 2 ^ 32"
    and "m = \<lparr>sm_block_idx = ln_block_idx l, sm_len = ln_len l'\<rparr>"
    and "bk_data (blocks s'' (ln_block_idx l)) = bk_data (blocks s' (ln_block_idx l))"
    and "data_addr base c (ln_block_idx l) mod al = 0"
    and "(data_addr base c (ln_block_idx l) + length hdr) mod ae = 0"
  shows "read_header base c (length hdr) al s'' m = Some hdr \<and>
    read_array base c (length hdr) n ae s'' m = Some es"
proof -
  let ?b = "ln_block_idx l" and ?t = "length hdr + length (concat es) + 4"
  have cap: "length (bk_data (blocks s ?b)) = ln_capacity l"
    using assms(1,2) by (simp add: loan_wf_def data_wf_def)
  from assms(3) have t: "?t \<le> ln_capacity l" and l': "ln_len l' = ?t"
    and s': "bk_data (blocks s' ?b) = structured_bytes hdr es (length (concat es)) (bk_data (blocks s ?b))"
    by (auto simp: write_structured_def set_len_def Let_def split: if_splits)
  have data: "take (sm_len m) (bk_data (blocks s'' (sm_block_idx m))) =
      hdr @ concat es @ to_le 4 (of_nat (length es) :: u32)"
    using length_structured(2) [of hdr es "bk_data (blocks s ?b)"] t cap
    by (simp add: assms(6,7) l' s')
  have "sm_len m = length hdr + length es * n + 4"
    by (simp add: assms(6) l' length_concat_const [OF assms(4)])
  from read_back [OF this assms(4,5) data] assms(6,8,9) show ?thesis by simp
qed

theorem structured_roundtrip_witness:
  "\<exists>l' s'. write_structured [7, 8] [[1, 2], [3, 4]] small_loan (zero_shm small_config) = (Inr (), l', s') \<and>
     read_array 0 small_config 2 2 2 s' \<lparr>sm_block_idx = 0, sm_len = ln_len l'\<rparr> = Some [[1, 2], [3, 4]]"
proof -
  obtain l' s' where w: "write_structured [7, 8] [[1, 2], [3, 4]] small_loan (zero_shm small_config) = (Inr (), l', s')"
    by (simp add: write_structured_def small_loan_def set_len_def Let_def)
  have b: "ln_block_idx small_loan = 0" by (simp add: small_loan_def)
  have "data_addr 0 small_config 0 mod 2 = 0"
    by (simp add: data_addr_def block_ptr_def from_raw_def block_pool_offset_def block_pool_offset_checked_def
        checked_mul_def checked_add_def small_config_def BLOCK_DATA_OFFSET_def ring_base_def size_consts as_usize_def)
  then show ?thesis
    using structured_roundtrip [OF small_loan_wf w, of 2 "\<lparr>sm_block_idx = 0, sm_len = ln_len l'\<rparr>" s' 0 2 2] w
    by (simp add: b flip: numeral_2_eq_2)
qed

end
