(* ===== verification/Publisher.thy ===== *)
theory Publisher
  imports Registry Subscription
begin

text \<open>
  The publisher of \<open>src/platform/shm.rs\<close> and \<open>Subscriber::subscribe\<close>: topic registration,
  allocation through the publisher's local cache, loans, and what dropping a publisher returns
  to the pool.

  The \<open>publisher\<close> record is the process-local handle.  Its \<open>Region\<close> carries the recycling hint.
  The monotonic clock is an argument \<open>now\<close> (nanoseconds), the wall clock an argument \<open>clk\<close>,
  the process id an argument \<open>pid\<close>; the registry is \<open>None\<close> when it cannot be opened.
\<close>

section \<open>State\<close>

record publisher =
  pub_region :: region
  pub_name :: string
  created_ino :: "u64 option"
  is_owner :: bool
  pub_id :: u64
  last_heartbeat :: nat
  loan_count :: u32
  block_cache :: "u32 list"
  cache_len :: u8
  pinned_blocks :: "u32 list"

abbreviation pub_config :: "publisher \<Rightarrow> config" where
  "pub_config p \<equiv> rg_config (pub_region p)"

section \<open>Allocation\<close>

text \<open>
  The refill loop: take blocks from the pool until the cache is full or the pool is empty;
  the flag is \<open>False\<close> when the free list is found corrupt.
\<close>

function refill :: "config \<Rightarrow> u32 list \<Rightarrow> u8 \<Rightarrow> shm \<Rightarrow> bool \<times> u32 list \<times> u8 \<times> shm" where
  "refill c cache len s =
     (if unat len < 8 then
        (case alloc_block c s of
           (Inr (Some idx), s') \<Rightarrow> refill c (cache[unat len := idx]) (len + 1) s'
         | (Inr None, s') \<Rightarrow> (True, cache, len, s')
         | (Inl (), s') \<Rightarrow> (False, cache, len, s'))
      else (True, cache, len, s))"
  by pat_completeness auto
termination
  by (relation "measure (\<lambda>(c, cache, len, s). 8 - unat len)") (auto simp: unat_word_ariths)

declare refill.simps [simp del]

definition pop_cache :: "publisher \<Rightarrow> u32 option \<times> publisher" where
  "pop_cache p =
     (if cache_len p > 0 then
        let p' = p\<lparr>cache_len := cache_len p - 1\<rparr> in (Some (block_cache p' ! unat (cache_len p')), p')
      else (None, p))"

definition alloc_cached :: "publisher \<Rightarrow> shm \<Rightarrow> u32 option result \<times> publisher \<times> shm" where
  "alloc_cached p s =
     (let (rec, r') = alloc_recycled (pub_region p); p = p\<lparr>pub_region := r'\<rparr> in
      case rec of
        Some idx \<Rightarrow> (Inr (Some idx), p, s)
      | None \<Rightarrow>
          (case pop_cache p of
             (Some idx, p') \<Rightarrow> (Inr (Some idx), p', s)
           | (None, _) \<Rightarrow>
               let (ok, cache, len, s') = refill (pub_config p) (block_cache p) (cache_len p) s;
                 p' = p\<lparr>block_cache := cache, cache_len := len\<rparr> in
               if \<not> ok
               then (Inl (RegionCorrupted ''free-list contains out-of-bounds block index''), p', s')
               else let (res, p'') = pop_cache p' in (Inr res, p'', s')))"

text \<open>Every 1024th loan refreshes the heartbeat when the interval has passed.\<close>

definition loan_heartbeat :: "nat \<Rightarrow> clock \<Rightarrow> publisher \<Rightarrow> shm \<Rightarrow> publisher \<times> shm" where
  "loan_heartbeat now clk p s =
     (if loan_count p AND 0x3FF = 0 \<and> now - last_heartbeat p \<ge> heartbeat_interval (pub_config p)
      then (case update_heartbeat clk s of
          (Inr _, s') \<Rightarrow> (p\<lparr>last_heartbeat := now\<rparr>, s')
        | (Inl _, s') \<Rightarrow> (p, s'))
      else (p, s))"

definition loan_preamble ::
    "nat \<Rightarrow> clock \<Rightarrow> topic_handle \<Rightarrow> publisher \<Rightarrow> shm \<Rightarrow> (u32 \<times> u32) result \<times> publisher \<times> shm" where
  "loan_preamble now clk h p s =
     (if publisher_id h \<noteq> pub_id p then (Inl HandleMismatch, p, s)
      else
        let (p, s) = loan_heartbeat now clk (p\<lparr>loan_count := loan_count p + 1\<rparr>) s in
        (case alloc_cached p s of
           (Inl e, p', s') \<Rightarrow> (Inl e, p', s')
         | (Inr None, p', s') \<Rightarrow> (Inl PoolExhausted, p', s')
         | (Inr (Some b), p', s') \<Rightarrow> (Inr (b, topic_idx h), p', s')))"

section \<open>Loans\<close>

definition loan :: "nat \<Rightarrow> clock \<Rightarrow> topic_handle \<Rightarrow> publisher \<Rightarrow> shm \<Rightarrow> loan result \<times> publisher \<times> shm" where
  "loan now clk h p s =
     (case loan_preamble now clk h p s of
        (Inl e, p', s') \<Rightarrow> (Inl e, p', s')
      | (Inr (b, t), p', s') \<Rightarrow>
          (Inr \<lparr>ln_capacity = unat (data_capacity (pub_config p')), ln_len = 0, ln_block_idx = b,
                ln_topic_idx = t, ln_single_publisher = is_owner p'\<rparr>, p', s'))"

definition loan_typed ::
    "nat \<Rightarrow> clock \<Rightarrow> topic_handle \<Rightarrow> publisher \<Rightarrow> shm \<Rightarrow> typed_loan result \<times> publisher \<times> shm" where
  "loan_typed now clk h p s =
     (case loan_preamble now clk h p s of
        (Inl e, p', s') \<Rightarrow> (Inl e, p', s')
      | (Inr (b, t), p', s') \<Rightarrow>
          (Inr \<lparr>tl_block_idx = b, tl_topic_idx = t, tl_single_publisher = is_owner p'\<rparr>, p', s'))"

text \<open>
  \<open>loan_pinned\<close> in its two parts: the topic's pinned block, allocated on first use, and the
  claim of the writer sentinel.
\<close>

definition pinned_block_for :: "u32 \<Rightarrow> publisher \<Rightarrow> shm \<Rightarrow> u32 result \<times> publisher \<times> shm" where
  "pinned_block_for t p s =
     (if pinned_blocks p ! unat t \<noteq> NO_BLOCK then (Inr (pinned_blocks p ! unat t), p, s)
      else (case alloc_cached p s of
          (Inl e, p', s') \<Rightarrow> (Inl e, p', s')
        | (Inr None, p', s') \<Rightarrow> (Inl PoolExhausted, p', s')
        | (Inr (Some idx), p', s') \<Rightarrow>
            (Inr idx, p'\<lparr>pinned_blocks := (pinned_blocks p')[unat t := idx]\<rparr>, set_pinned_block t idx s')))"

definition loan_pinned :: "topic_handle \<Rightarrow> publisher \<Rightarrow> shm \<Rightarrow> pinned_loan result \<times> publisher \<times> shm" where
  "loan_pinned h p s =
     (if publisher_id h \<noteq> pub_id p then (Inl HandleMismatch, p, s)
      else let t = topic_idx h in
        if unat t \<ge> length (pinned_blocks p)
        then (Inl (InvalidRegion (''topic_idx '' @ show_u32 t @ '' >= max_topics '' @ dec (length (pinned_blocks p)))), p, s)
        else (case pinned_block_for t p s of
            (Inl e, p', s') \<Rightarrow> (Inl e, p', s')
          | (Inr b, p', s') \<Rightarrow>
              let current = te_pinned_readers (topics s' t) in
              if current = 0
              then (Inr \<lparr>pl_capacity = unat (data_capacity (pub_config p')), pl_len = 0, pl_block_idx = b, pl_topic_idx = t\<rparr>,
                    p', upd_topic t (\<lambda>e. e\<lparr>te_pinned_readers := PINNED_WRITER_ACTIVE\<rparr>) s')
              else (Inl (PinnedReadersActive (if current = PINNED_WRITER_ACTIVE then 0 else current) t), p', s')))"

text \<open>
  The one-call \<open>publish\<close>.  When the data does not fit, returning the error drops the loan, which
  frees its block.  The outer \<open>None\<close> is the panic of the length assertion.
\<close>

definition publish ::
    "nat \<Rightarrow> clock \<Rightarrow> bool \<Rightarrow> nat \<Rightarrow> topic_handle \<Rightarrow> bytes \<Rightarrow> publisher \<Rightarrow> shm \<Rightarrow>
     (bool result \<times> publisher \<times> shm) option" where
  "publish now clk stream align h data p s =
     (case loan now clk h p s of
        (Inl e, p', s') \<Rightarrow> Some (Inl e, p', s')
      | (Inr l, p', s') \<Rightarrow>
          (case set_data stream align data l s' of
             (Inl e, l', s'') \<Rightarrow> Some (Inl e, p', loan_drop (pub_config p') l' s'')
           | (Inr _, l', s'') \<Rightarrow>
               (case loan_publish l' (pub_region p', s'') of
                  None \<Rightarrow> None
                | Some (woke, r, s3) \<Rightarrow> Some (Inr woke, p'\<lparr>pub_region := r\<rparr>, s3))))"

definition publish_typed ::
    "nat \<Rightarrow> clock \<Rightarrow> topic_handle \<Rightarrow> bytes \<Rightarrow> publisher \<Rightarrow> shm \<Rightarrow> (bool result \<times> publisher \<times> shm) option" where
  "publish_typed now clk h value p s =
     (case loan_typed now clk h p s of
        (Inl e, p', s') \<Rightarrow> Some (Inl e, p', s')
      | (Inr l, p', s') \<Rightarrow>
          (case send value l (pub_region p', s') of
             None \<Rightarrow> None
           | Some (woke, r, s'') \<Rightarrow> Some (Inr woke, p'\<lparr>pub_region := r\<rparr>, s'')))"

section \<open>Topics\<close>

definition topic_matches :: "string \<Rightarrow> topic_entry \<Rightarrow> bool" where
  "topic_matches uri e \<longleftrightarrow>
     te_active e = TE_STATE_ACTIVE \<and> te_uri_hash e = uri_hash uri \<and>
     unat (te_uri_len e) = length uri \<and> take (length uri) (te_uri e) = as_bytes uri"

definition init_topic :: "string \<Rightarrow> u32 \<Rightarrow> topic_entry \<Rightarrow> topic_entry" where
  "init_topic uri tsize e =
     e\<lparr>te_active := TE_STATE_ACTIVE, te_uri_hash := uri_hash uri, te_uri_len := of_nat (length uri),
       te_uri := as_bytes uri @ drop (length uri) (te_uri e), te_write_seq := 0, te_type_size := tsize\<rparr>"

definition register_inner ::
    "clock \<Rightarrow> u32 \<Rightarrow> string \<Rightarrow> u32 \<Rightarrow> publisher \<Rightarrow> shm \<Rightarrow> registry option \<Rightarrow>
     topic_handle result \<times> shm \<times> registry option" where
  "register_inner clk pid uri tsize p s reg =
     (if length uri > unat TE_URI_MAX
      then (Inl (UriTooLong (of_nat (length uri)) TE_URI_MAX), s, reg)
      else (case find (\<lambda>i. topic_matches uri (topics s i)) (range_u32 (max_topics (pub_config p))) of
          Some i \<Rightarrow> (Inr \<lparr>topic_idx = i, publisher_id = pub_id p\<rparr>, s, reg)
        | None \<Rightarrow>
            (case find (\<lambda>i. te_active (topics s i) = TE_STATE_FREE) (range_u32 (max_topics (pub_config p))) of
               Some i \<Rightarrow>
                 (Inr \<lparr>topic_idx = i, publisher_id = pub_id p\<rparr>, upd_topic i (init_topic uri tsize) s,
                  map_option (registry_register clk (pub_name p) uri pid) reg)
             | None \<Rightarrow> (Inl MaxTopicsReached, s, reg))))"

definition register ::
    "clock \<Rightarrow> u32 \<Rightarrow> string \<Rightarrow> publisher \<Rightarrow> shm \<Rightarrow> registry option \<Rightarrow> topic_handle result \<times> shm \<times> registry option" where
  "register clk pid uri p s reg = register_inner clk pid uri 0 p s reg"

definition register_typed ::
    "nat \<Rightarrow> nat \<Rightarrow> clock \<Rightarrow> u32 \<Rightarrow> string \<Rightarrow> publisher \<Rightarrow> shm \<Rightarrow> registry option \<Rightarrow>
     topic_handle result \<times> shm \<times> registry option" where
  "register_typed size_of_T align_of_T clk pid uri p s reg =
     (if align_of_T > 8 then (Inl (AlignmentError (of_nat align_of_T) 8), s, reg)
      else register_inner clk pid uri (of_nat size_of_T) p s reg)"

definition subscribe :: "config \<Rightarrow> string \<Rightarrow> shm \<Rightarrow> stream result \<times> shm" where
  "subscribe c uri s =
     (case find (\<lambda>i. topic_matches uri (topics s i)) (range_u32 (max_topics c)) of
        Some i \<Rightarrow>
          (Inr \<lparr>st_config = c, st_topic_idx = i, last_seq = te_write_seq (topics s i),
                type_size = te_type_size (topics s i)\<rparr>,
           upd_topic i (\<lambda>e. e\<lparr>te_subscriber_count := te_subscriber_count e + 1\<rparr>) s)
      | None \<Rightarrow> (Inl (TopicNotFound uri), s))"

definition subscriber_count :: "topic_handle \<Rightarrow> publisher \<Rightarrow> shm \<Rightarrow> u32 result" where
  "subscriber_count h p s =
     (if publisher_id h \<noteq> pub_id p then Inl HandleMismatch
      else Inr (te_subscriber_count (topics s (topic_idx h))))"

section \<open>Heartbeat and drop\<close>

definition pub_heartbeat :: "nat \<Rightarrow> clock \<Rightarrow> publisher \<Rightarrow> shm \<Rightarrow> unit result \<times> publisher \<times> shm" where
  "pub_heartbeat now clk p s =
     (case update_heartbeat clk s of
        (Inl e, s') \<Rightarrow> (Inl e, p, s')
      | (Inr _, s') \<Rightarrow> (Inr (), p\<lparr>last_heartbeat := now\<rparr>, s'))"

definition free_recycled :: "publisher \<Rightarrow> shm \<Rightarrow> shm" where
  "free_recycled p s =
     (case fst (alloc_recycled (pub_region p)) of
        Some idx \<Rightarrow> free_block (pub_config p) idx s
      | None \<Rightarrow> s)"

text \<open>The result also says whether the segment file is removed; \<open>ino\<close> is its current identity.\<close>

definition publisher_drop ::
    "u32 \<Rightarrow> u64 option \<Rightarrow> publisher \<Rightarrow> shm \<Rightarrow> registry option \<Rightarrow> bool \<times> shm \<times> registry option" where
  "publisher_drop pid ino p s reg =
     (let reg = map_option (unregister (pub_name p) pid) reg;
        s = fold (\<lambda>blk s. if blk \<noteq> NO_BLOCK then free_block (pub_config p) blk s else s) (pinned_blocks p) s;
        s = free_recycled p s;
        s = fold (\<lambda>blk. free_block (pub_config p) blk) (take (unat (cache_len p)) (block_cache p)) s
      in (is_owner p \<and> created_ino p \<noteq> None \<and> created_ino p = ino, s, reg))"

section \<open>What a publisher holds\<close>

text \<open>The blocks a publisher keeps outside the pool: recycling hint, cache and pinned blocks.\<close>

definition cached :: "publisher \<Rightarrow> u32 multiset" where
  "cached p = mset (take (unat (cache_len p)) (block_cache p))"

definition pinned :: "publisher \<Rightarrow> u32 multiset" where
  "pinned p = mset (filter (\<lambda>b. b \<noteq> NO_BLOCK) (pinned_blocks p))"

definition held :: "publisher \<Rightarrow> u32 multiset" where
  "held p = recycled (pub_region p) + cached p + pinned p"

definition pub_wf :: "config \<Rightarrow> publisher \<Rightarrow> bool" where
  "pub_wf c p \<longleftrightarrow> pub_config p = c \<and> length (block_cache p) = 8 \<and> unat (cache_len p) \<le> 8 \<and>
     length (pinned_blocks p) = unat (max_topics c)"

text \<open>Two memories that differ at most in the free list.\<close>

definition same_but_pool :: "shm \<Rightarrow> shm \<Rightarrow> bool" where
  "same_but_pool s s' \<longleftrightarrow> topics s' = topics s \<and> rings s' = rings s \<and>
     (\<forall>i. bk_data (blocks s' i) = bk_data (blocks s i) \<and> refcount s' i = refcount s i)"

lemma same_but_pool_refl [simp]: "same_but_pool s s"
  by (simp add: same_but_pool_def)

lemma same_but_pool_trans: "same_but_pool s s' \<Longrightarrow> same_but_pool s' s'' \<Longrightarrow> same_but_pool s s''"
  by (simp add: same_but_pool_def)

lemma same_but_pool_alloc: "alloc_block c s = (res, s') \<Longrightarrow> same_but_pool s s'"
  by (auto simp: alloc_block_def same_but_pool_def Let_def case_prod_unfold split: if_splits)

lemma same_but_pool_free: "same_but_pool s (free_block c x s)"
  by (simp add: same_but_pool_def)

lemma refill_acct:
  assumes "refill c cache len s = (ok, cache', len', s')"
    and "acct c s (J + mset (take (unat len) cache)) S" "length cache = 8" "unat len \<le> 8"
  shows "ok \<and> acct c s' (J + mset (take (unat len') cache')) S \<and> length cache' = 8 \<and> unat len' \<le> 8 \<and>
    same_but_pool s s' \<and> (unat len' < 8 \<longrightarrow> free_list c s' [])"
  using assms
proof (induction c cache len s rule: refill.induct)
  case (1 c cache len s)
  show ?case
  proof (cases "unat len < 8")
    case False
    with 1(2-) show ?thesis by (simp add: refill.simps [of c cache len])
  next
    case True
    obtain res s1 where al: "alloc_block c s = (res, s1)" by (cases "alloc_block c s")
    from acct_alloc [OF 1(3) al] consider (some) x where "res = Inr (Some x)"
        "acct c s1 (add_mset x (J + mset (take (unat len) cache))) S"
      | (none) "res = Inr None" "s1 = s" "free_list c s []" by blast
    then show ?thesis
    proof cases
      case some
      have len1: "unat (len + 1) = unat len + 1" using True by (simp add: unat_word_ariths)
      have "take (unat (len + 1)) (cache[unat len := x]) = take (unat len) cache @ [x]"
        using True 1(4) unfolding len1 by (simp add: take_Suc_conv_app_nth)
      then have "acct c s1 (J + mset (take (unat (len + 1)) (cache[unat len := x]))) S"
        using some(2) by simp
      moreover have "refill c (cache[unat len := x]) (len + 1) s1 = (ok, cache', len', s')"
        using 1(2) True al some(1) by (simp add: refill.simps [of c cache len])
      ultimately have "ok \<and> acct c s' (J + mset (take (unat len') cache')) S \<and> length cache' = 8 \<and> unat len' \<le> 8 \<and>
          same_but_pool s1 s' \<and> (unat len' < 8 \<longrightarrow> free_list c s' [])"
        using 1(1) [OF True al [symmetric] some(1) refl] 1(4) True len1 by simp
      then show ?thesis using same_but_pool_trans [OF same_but_pool_alloc [OF al]] by blast
    next
      case none
      with 1(2-) True al show ?thesis by (simp add: refill.simps [of c cache len])
    qed
  qed
qed

lemma pop_cache_acct:
  assumes "pop_cache p = (res, p')" "pub_wf c p"
  shows "pub_wf c p'" "pub_region p' = pub_region p" "pinned p' = pinned p"
    "(case res of Some x \<Rightarrow> cached p = add_mset x (cached p') | None \<Rightarrow> p' = p \<and> cache_len p = 0)"
proof -
  have "cached p = add_mset (block_cache p ! unat (cache_len p - 1)) (cached (p\<lparr>cache_len := cache_len p - 1\<rparr>))"
    if "0 < cache_len p"
  proof -
    have "cache_len p \<noteq> 0" using that by auto
    then have u: "unat (cache_len p - 1) = unat (cache_len p) - 1" by (rule unat_minus_one)
    have "0 < unat (cache_len p)" using that by (simp add: word_less_nat_alt)
    then obtain k where k: "unat (cache_len p) = Suc k" by (cases "unat (cache_len p)") auto
    with assms(2) have "k < length (block_cache p)" by (simp add: pub_wf_def)
    then show ?thesis by (simp add: cached_def u k take_Suc_conv_app_nth)
  qed
  moreover have "unat (cache_len p - 1) \<le> 8" if "0 < cache_len p"
    using that assms(2) unat_minus_one [of "cache_len p"] by (auto simp: pub_wf_def)
  ultimately show "pub_wf c p'" "pub_region p' = pub_region p" "pinned p' = pinned p"
    "(case res of Some x \<Rightarrow> cached p = add_mset x (cached p') | None \<Rightarrow> p' = p \<and> cache_len p = 0)"
    using assms by (auto simp: pop_cache_def Let_def pub_wf_def pinned_def word_gt_0 split: if_splits)
qed

text \<open>The fields an allocation never changes.\<close>

definition same_identity :: "publisher \<Rightarrow> publisher \<Rightarrow> bool" where
  "same_identity p p' \<longleftrightarrow> pub_config p' = pub_config p \<and> pub_name p' = pub_name p \<and> is_owner p' = is_owner p \<and>
     pub_id p' = pub_id p \<and> created_ino p' = created_ino p"

lemma same_identity_refl [simp]: "same_identity p p"
  by (simp add: same_identity_def)

lemma pop_cache_identity: "pop_cache p = (res, p') \<Longrightarrow> same_identity p p' \<and> pinned_blocks p' = pinned_blocks p"
  by (auto simp: pop_cache_def same_identity_def Let_def split: if_splits)

lemma alloc_recycled_cases:
  assumes "alloc_recycled r = (res, r')"
  shows "(\<exists>x. res = Some x \<and> recycled r = {#x#}) \<or> (res = None \<and> recycled r = {#})"
    and "recycled r' = {#}" "rg_config r' = rg_config r"
  using assms by (auto simp: alloc_recycled_def recycled_def Let_def split: if_splits)

lemma alloc_cached_acct:
  assumes al: "alloc_cached p s = (res, p', s')" and wf: "pub_wf c p" and a: "acct c s (J + held p) S"
  shows "pub_wf c p' \<and> same_identity p p' \<and> pinned_blocks p' = pinned_blocks p \<and> same_but_pool s s' \<and>
    ((\<exists>x. res = Inr (Some x) \<and> acct c s' (add_mset x (J + held p')) S) \<or>
     (res = Inr None \<and> acct c s' (J + held p') S \<and> free_list c s' [] \<and> held p' = pinned p'))"
proof -
  obtain rec r where ar: "alloc_recycled (pub_region p) = (rec, r)" by (cases "alloc_recycled (pub_region p)")
  note rc = alloc_recycled_cases [OF ar]
  define q where "q = p\<lparr>pub_region := r\<rparr>"
  have q: "pub_wf c q" "cached q = cached p" "pinned q = pinned p" "recycled (pub_region q) = {#}"
    "same_identity p q" "pinned_blocks q = pinned_blocks p" "pub_config q = c"
    using wf rc(2,3) by (simp_all add: q_def pub_wf_def cached_def pinned_def same_identity_def)
  have hq: "held q = cached p + pinned p" by (simp add: held_def q)
  consider (rec) x where "rec = Some x" "recycled (pub_region p) = {#x#}"
    | (cache) x q' where "rec = None" "recycled (pub_region p) = {#}" "pop_cache q = (Some x, q')"
    | (refill) q' where "rec = None" "recycled (pub_region p) = {#}" "pop_cache q = (None, q')"
    using rc(1) by (cases "pop_cache q") (metis not_Some_eq)
  then show ?thesis
  proof cases
    case rec
    then have "res = Inr (Some x)" "p' = q" "s' = s"
      using al ar by (simp_all add: alloc_cached_def q_def)
    with rec q hq a show ?thesis by (simp add: held_def)
  next
    case cache
    then have e: "res = Inr (Some x)" "p' = q'" "s' = s"
      using al ar by (simp_all add: alloc_cached_def q_def)
    have "held p = add_mset x (held q')"
      using pop_cache_acct [OF cache(3) q(1)] cache(2) q by (simp add: held_def)
    with e a q pop_cache_acct(1) [OF cache(3) q(1)] pop_cache_identity [OF cache(3)] show ?thesis
      by (auto simp: same_identity_def)
  next
    case refill
    obtain ok ca len s1 where rf: "refill c (block_cache q) (cache_len q) s = (ok, ca, len, s1)"
      by (metis prod_cases4)
    define u where "u = q\<lparr>block_cache := ca, cache_len := len\<rparr>"
    have "acct c s ((J + pinned p) + mset (take (unat (cache_len q)) (block_cache q))) S"
      using a refill(2) q(2) by (simp add: held_def cached_def ac_simps)
    from refill_acct [OF rf this] q(1) have rfa: "ok" "acct c s1 (J + pinned p + cached u) S" "pub_wf c u"
      "same_but_pool s s1" "unat len < 8 \<longrightarrow> free_list c s1 []"
      by (simp_all add: pub_wf_def u_def cached_def)
    obtain rs u' where pc: "pop_cache u = (rs, u')" by (cases "pop_cache u")
    have e: "res = Inr rs" "p' = u'" "s' = s1"
      using al ar refill rf rfa(1) pc q(7) by (simp_all add: alloc_cached_def q_def [symmetric] u_def)
    have u: "recycled (pub_region u) = {#}" "pinned u = pinned p" "same_identity p u" "pinned_blocks u = pinned_blocks p"
      using q by (simp_all add: u_def pinned_def same_identity_def)
    note pu = pop_cache_acct [OF pc rfa(3)] pop_cache_identity [OF pc]
    have id: "pub_wf c p' \<and> same_identity p p' \<and> pinned_blocks p' = pinned_blocks p \<and> same_but_pool s s'"
      using pu u(3,4) rfa(4) e by (simp add: same_identity_def)
    have h: "held p' = cached u' + pinned p" using pu(2,3) u e by (simp add: held_def)
    show ?thesis
    proof (cases rs)
      case None
      then have "u' = u" "cache_len u = 0" using pu(4) by simp_all
      then have "cached u' = {#}" "unat len < 8" by (simp_all add: cached_def u_def)
      with id rfa(2,5) e None h u \<open>u' = u\<close> show ?thesis by simp
    next
      case (Some x)
      then have "cached u = add_mset x (cached u')" using pu(4) by simp
      with id rfa(2) e Some h show ?thesis by (simp add: ac_simps)
    qed
  qed
qed

lemma update_heartbeat_frame:
  assumes "update_heartbeat clk s = (res, s')"
  shows "same_but_pool s s'" "acct c s I S \<Longrightarrow> acct c s' I S" "data_wf c s \<Longrightarrow> data_wf c s'"
proof -
  have f: "topics s' = topics s" "rings s' = rings s" "blocks s' = blocks s" "pool_head s' = pool_head s"
    using assms by (auto simp: update_heartbeat_def split: sum.splits)
  then show "same_but_pool s s'" by (simp add: same_but_pool_def)
  show "acct c s I S \<Longrightarrow> acct c s' I S" by (rule acct_cong) (simp_all add: f)
  show "data_wf c s \<Longrightarrow> data_wf c s'" by (simp add: data_wf_def f)
qed

lemma data_wf_same: "same_but_pool s s' \<Longrightarrow> data_wf c s \<Longrightarrow> data_wf c s'"
  by (simp add: same_but_pool_def data_wf_def)

lemma loan_heartbeat_acct:
  assumes hb: "loan_heartbeat now clk p s = (q, u)" and wf: "pub_wf c p" and a: "acct c s I S"
  shows "pub_wf c q" "held q = held p" "same_identity p q" "pinned_blocks q = pinned_blocks p" "same_but_pool s u"
    "acct c u I S"
proof -
  obtain hr hs where uh: "update_heartbeat clk s = (hr, hs)" by (cases "update_heartbeat clk s")
  have "(q, u) = (p, s) \<or> (q, u) = (p, hs) \<or> (q, u) = (p\<lparr>last_heartbeat := now\<rparr>, hs)"
  proof (cases "loan_count p AND 0x3FF = 0 \<and> now - last_heartbeat p \<ge> heartbeat_interval (pub_config p)")
    case True
    then show ?thesis
      using hb unfolding loan_heartbeat_def uh by (cases hr) (simp_all only: if_True prod.case sum.case simp_thms)
  next
    case False
    then show ?thesis using hb unfolding loan_heartbeat_def by (simp only: if_False simp_thms)
  qed
  then have u: "u = s \<or> u = hs" and q: "q = p \<or> q = p\<lparr>last_heartbeat := now\<rparr>" by blast+
  from u show "same_but_pool s u" using update_heartbeat_frame(1) [OF uh] by auto
  from u show "acct c u I S" using update_heartbeat_frame(2) [OF uh a] a by blast
  define f where "f = (\<lambda>p :: publisher. p\<lparr>last_heartbeat := now\<rparr>)"
  have f: "pub_wf c (f p)" "held (f p) = held p" "same_identity p (f p)" "pinned_blocks (f p) = pinned_blocks p"
    using wf by (simp_all add: f_def pub_wf_def held_def cached_def pinned_def same_identity_def)
  have "q = p \<or> q = f p" using q by (simp add: f_def)
  then show "pub_wf c q" "held q = held p" "same_identity p q" "pinned_blocks q = pinned_blocks p"
    using wf f by (elim disjE; simp)+
qed

lemma loan_preamble_acct:
  assumes lp: "loan_preamble now clk h p s = (res, p', s')" and wf: "pub_wf c p" and a: "acct c s (J + held p) S"
  shows "pub_wf c p' \<and> same_identity p p' \<and> pinned_blocks p' = pinned_blocks p \<and> same_but_pool s s' \<and>
    (case res of
       Inr (b, t) \<Rightarrow> t = topic_idx h \<and> publisher_id h = pub_id p \<and> acct c s' (add_mset b (J + held p')) S
     | Inl e \<Rightarrow> acct c s' (J + held p') S \<and> e \<in> {HandleMismatch, PoolExhausted})"
proof (cases "publisher_id h = pub_id p")
  case False
  with lp wf a show ?thesis by (auto simp: loan_preamble_def)
next
  case True
  let ?p = "p\<lparr>loan_count := loan_count p + 1\<rparr>"
  have p: "pub_wf c ?p" "held ?p = held p" using wf by (simp_all add: pub_wf_def held_def cached_def pinned_def)
  obtain q u where qu: "loan_heartbeat now clk ?p s = (q, u)" by (cases "loan_heartbeat now clk ?p s")
  note Q = loan_heartbeat_acct [OF qu p(1) a]
  obtain ar p1 s1 where al: "alloc_cached q u = (ar, p1, s1)" by (metis prod_cases3)
  have aq: "acct c u (J + held q) S" using Q(2,6) p(2) by simp
  note C = alloc_cached_acct [OF al Q(1) aq]
  have A: "pub_wf c p1" "same_identity p p1" "pinned_blocks p1 = pinned_blocks p" "same_but_pool s s1"
    using C Q(3,4) same_but_pool_trans [OF Q(5)] by (simp_all add: same_identity_def)
  from C consider (some) x where "ar = Inr (Some x)" "acct c s1 (add_mset x (J + held p1)) S"
    | (none) "ar = Inr None" "acct c s1 (J + held p1) S" by blast
  then show ?thesis
  proof cases
    case some
    then have "res = Inr (x, topic_idx h)" "p' = p1" "s' = s1"
      using lp True qu al by (simp_all add: loan_preamble_def)
    with A some True show ?thesis by simp
  next
    case none
    then have "res = Inl PoolExhausted" "p' = p1" "s' = s1"
      using lp True qu al by (simp_all add: loan_preamble_def)
    with A none show ?thesis by simp
  qed
qed

lemma loan_acct:
  assumes ln: "loan now clk h p s = (res, p', s')" and wf: "pub_wf c p" and a: "acct c s (J + held p) S"
  shows "pub_wf c p' \<and> same_identity p p' \<and> pinned_blocks p' = pinned_blocks p \<and> same_but_pool s s' \<and>
    (case res of
       Inr l \<Rightarrow> ln_topic_idx l = topic_idx h \<and> publisher_id h = pub_id p \<and> ln_len l = 0 \<and>
         loan_wf c l \<and> acct c s' (add_mset (ln_block_idx l) (J + held p')) S
     | Inl e \<Rightarrow> acct c s' (J + held p') S \<and> e \<in> {HandleMismatch, PoolExhausted})"
proof -
  obtain r p1 s1 where lp: "loan_preamble now clk h p s = (r, p1, s1)" by (metis prod_cases3)
  note A = loan_preamble_acct [OF lp wf a]
  show ?thesis
  proof (cases r)
    case (Inl e)
    with A lp ln show ?thesis by (auto simp: loan_def)
  next
    case (Inr bt)
    obtain b t where bt: "bt = (b, t)" by (cases bt)
    from A have "acct c s1 (add_mset b (J + held p1)) S" by (simp add: Inr bt)
    then have "b < block_count c" by (rule acct_idle(1)) simp
    with A lp ln Inr bt show ?thesis by (auto simp: loan_def loan_wf_def pub_wf_def)
  qed
qed

lemma loan_typed_acct:
  assumes ln: "loan_typed now clk h p s = (res, p', s')" and wf: "pub_wf c p" and a: "acct c s (J + held p) S"
  shows "pub_wf c p' \<and> same_identity p p' \<and> pinned_blocks p' = pinned_blocks p \<and> same_but_pool s s' \<and>
    (case res of
       Inr l \<Rightarrow> tl_topic_idx l = topic_idx h \<and> publisher_id h = pub_id p \<and>
         acct c s' (add_mset (tl_block_idx l) (J + held p')) S
     | Inl e \<Rightarrow> acct c s' (J + held p') S \<and> e \<in> {HandleMismatch, PoolExhausted})"
proof -
  obtain r p1 s1 where lp: "loan_preamble now clk h p s = (r, p1, s1)" by (metis prod_cases3)
  note A = loan_preamble_acct [OF lp wf a]
  show ?thesis using A lp ln by (cases r) (auto simp: loan_typed_def)
qed

section \<open>Dropping a publisher\<close>

lemma acct_free_all:
  assumes "acct c s (J + mset xs) S"
  shows "acct c (fold (free_block c) xs s) J S"
  using assms by (induction xs arbitrary: s) (simp_all add: acct_free)

lemma fold_free_pinned:
  "fold (\<lambda>blk s. if blk \<noteq> NO_BLOCK then free_block c blk s else s) xs s =
     fold (free_block c) (filter (\<lambda>b. b \<noteq> NO_BLOCK) xs) s"
  by (induction xs arbitrary: s) simp_all

lemma free_recycled_acct:
  assumes "acct (pub_config p) s (J + recycled (pub_region p)) S"
  shows "acct (pub_config p) (free_recycled p s) J S"
proof -
  obtain res r where r: "alloc_recycled (pub_region p) = (res, r)" by (cases "alloc_recycled (pub_region p)")
  from alloc_recycled_cases(1) [OF r] assms show ?thesis
    by (auto simp: free_recycled_def r acct_free)
qed

lemma same_but_pool_fold: "same_but_pool s (fold (free_block c) xs s)"
  by (induction xs arbitrary: s) (auto intro: same_but_pool_trans [OF same_but_pool_free])

lemma publisher_drop_acct:
  assumes "publisher_drop pid ino p s reg = (removed, s', reg')" "acct (pub_config p) s (J + held p) S"
  shows "acct (pub_config p) s' J S" "same_but_pool s s'"
proof -
  let ?c = "pub_config p" and ?ca = "take (unat (cache_len p)) (block_cache p)"
  define s1 where "s1 = fold (free_block ?c) (filter (\<lambda>b. b \<noteq> NO_BLOCK) (pinned_blocks p)) s"
  define s2 where "s2 = free_recycled p s1"
  have s': "s' = fold (free_block ?c) ?ca s2"
    using assms(1) by (simp add: publisher_drop_def Let_def fold_free_pinned s1_def s2_def)
  have "acct ?c s1 (J + cached p + recycled (pub_region p)) S"
    unfolding s1_def by (rule acct_free_all) (use assms(2) in \<open>simp add: held_def pinned_def ac_simps\<close>)
  then have "acct ?c s2 (J + cached p) S" unfolding s2_def by (rule free_recycled_acct)
  then show "acct ?c s' J S" unfolding s' by (intro acct_free_all) (simp add: cached_def)
  have "same_but_pool s s1" unfolding s1_def by (rule same_but_pool_fold)
  moreover have "same_but_pool s1 s2"
    by (simp add: s2_def free_recycled_def same_but_pool_free split: option.splits)
  moreover have "same_but_pool s2 s'" unfolding s' by (rule same_but_pool_fold)
  ultimately show "same_but_pool s s'" by (metis same_but_pool_trans)
qed

section \<open>Pinned blocks\<close>

lemma filter_update_mset:
  assumes "i < length xs" "xs ! i = z" "b \<noteq> z"
  shows "mset (filter (\<lambda>x. x \<noteq> z) (xs[i := b])) = add_mset b (mset (filter (\<lambda>x. x \<noteq> z) xs))"
  using assms by (induction xs arbitrary: i) (auto split: nat.splits)

lemma set_pinned_block_frame [simp]:
  "rings (set_pinned_block t b s) = rings s" "blocks (set_pinned_block t b s) = blocks s"
  "pool_head (set_pinned_block t b s) = pool_head s"
  by (simp_all add: set_pinned_block_def)

lemma acct_upd_topic: "acct c s I S \<Longrightarrow> acct c (upd_topic t f s) I S"
  by (rule acct_cong) simp_all

lemma pinned_block_for_acct:
  assumes pb: "pinned_block_for t p s = (res, p', s')" and wf: "pub_wf c p" and a: "acct c s (J + held p) S"
    and t: "t < max_topics c"
  shows "pub_wf c p' \<and> same_identity p p' \<and> acct c s' (J + held p') S \<and> rings s' = rings s \<and>
    (\<forall>i. bk_data (blocks s' i) = bk_data (blocks s i)) \<and>
    (\<forall>i. te_write_seq (topics s' i) = te_write_seq (topics s i) \<and> te_active (topics s' i) = te_active (topics s i)) \<and>
    (\<forall>b. res = Inr b \<longrightarrow> b \<noteq> NO_BLOCK \<and> pinned_blocks p' ! unat t = b \<and> b \<in># held p')"
proof (cases "pinned_blocks p ! unat t = NO_BLOCK")
  case False
  have "unat t < length (pinned_blocks p)" using t wf by (simp add: pub_wf_def word_less_nat_alt)
  then have "pinned_blocks p ! unat t \<in># held p" using False by (simp add: held_def pinned_def)
  with False pb wf a show ?thesis by (auto simp: pinned_block_for_def)
next
  case True
  obtain ar p1 s1 where al: "alloc_cached p s = (ar, p1, s1)" by (metis prod_cases3)
  note C = alloc_cached_acct [OF al wf a]
  have F: "rings s1 = rings s" "\<And>i. bk_data (blocks s1 i) = bk_data (blocks s i)" "topics s1 = topics s"
    using C by (simp_all add: same_but_pool_def)
  from C consider (some) x where "ar = Inr (Some x)" "acct c s1 (add_mset x (J + held p1)) S"
    | (none) "ar = Inr None" "acct c s1 (J + held p1) S" by blast
  then show ?thesis
  proof cases
    case none
    with pb True al C F show ?thesis by (auto simp: pinned_block_for_def)
  next
    case (some x)
    let ?q = "p1\<lparr>pinned_blocks := (pinned_blocks p1)[unat t := x]\<rparr>"
    have r: "res = Inr x" "p' = ?q" "s' = set_pinned_block t x s1"
      using pb True al some(1) by (simp_all add: pinned_block_for_def)
    have i: "unat t < length (pinned_blocks p1)" "pinned_blocks p1 ! unat t = NO_BLOCK"
      using C t True wf by (simp_all add: pub_wf_def word_less_nat_alt)
    have "x < block_count c" by (rule acct_idle(1) [OF some(2)]) simp
    then have x: "x \<noteq> NO_BLOCK" by (rule index_not_NO_BLOCK)
    have "pinned ?q = add_mset x (pinned p1)"
      using filter_update_mset [OF i x] by (simp add: pinned_def)
    then have h: "held ?q = add_mset x (held p1)" by (simp add: held_def cached_def)
    have "acct c (set_pinned_block t x s1) (J + held ?q) S"
      using some(2) unfolding h set_pinned_block_def by (simp add: acct_upd_topic)
    moreover have "pub_wf c ?q" "same_identity p ?q" using C by (auto simp: pub_wf_def same_identity_def)
    ultimately show ?thesis
      using r x F i(1) h by (simp add: set_pinned_block_def)
  qed
qed

section \<open>Registration and subscription\<close>

lemma find_range_Some:
  "find P (range_u32 n) = Some i \<Longrightarrow> P i \<and> i < n \<and> (\<forall>j < i. \<not> P j)"
proof -
  assume "find P (range_u32 n) = Some i"
  then obtain k where k: "k < unat n" "P (of_nat k)" "i = of_nat k" "\<forall>j < k. \<not> P (range_u32 n ! j)"
    by (auto simp: find_Some_iff nth_range_u32)
  have u: "unat i = k" using k(1,3) by (simp add: unat_of_nat_below)
  have "\<not> P j" if "j < i" for j
  proof -
    have j: "unat j < k" using that by (simp add: word_less_nat_alt u)
    then have "range_u32 n ! unat j = j" using k(1) by (simp add: nth_range_u32)
    with k(4) j show ?thesis by metis
  qed
  with k u show ?thesis by (auto simp: word_less_nat_alt)
qed

lemma find_range_None: "find P (range_u32 n) = None \<longleftrightarrow> (\<forall>i < n. \<not> P i)"
  by (auto simp: find_None_iff)

lemma init_topic_matches:
  assumes "length uri \<le> 64"
  shows "topic_matches uri (init_topic uri n e)"
  using assms by (simp add: topic_matches_def init_topic_def unat_of_nat)

section \<open>Properties\<close>

text \<open>A publisher just opened on a region: nothing cached, nothing pinned.\<close>

definition fresh_publisher :: "config \<Rightarrow> string \<Rightarrow> u64 \<Rightarrow> bool \<Rightarrow> publisher" where
  "fresh_publisher c name ident owner =
     \<lparr>pub_region = from_raw c, pub_name = name, created_ino = None, is_owner = owner, pub_id = ident,
      last_heartbeat = 0, loan_count = 0, block_cache = replicate 8 0, cache_len = 0,
      pinned_blocks = replicate (unat (max_topics c)) NO_BLOCK\<rparr>"

lemma fresh_publisher_wf: "pub_wf c (fresh_publisher c name ident owner)" "held (fresh_publisher c name ident owner) = {#}"
  by (simp_all add: fresh_publisher_def pub_wf_def from_raw_def held_def cached_def pinned_def recycled_def)

abbreviation small_shm :: shm where
  "small_shm \<equiv> init_rings small_config (init_free_list small_config (zero_shm small_config))"

abbreviation small_pub :: publisher where
  "small_pub \<equiv> fresh_publisher small_config ''market'' 1 True"

lemma small_config_simps [simp]:
  "block_count small_config = 4" "max_topics small_config = 2" "ring_depth small_config = 2"
  "block_size small_config = 24"
  by (simp_all add: small_config_def)

lemma small_acct: "acct small_config small_shm {#} {#}"
  by (rule acct_init) simp

text \<open>
  \<^bold>\<open>C17.\<close> A publisher's allocator is exact.  With the accounting invariant, \<open>alloc_cached\<close> never
  reports corruption; a block it returns was idle and is now held by the caller alone; and it
  reports exhaustion only when the pool's free list, the cache and the recycling hint are all
  empty.  Everything but the pool and the publisher's own cache is left alone.
\<close>

theorem alloc_cached_exact:
  assumes "pub_wf c p" and "acct c s (J + held p) S" and "alloc_cached p s = (res, p', s')"
  shows "pub_wf c p' \<and> same_identity p p' \<and> pinned_blocks p' = pinned_blocks p \<and> same_but_pool s s' \<and>
    ((\<exists>x. res = Inr (Some x) \<and> refcount s' x = 0 \<and> x \<notin># J + held p' + S + ring_blocks c s' \<and>
        acct c s' (add_mset x (J + held p')) S) \<or>
     (res = Inr None \<and> acct c s' (J + held p') S \<and> free_list c s' [] \<and> held p' = pinned p'))"
proof -
  have "refcount s' x = 0 \<and> x \<notin># J + held p' + S + ring_blocks c s'"
    if "acct c s' (add_mset x (J + held p')) S" for x
    using acct_idle [OF that, of x] by (auto simp: not_in_iff)
  then show ?thesis using alloc_cached_acct [OF assms(3,1,2)] by blast
qed

theorem alloc_cached_exact_witness:
  "\<exists>x p' s'. alloc_cached small_pub small_shm = (Inr (Some x), p', s') \<and> acct small_config s' (add_mset x (held p')) {#}"
proof -
  obtain res p' s' where al: "alloc_cached small_pub small_shm = (res, p', s')" by (metis prod_cases3)
  have a: "acct small_config small_shm ({#} + held small_pub) {#}" by (simp add: fresh_publisher_wf small_acct)
  note X = alloc_cached_exact [OF fresh_publisher_wf(1) a al]
  have "refcount small_shm 0 = 0" by (simp add: init_rings_eq init_blocks init_block_def)
  then have rc: "refcount s' 0 = 0" using X by (simp add: same_but_pool_def)
  have "res \<noteq> Inr None"
  proof
    assume "res = Inr None"
    then have fl: "free_list small_config s' []" and A: "acct small_config s' (held p') {#}" and "held p' = pinned p'"
      and "pinned_blocks p' = pinned_blocks small_pub"
      using X by auto
    from this(3,4) have "held p' = {#}" by (simp add: pinned_def fresh_publisher_def)
    with A have A0: "acct small_config s' {#} {#}" by simp
    obtain fs where fs: "free_list small_config s' fs"
      "\<And>i. i < block_count small_config \<Longrightarrow> count (mset fs) i + count {#} i = vacant (refcount s' i)"
      using A0 by (rule acctE) blast
    have "fs = []" using free_list_functional [OF fs(1) fl] .
    with fs(2) [of 0] rc show False by simp
  qed
  with X al show ?thesis by auto
qed

text \<open>
  \<^bold>\<open>C18.\<close> Registration and subscription agree.  When registering a URI succeeds, the handle's
  topic is inside the table and belongs to the publisher, subscribing to the URI finds that
  same topic and starts at its current sequence number, and registering the URI again returns
  the same handle and changes nothing.  A URI is refused exactly when it is longer than 64
  bytes, or unknown while no topic slot is free.
\<close>

theorem register_then_subscribe:
  assumes "register_inner clk pid uri tsize p s reg = (res, s', reg')"
  shows "case res of
      Inr h \<Rightarrow> publisher_id h = pub_id p \<and> topic_idx h < max_topics (pub_config p) \<and>
        (\<exists>st s''. subscribe (pub_config p) uri s' = (Inr st, s'') \<and> st_topic_idx st = topic_idx h \<and>
           last_seq st = te_write_seq (topics s' (topic_idx h))) \<and>
        (\<forall>clk' tsize' reg''. register_inner clk' pid uri tsize' p s' reg'' = (Inr h, s', reg''))
    | Inl e \<Rightarrow> s' = s \<and> reg' = reg \<and>
        (e = UriTooLong (of_nat (length uri)) TE_URI_MAX \<and> 64 < length uri \<or>
         e = MaxTopicsReached \<and>
           (\<forall>i < max_topics (pub_config p). \<not> topic_matches uri (topics s i) \<and> te_active (topics s i) \<noteq> TE_STATE_FREE))"
proof -
  let ?n = "max_topics (pub_config p)"
  have mx: "unat TE_URI_MAX = 64" by (simp add: TE_URI_MAX_def)
  consider (long) "64 < length uri"
    | (known) i where "length uri \<le> 64" "find (\<lambda>i. topic_matches uri (topics s i)) (range_u32 ?n) = Some i"
    | (new) i where "length uri \<le> 64" "find (\<lambda>i. topic_matches uri (topics s i)) (range_u32 ?n) = None"
        "find (\<lambda>i. te_active (topics s i) = TE_STATE_FREE) (range_u32 ?n) = Some i"
    | (full) "length uri \<le> 64" "find (\<lambda>i. topic_matches uri (topics s i)) (range_u32 ?n) = None"
        "find (\<lambda>i. te_active (topics s i) = TE_STATE_FREE) (range_u32 ?n) = None"
    by (metis not_le option.exhaust)
  then show ?thesis
  proof cases
    case long
    with assms show ?thesis by (auto simp: register_inner_def mx)
  next
    case known
    with assms have "res = Inr \<lparr>topic_idx = i, publisher_id = pub_id p\<rparr>" "s' = s" "reg' = reg"
      by (simp_all add: register_inner_def mx)
    with known find_range_Some [OF known(2)] show ?thesis
      by (simp add: subscribe_def register_inner_def mx)
  next
    case new
    with assms have r: "res = Inr \<lparr>topic_idx = i, publisher_id = pub_id p\<rparr>"
      and s': "s' = upd_topic i (init_topic uri tsize) s"
      by (simp_all add: register_inner_def mx)
    have i: "i < ?n" using find_range_Some [OF new(3)] by simp
    let ?P = "\<lambda>i. topic_matches uri (topics s' i)"
    have m: "?P i" using new(1) by (simp add: s' init_topic_matches)
    have others: "\<not> ?P j" if "j < ?n" "j \<noteq> i" for j
      using that new(2) by (simp add: s' find_range_None)
    have f: "find ?P (range_u32 ?n) = Some i"
    proof (cases "find ?P (range_u32 ?n)")
      case None
      with m i show ?thesis unfolding find_range_None by blast
    next
      case (Some k)
      with find_range_Some [OF Some] others show ?thesis by blast
    qed
    show ?thesis
      using f i new(1) by (simp add: r subscribe_def register_inner_def mx)
  next
    case full
    with assms show ?thesis by (auto simp: register_inner_def mx find_range_None)
  qed
qed

theorem register_then_subscribe_witness:
  "\<exists>h s' reg' st s''. register_inner None 7 ''/tick'' 0 small_pub small_shm None = (Inr h, s', reg') \<and>
     subscribe small_config ''/tick'' s' = (Inr st, s'') \<and> st_topic_idx st = topic_idx h"
proof -
  obtain res s' reg' where r: "register_inner None 7 ''/tick'' 0 small_pub small_shm None = (res, s', reg')"
    by (metis prod_cases3)
  have c: "pub_config small_pub = small_config" by (simp add: fresh_publisher_def from_raw_def)
  have t: "topics small_shm = (\<lambda>_. zero_topic)"
    by (simp add: init_rings_eq) (simp add: init_free_list_def fold_upd_block_frame zero_shm_def)
  have "te_active (topics small_shm 0) = TE_STATE_FREE" "(0 :: u32) < max_topics small_config"
    by (simp_all only: t zero_topic_def topic_entry.simps TE_STATE_FREE_def small_config_simps) simp
  then have "\<not> (\<exists>e. res = Inl e)"
    using register_then_subscribe [OF r] unfolding c by auto
  then obtain h where "res = Inr h" by (cases res) auto
  with register_then_subscribe [OF r] r show ?thesis unfolding c by auto
qed

end
