(* ===== verification/Segment.thy ===== *)
theory Segment
  imports Names Publisher
begin

text \<open>
  The life of a segment file (\<open>src/platform/shm.rs\<close>): \<open>Publisher::create\<close> and \<open>open\<close>,
  \<open>Subscriber::connect\<close>, and the header check they share.  A file is its length, the 128 bytes
  of its header and the structured view of the rest.  The plain header fields are bytes, written
  by \<open>write_header\<close> and read by \<open>header_config\<close>; the two atomics of the header are fields of
  \<open>shm\<close>.

  The outcome of each call to the operating system is an argument: an error text, an \<open>ELOOP\<close> when
  the path is a symbolic link, or success.  So every theorem holds whatever the system answers.
  Stores and loads are little-endian, as on every target the crate names.
\<close>

section \<open>Files\<close>

record segment =
  sg_header :: bytes
  sg_len :: nat
  sg_shm :: shm

datatype os_error = ELOOP string | OsError string

fun os_text :: "os_error \<Rightarrow> string" where
  "os_text (ELOOP e) = e"
| "os_text (OsError e) = e"

text \<open>\<open>map_err\<close> of the two \<open>open\<close> calls: a symbolic link is refused by name on Unix.\<close>

fun open_error :: "target_os \<Rightarrow> string \<Rightarrow> os_error \<Rightarrow> error" where
  "open_error os path (ELOOP e) =
     (if os = Windows then Io e else SegmentNameInvalid (''SHM path is a symlink (possible attack): '' @ path))"
| "open_error os path (OsError e) = Io e"

definition exclusive_lock :: "bool \<Rightarrow> string \<Rightarrow> unit result" where
  "exclusive_lock ok name = (if \<not> ok then Inl (LockContention name) else Inr ())"

definition shared_lock :: "bool \<Rightarrow> string \<Rightarrow> unit result" where
  "shared_lock ok name = (if \<not> ok then Inl (LockContention name) else Inr ())"

text \<open>The mapping's length; \<open>map_err\<close> and \<open>meta_err\<close> are the system's answers to \<open>mmap\<close> and \<open>fstat\<close>.\<close>

definition from_file_with_len :: "string option \<Rightarrow> nat \<Rightarrow> nat result" where
  "from_file_with_len map_err len =
     (if len = 0 then Inl (Io ''mmap length must be > 0'')
      else case map_err of Some e \<Rightarrow> Inl (Io e) | None \<Rightarrow> Inr len)"

definition from_file :: "string option \<Rightarrow> string option \<Rightarrow> nat \<Rightarrow> nat result" where
  "from_file meta_err map_err len =
     (case meta_err of Some e \<Rightarrow> Inl (Io e) | None \<Rightarrow> from_file_with_len map_err len)"

text \<open>The process-wide counter is an argument and comes back advanced; \<open>thread\<close> is the thread id's debug text.\<close>

definition generate_publisher_id :: "u64 \<Rightarrow> u32 \<Rightarrow> string \<Rightarrow> u64 \<times> u64" where
  "generate_publisher_id counter pid thread =
     (let h = foldl (\<lambda>h b. (h XOR ucast (b :: u8)) * 0x100000001b3) 0xcbf29ce484222325 (map of_char thread)
      in (as_u64 pid XOR counter XOR h, counter + 1))"

section \<open>The header\<close>

definition GH_MAGIC :: nat where "GH_MAGIC = 0"
definition GH_VERSION :: nat where "GH_VERSION = 8"
definition GH_MAX_TOPICS :: nat where "GH_MAX_TOPICS = 0x0C"
definition GH_BLOCK_COUNT :: nat where "GH_BLOCK_COUNT = 0x10"
definition GH_BLOCK_SIZE :: nat where "GH_BLOCK_SIZE = 0x14"
definition GH_RING_DEPTH :: nat where "GH_RING_DEPTH = 0x18"
definition GH_PID :: nat where "GH_PID = 0x30"
definition GH_STALE_TIMEOUT_US :: nat where "GH_STALE_TIMEOUT_US = 0x38"

lemmas gh_consts = GH_MAGIC_def GH_VERSION_def GH_MAX_TOPICS_def GH_BLOCK_COUNT_def GH_BLOCK_SIZE_def
  GH_RING_DEPTH_def GH_PID_def GH_STALE_TIMEOUT_US_def

abbreviation store_u32 :: "nat \<Rightarrow> u32 \<Rightarrow> bytes \<Rightarrow> bytes" where
  "store_u32 off v h \<equiv> overwrite h off (to_le 4 v)"

abbreviation store_u64 :: "nat \<Rightarrow> u64 \<Rightarrow> bytes \<Rightarrow> bytes" where
  "store_u64 off v h \<equiv> overwrite h off (to_le 8 v)"

abbreviation load_u32 :: "nat \<Rightarrow> bytes \<Rightarrow> u32" where
  "load_u32 off h \<equiv> from_le (take 4 (drop off h))"

abbreviation load_u64 :: "nat \<Rightarrow> bytes \<Rightarrow> u64" where
  "load_u64 off h \<equiv> from_le (take 8 (drop off h))"

definition write_header :: "config \<Rightarrow> u32 \<Rightarrow> bytes \<Rightarrow> bytes" where
  "write_header c pid h =
     (let h = overwrite h GH_MAGIC MAGIC;
        h = store_u32 GH_VERSION VERSION h;
        h = store_u32 GH_MAX_TOPICS (max_topics c) h;
        h = store_u32 GH_BLOCK_COUNT (block_count c) h;
        h = store_u32 GH_BLOCK_SIZE (block_size c) h;
        h = store_u32 GH_RING_DEPTH (ring_depth c) h;
        h = store_u64 GH_PID (as_u64 pid) h
      in store_u64 GH_STALE_TIMEOUT_US (of_nat (as_micros (stale_timeout c))) h)"

definition header_config :: "bytes \<Rightarrow> config" where
  "header_config h =
     config_default\<lparr>max_topics := load_u32 GH_MAX_TOPICS h, block_count := load_u32 GH_BLOCK_COUNT h,
       block_size := load_u32 GH_BLOCK_SIZE h, ring_depth := load_u32 GH_RING_DEPTH h,
       stale_timeout := from_micros (unat (load_u64 GH_STALE_TIMEOUT_US h))\<rparr>"

section \<open>Opening\<close>

record os_open =
  oo_open :: "os_error + segment"
  oo_meta :: "string option"
  oo_map :: "string option"

definition check_header_config :: "config \<Rightarrow> unit result" where
  "check_header_config c =
     (if block_size c < as_u32 BLOCK_DATA_OFFSET + 1
      then Inl (InvalidRegion (''header block_size '' @ show_u32 (block_size c) @ '' too small''))
      else if \<not> is_power_of_two (ring_depth c) \<or> ring_depth c = 0
      then Inl (InvalidRegion (''header ring_depth '' @ show_u32 (ring_depth c) @ '' is not a power of 2''))
      else if block_count c = 0 then Inl (InvalidRegion ''header block_count is 0'')
      else if max_topics c = 0 then Inl (InvalidRegion ''header max_topics is 0'')
      else if max_topics c > MAX_TOPICS_LIMIT
      then Inl (InvalidRegion (''header max_topics '' @ show_u32 (max_topics c) @ '' exceeds limit '' @ show_u32 MAX_TOPICS_LIMIT))
      else Inr ())"

definition open_and_validate_region :: "target_os \<Rightarrow> string \<Rightarrow> os_open \<Rightarrow> clock \<Rightarrow> string \<Rightarrow> (region \<times> string) result" where
  "open_and_validate_region os tmp env clk name =
     (let path = shm_path os tmp name in
      case oo_open env of
        Inl e \<Rightarrow> Inl (open_error os path e)
      | Inr seg \<Rightarrow>
          (case from_file (oo_meta env) (oo_map env) (sg_len seg) of
             Inl e \<Rightarrow> Inl e
           | Inr len \<Rightarrow>
               if len < unat HEADER_SIZE then Inl (InvalidRegion ''region too small for header'')
               else if take 8 (drop GH_MAGIC (sg_header seg)) \<noteq> MAGIC
               then Inl (InvalidRegion ''invalid magic (expected XBAR_ZC)'')
               else if load_u32 GH_VERSION (sg_header seg) \<noteq> VERSION
               then Inl (InvalidRegion (''unsupported version '' @ show_u32 (load_u32 GH_VERSION (sg_header seg)) @
                 '', expected '' @ show_u32 VERSION))
               else
                 let c = header_config (sg_header seg) in
                 (case check_header_config c of
                    Inl e \<Rightarrow> Inl e
                  | Inr _ \<Rightarrow>
                      (case region_size_checked c of
                         None \<Rightarrow> Inl RegionSizeOverflow
                       | Some expected_size \<Rightarrow>
                           if len < unat expected_size
                           then Inl (InvalidRegion (''region size '' @ dec len @ '' < expected '' @ show_u64 expected_size))
                           else (case check_heartbeat c clk (sg_shm seg) of
                               Inl e \<Rightarrow> Inl e
                             | Inr _ \<Rightarrow> Inr (from_raw c, path))))))"

text \<open>\<open>now\<close> is the monotonic clock; \<open>ident\<close> is what \<open>generate_publisher_id\<close> returned.\<close>

definition new_publisher :: "config \<Rightarrow> string \<Rightarrow> u64 option \<Rightarrow> bool \<Rightarrow> u64 \<Rightarrow> nat \<Rightarrow> publisher" where
  "new_publisher c name ino owner ident now =
     \<lparr>pub_region = from_raw c, pub_name = name, created_ino = ino, is_owner = owner, pub_id = ident,
      last_heartbeat = now, loan_count = 0, block_cache = replicate 8 0, cache_len = 0,
      pinned_blocks = replicate (unat (max_topics c)) NO_BLOCK\<rparr>"

definition publisher_open ::
    "target_os \<Rightarrow> string \<Rightarrow> string option \<Rightarrow> bool \<Rightarrow> os_open \<Rightarrow> clock \<Rightarrow> nat \<Rightarrow> u64 \<Rightarrow> string \<Rightarrow> publisher result" where
  "publisher_open os tmp lock_err lock_ok env clk now ident name =
     (case validate_name name of
        Inl e \<Rightarrow> Inl e
      | Inr _ \<Rightarrow>
          (case lock_err of
             Some e \<Rightarrow> Inl (Io e)
           | None \<Rightarrow>
               (case shared_lock lock_ok name of
                  Inl e \<Rightarrow> Inl e
                | Inr _ \<Rightarrow>
                    (case open_and_validate_region os tmp env clk name of
                       Inl e \<Rightarrow> Inl e
                     | Inr (r, path) \<Rightarrow> Inr (new_publisher (rg_config r) name None False ident now)))))"

definition connect :: "target_os \<Rightarrow> string \<Rightarrow> os_open \<Rightarrow> clock \<Rightarrow> string \<Rightarrow> region result" where
  "connect os tmp env clk name =
     (case validate_name name of
        Inl e \<Rightarrow> Inl e
      | Inr _ \<Rightarrow>
          (case open_and_validate_region os tmp env clk name of
             Inl e \<Rightarrow> Inl e
           | Inr (r, _) \<Rightarrow> Inr r))"

section \<open>Creating\<close>

record os_create =
  oc_lock_open :: "string option"
  oc_lock_ex :: bool
  oc_remove :: bool
  oc_open :: "os_error option"
  oc_set_len :: "string option"
  oc_map :: "string option"
  oc_lock_sh :: bool
  oc_ino :: "u64 option"

definition check_create_config :: "config \<Rightarrow> unit result" where
  "check_create_config c =
     (if block_size c < as_u32 BLOCK_DATA_OFFSET + 1
      then Inl (InvalidRegion (''block_size must be at least '' @ show_u64 (BLOCK_DATA_OFFSET + 1) @
        '' (got '' @ show_u32 (block_size c) @ '')''))
      else if \<not> is_power_of_two (ring_depth c)
      then Inl (InvalidRegion (''ring_depth must be a power of 2 (got '' @ show_u32 (ring_depth c) @ '')''))
      else if block_count c = 0 then Inl (InvalidRegion ''block_count must be at least 1'')
      else if max_topics c = 0 then Inl (InvalidRegion ''max_topics must be at least 1'')
      else Inr ())"

text \<open>The part of \<open>create\<close> after the file is mapped; \<open>len\<close> bytes of zeros.\<close>

definition init_segment ::
    "os_create \<Rightarrow> clock \<Rightarrow> nat \<Rightarrow> u32 \<Rightarrow> u64 \<Rightarrow> string \<Rightarrow> config \<Rightarrow> nat \<Rightarrow> publisher result \<times> segment" where
  "init_segment env clk now pid ident name c len =
     (let hdr = write_header c pid (replicate (unat HEADER_SIZE) 0);
        s = init_free_list c (zero_shm c) in
      case update_heartbeat clk s of
        (Inl e, s) \<Rightarrow> (Inl e, \<lparr>sg_header = hdr, sg_len = len, sg_shm = s\<rparr>)
      | (Inr _, s) \<Rightarrow>
          let seg = \<lparr>sg_header = hdr, sg_len = len, sg_shm = init_rings c s\<rparr> in
          (case shared_lock (oc_lock_sh env) name of
             Inl e \<Rightarrow> (Inl e, seg)
           | Inr _ \<Rightarrow> (Inr (new_publisher c name (oc_ino env) True ident now), seg)))"

text \<open>\<open>file\<close> is what the segment's path names before and after; \<open>None\<close> when there is no file.\<close>

definition create ::
    "target_os \<Rightarrow> string \<Rightarrow> os_create \<Rightarrow> clock \<Rightarrow> nat \<Rightarrow> u32 \<Rightarrow> u64 \<Rightarrow> string \<Rightarrow> config \<Rightarrow> segment option \<Rightarrow>
     publisher result \<times> segment option" where
  "create os tmp env clk now pid ident name c file =
     (case validate_name name of
        Inl e \<Rightarrow> (Inl e, file)
      | Inr _ \<Rightarrow>
      (case check_create_config c of
        Inl e \<Rightarrow> (Inl e, file)
      | Inr _ \<Rightarrow>
      (case region_size_checked c of
        None \<Rightarrow> (Inl RegionSizeOverflow, file)
      | Some sz \<Rightarrow>
      (case oc_lock_open env of
        Some e \<Rightarrow> (Inl (Io e), file)
      | None \<Rightarrow>
      (case exclusive_lock (oc_lock_ex env) name of
        Inl e \<Rightarrow> (Inl e, file)
      | Inr _ \<Rightarrow>
        let file = (if oc_remove env then None else file) in
      (case oc_open env of
        Some e \<Rightarrow> (Inl (open_error os (shm_path os tmp name) e), file)
      | None \<Rightarrow>
      (case oc_set_len env of
        Some e \<Rightarrow> (Inl (Io e), Some \<lparr>sg_header = [], sg_len = 0, sg_shm = zero_shm c\<rparr>)
      | None \<Rightarrow>
      (case from_file_with_len (oc_map env) (unat sz) of
        Inl e \<Rightarrow> (Inl e, Some \<lparr>sg_header = replicate (unat HEADER_SIZE) 0, sg_len = unat sz, sg_shm = zero_shm c\<rparr>)
      | Inr len \<Rightarrow> map_prod id Some (init_segment env clk now pid ident name c len)))))))))"

section \<open>Reading back the header\<close>

lemma take_drop_overwrite:
  "off + length xs \<le> length h \<Longrightarrow> n = length xs \<Longrightarrow> take n (drop off (overwrite h off xs)) = xs"
  by (simp add: overwrite_def)

lemma take_drop_overwrite_other:
  assumes "at + length xs \<le> length h" "off + n \<le> at \<or> at + length xs \<le> off"
  shows "take n (drop off (overwrite h at xs)) = take n (drop off h)"
proof (rule nth_equalityI)
  show "length (take n (drop off (overwrite h at xs))) = length (take n (drop off h))" using assms(1) by simp
  fix i
  assume "i < length (take n (drop off (overwrite h at xs)))"
  then have i: "i < n" "off + i < length h" using assms(1) by auto
  have "overwrite h at xs ! (off + i) = h ! (off + i)"
    using i assms by (auto simp: overwrite_def nth_append)
  then show "take n (drop off (overwrite h at xs)) ! i = take n (drop off h) ! i" using i assms(1) by simp
qed

lemmas take_overwrite_other = take_drop_overwrite_other [of _ _ _ 0, simplified]
lemmas take_overwrite_same = take_drop_overwrite [of 0, simplified]

lemma map_prod_Some: "map_prod id Some x = (a, b) \<Longrightarrow> x = (a, the b) \<and> b \<noteq> None"
  by (cases x) auto

text \<open>What a process that opens the segment takes as its configuration.\<close>

definition opened_config :: "config \<Rightarrow> config" where
  "opened_config c = c\<lparr>heartbeat_interval := heartbeat_interval config_default,
     stale_timeout := from_micros (unat (of_nat (as_micros (stale_timeout c)) :: u64))\<rparr>"

lemma length_MAGIC [simp]: "length MAGIC = 8"
  by (simp add: MAGIC_def)

lemma length_write_header [simp]: "128 \<le> length h \<Longrightarrow> length (write_header c pid h) = length h"
  by (simp add: write_header_def Let_def gh_consts)

lemma header_fields:
  assumes "128 \<le> length h"
  shows "take 8 (drop GH_MAGIC (write_header c pid h)) = MAGIC" "load_u32 GH_VERSION (write_header c pid h) = VERSION"
    "load_u32 GH_MAX_TOPICS (write_header c pid h) = max_topics c"
    "load_u32 GH_BLOCK_COUNT (write_header c pid h) = block_count c"
    "load_u32 GH_BLOCK_SIZE (write_header c pid h) = block_size c"
    "load_u32 GH_RING_DEPTH (write_header c pid h) = ring_depth c"
    "load_u64 GH_STALE_TIMEOUT_US (write_header c pid h) = of_nat (as_micros (stale_timeout c))"
  using assms unfolding write_header_def Let_def gh_consts
  by (simp_all add: take_drop_overwrite take_drop_overwrite_other take_overwrite_other take_overwrite_same)

lemma header_config_eq: "128 \<le> length h \<Longrightarrow> header_config (write_header c pid h) = opened_config c"
  by (simp add: header_config_def header_fields opened_config_def config_default_def)

section \<open>What create and open establish\<close>

text \<open>What \<open>Publisher::create\<close> checks of a configuration.\<close>

definition config_ok :: "config \<Rightarrow> bool" where
  "config_ok c \<longleftrightarrow> 9 \<le> unat (block_size c) \<and> is_power_of_two (ring_depth c) \<and> 0 < block_count c \<and>
     0 < max_topics c \<and> region_size_checked c \<noteq> None"

lemma block_size_check: "\<not> block_size c < as_u32 BLOCK_DATA_OFFSET + 1 \<longleftrightarrow> 9 \<le> unat (block_size c)"
  by (simp add: as_u32_def BLOCK_DATA_OFFSET_def not_less word_le_nat_alt)

lemma check_create_config_ok:
  "check_create_config c = Inr () \<and> region_size_checked c \<noteq> None \<longleftrightarrow> config_ok c"
  using block_size_check [of c] by (auto simp: check_create_config_def config_ok_def word_gt_0)

lemma check_header_config_ok:
  "check_header_config c = Inr () \<and> region_size_checked c \<noteq> None \<longleftrightarrow> config_ok c \<and> max_topics c \<le> MAX_TOPICS_LIMIT"
  using block_size_check [of c] is_power_of_two_pos [of "ring_depth c"]
  by (auto simp: check_header_config_def config_ok_def word_gt_0 not_less)

lemma region_size_opened [simp]: "region_size_checked (opened_config c) = region_size_checked c"
  by (simp add: opened_config_def region_size_checked_eq region_bytes_def pool_start_def block_pool_offset_def ring_base_def)

lemma config_ok_opened [simp]: "config_ok (opened_config c) = config_ok c"
  by (simp add: config_ok_def) (simp add: opened_config_def)

text \<open>The memory a successful \<open>create\<close> leaves.\<close>

definition created_shm :: "config \<Rightarrow> clock \<Rightarrow> shm" where
  "created_shm c clk = init_rings c (snd (update_heartbeat clk (init_free_list c (zero_shm c))))"

lemma create_success:
  assumes "create os tmp env clk now pid ident name c file = (Inr p, file')"
  shows "config_ok c" "p = new_publisher c name (oc_ino env) True ident now" "is_valid_segment_name name"
    "\<exists>t. clk = Some t"
    "file' = Some \<lparr>sg_header = write_header c pid (replicate 128 0), sg_len = unat (the (region_size_checked c)),
       sg_shm = created_shm c clk\<rparr>"
proof -
  from assms obtain sz where c: "validate_name name = Inr ()" "check_create_config c = Inr ()"
    "region_size_checked c = Some sz" "from_file_with_len (oc_map env) (unat sz) = Inr (unat sz)"
    and i: "init_segment env clk now pid ident name c (unat sz) = (Inr p, the file')" "file' \<noteq> None"
    unfolding create_def Let_def
    by (auto simp: from_file_with_len_def split: sum.splits option.splits if_splits dest!: map_prod_Some)
  show "config_ok c" using c(2,3) check_create_config_ok by blast
  show "is_valid_segment_name name" using c(1) by (simp add: validate_name_def split: if_splits)
  show "p = new_publisher c name (oc_ino env) True ident now" "\<exists>t. clk = Some t"
    "file' = Some \<lparr>sg_header = write_header c pid (replicate 128 0), sg_len = unat (the (region_size_checked c)),
       sg_shm = created_shm c clk\<rparr>"
    using i unfolding init_segment_def Let_def
    by (auto simp: c(3) created_shm_def update_heartbeat_def now_micros_def HEADER_SIZE_def
        split: sum.splits option.splits prod.splits)
qed

lemma open_and_validate_eq:
  assumes "oo_open env = Inr seg" "oo_meta env = None" "oo_map env = None"
    and "sg_header seg = write_header c pid (replicate 128 0)" "sg_len seg = unat (the (region_size_checked c))" "config_ok c"
  shows "open_and_validate_region os tmp env clk name =
    (if max_topics c > MAX_TOPICS_LIMIT
     then Inl (InvalidRegion (''header max_topics '' @ show_u32 (max_topics c) @ '' exceeds limit '' @ show_u32 MAX_TOPICS_LIMIT))
     else case check_heartbeat (opened_config c) clk (sg_shm seg) of
       Inl e \<Rightarrow> Inl e | Inr _ \<Rightarrow> Inr (from_raw (opened_config c), shm_path os tmp name))"
proof -
  obtain sz where sz: "region_size_checked c = Some sz" using assms(6) by (auto simp: config_ok_def)
  have len: "128 \<le> unat sz" using region_size_checked_SomeD [OF sz] by (simp add: region_bytes_def pool_start_def)
  have ff: "from_file None None (unat sz) = Inr (unat sz)" using len by (simp add: from_file_def from_file_with_len_def)
  have hc: "header_config (sg_header seg) = opened_config c" using assms(4) by (simp add: header_config_eq)
  have hf: "take 8 (drop GH_MAGIC (sg_header seg)) = MAGIC" "load_u32 GH_VERSION (sg_header seg) = VERSION"
    unfolding assms(4) by (simp_all add: header_fields)
  have "check_header_config (opened_config c) =
      (if max_topics c > MAX_TOPICS_LIMIT
       then Inl (InvalidRegion (''header max_topics '' @ show_u32 (max_topics c) @ '' exceeds limit '' @ show_u32 MAX_TOPICS_LIMIT))
       else Inr ())"
    using assms(6) block_size_check [of c] is_power_of_two_pos [of "ring_depth c"]
    by (auto simp: check_header_config_def config_ok_def opened_config_def word_gt_0)
  with hf hc ff len sz assms(1-3,5) show ?thesis
    by (simp add: open_and_validate_region_def Let_def HEADER_SIZE_def split: sum.splits)
qed

lemma create_ok:
  assumes "config_ok c" "is_valid_segment_name name"
    "env = \<lparr>oc_lock_open = None, oc_lock_ex = True, oc_remove = rm, oc_open = None, oc_set_len = None, oc_map = None,
       oc_lock_sh = True, oc_ino = ino\<rparr>"
  shows "\<exists>seg. create os tmp env (Some t) now pid ident name c file = (Inr (new_publisher c name ino True ident now), Some seg)"
proof -
  obtain sz where sz: "region_size_checked c = Some sz" using assms(1) by (auto simp: config_ok_def)
  have "0 < unat sz" using region_size_checked_SomeD [OF sz] by (simp add: region_bytes_def pool_start_def)
  then have "from_file_with_len None (unat sz) = Inr (unat sz)" by (simp add: from_file_with_len_def)
  moreover have "check_create_config c = Inr ()" using assms(1) check_create_config_ok by blast
  moreover have "validate_name name = Inr ()" using assms(2) by (simp add: validate_name_def)
  ultimately show ?thesis unfolding create_def
    by (simp add: assms(3) sz exclusive_lock_def shared_lock_def init_segment_def Let_def update_heartbeat_def now_micros_def)
qed

section \<open>Properties\<close>

text \<open>
  The header round trip.  What \<open>create\<close> writes into the header is what \<open>open\<close> and \<open>connect\<close>
  read: magic and version pass, the four geometry fields come back unchanged, the stale timeout
  comes back in whole microseconds modulo 2^64, and the heartbeat interval is the default one.
\<close>

theorem header_roundtrip:
  assumes "128 \<le> length h"
  shows "take 8 (drop GH_MAGIC (write_header c pid h)) = MAGIC \<and> load_u32 GH_VERSION (write_header c pid h) = VERSION \<and>
    header_config (write_header c pid h) =
      c\<lparr>heartbeat_interval := from_millis 100, stale_timeout := from_micros (as_micros (stale_timeout c) mod 2 ^ 64)\<rparr>"
  using assms
  by (simp add: header_fields header_config_eq opened_config_def config_default_def unat_of_nat)

theorem header_roundtrip_witness:
  "header_config (write_header small_config 7 (replicate 128 0)) = small_config"
proof -
  have "(128 :: nat) \<le> length (replicate 128 (0 :: u8))" by simp
  from header_roundtrip [OF this, of small_config 7]
  show ?thesis by (simp add: small_config_def from_millis_def from_secs_def from_micros_def as_micros_def)
qed

text \<open>
  \<^bold>\<open>C31.\<close> Opening is safe on any file.  Whatever the file holds, if \<open>open_and_validate_region\<close> accepts
  it then the configuration it read is one \<open>create\<close> would accept with at most 4096 topics, every
  header, topic, ring and block cell of that configuration lies inside the mapping, and the
  heartbeat is fresh.
\<close>

theorem open_accepts_only_valid:
  assumes "open_and_validate_region os tmp env clk name = Inr (r, path)"
  shows "\<exists>seg. oo_open env = Inr seg \<and> r = from_raw (header_config (sg_header seg)) \<and> config_ok (rg_config r) \<and>
    max_topics (rg_config r) \<le> MAX_TOPICS_LIMIT \<and>
    (\<forall>x. cell_valid (rg_config r) x \<longrightarrow> snd (cell_range (rg_config r) x) \<le> sg_len seg) \<and>
    check_heartbeat (rg_config r) clk (sg_shm seg) = Inr () \<and> path = shm_path os tmp name"
proof -
  from assms obtain seg sz where s: "oo_open env = Inr seg" "check_header_config (header_config (sg_header seg)) = Inr ()"
    "region_size_checked (header_config (sg_header seg)) = Some sz" "unat sz \<le> sg_len seg"
    "check_heartbeat (header_config (sg_header seg)) clk (sg_shm seg) = Inr ()"
    "r = from_raw (header_config (sg_header seg))" "path = shm_path os tmp name"
    unfolding open_and_validate_region_def Let_def
    by (auto simp: from_file_def from_file_with_len_def not_less split: sum.splits option.splits if_splits)
  have c: "rg_config r = header_config (sg_header seg)" by (simp add: s(6) from_raw_def)
  have "config_ok (rg_config r) \<and> max_topics (rg_config r) \<le> MAX_TOPICS_LIMIT"
    using check_header_config_ok [of "rg_config r"] s(2,3) by (simp add: c)
  moreover have "snd (cell_range (rg_config r) x) \<le> sg_len seg" if "cell_valid (rg_config r) x" for x
    using region_size_checked_SomeD [OF s(3)] cell_range_in_region [of "rg_config r" x] that s(4) by (simp add: c)
  moreover have "check_heartbeat (rg_config r) clk (sg_shm seg) = Inr ()" using s(5) by (simp add: c)
  ultimately show ?thesis using s(1,6,7) by blast
qed

text \<open>An environment in which every call succeeds.\<close>

definition os_all_ok :: os_create where
  "os_all_ok = \<lparr>oc_lock_open = None, oc_lock_ex = True, oc_remove = True, oc_open = None, oc_set_len = None,
     oc_map = None, oc_lock_sh = True, oc_ino = Some 42\<rparr>"

lemma small_config_ok: "config_ok small_config"
  by (simp add: config_ok_def is_power_of_two_def count_ones_def upt_conv_Cons region_size_checked_eq
      region_bytes_def pool_start_def)

lemma market_valid: "is_valid_segment_name ''market''"
  by (simp add: is_valid_segment_name_def)

lemma small_created:
  obtains seg where "create Linux ''/tmp'' os_all_ok (Some 10) 0 7 1 ''market'' small_config None =
    (Inr (new_publisher small_config ''market'' (Some 42) True 1 0), Some seg)"
  using create_ok [OF small_config_ok market_valid os_all_ok_def, of Linux "''/tmp''" 10 0 7 1 None] by blast

abbreviation os_opens :: "segment \<Rightarrow> os_open" where
  "os_opens seg \<equiv> \<lparr>oo_open = Inr seg, oo_meta = None, oo_map = None\<rparr>"

theorem open_accepts_only_valid_witness:
  "\<exists>seg r path. open_and_validate_region Linux ''/tmp'' (os_opens seg) (Some 10) ''market'' = Inr (r, path) \<and>
     (\<forall>i < block_count (rg_config r). snd (cell_range (rg_config r) (BlockCell i)) \<le> sg_len seg)"
proof -
  obtain seg where cr: "create Linux ''/tmp'' os_all_ok (Some 10) 0 7 1 ''market'' small_config None =
      (Inr (new_publisher small_config ''market'' (Some 42) True 1 0), Some seg)" by (rule small_created)
  note cs = create_success [OF cr]
  have seg: "sg_header seg = write_header small_config 7 (replicate 128 0)"
    "sg_len seg = unat (the (region_size_checked small_config))" "sg_shm seg = created_shm small_config (Some 10)"
    using cs(5) by simp_all
  have "heartbeat (created_shm small_config (Some 10)) = 10"
    by (simp add: created_shm_def update_heartbeat_def now_micros_def init_rings_eq init_free_list_def fold_upd_block_frame)
      (simp add: zero_shm_def)
  then have hb: "check_heartbeat (opened_config small_config) (Some 10) (sg_shm seg) = Inr ()"
    by (simp add: check_heartbeat_def seg(3) now_micros_def saturating_sub_def)
  have ov: "open_and_validate_region Linux ''/tmp'' (os_opens seg) (Some 10) ''market'' =
      Inr (from_raw (opened_config small_config), shm_path Linux ''/tmp'' ''market'')"
    using open_and_validate_eq [of "os_opens seg" seg small_config 7 Linux "''/tmp''" "Some 10" "''market''"] seg hb cs(1)
    by (simp add: MAX_TOPICS_LIMIT_def)
  define r where "r = from_raw (opened_config small_config)"
  have "\<forall>x. cell_valid (rg_config r) x \<longrightarrow> snd (cell_range (rg_config r) x) \<le> sg_len seg"
    using open_accepts_only_valid [OF ov [folded r_def]] by auto
  then have "\<forall>i < block_count (rg_config r). snd (cell_range (rg_config r) (BlockCell i)) \<le> sg_len seg"
    by (metis cell_valid.simps(4))
  with ov [folded r_def] show ?thesis by blast
qed



text \<open>
  \<^bold>\<open>C32.\<close> The limit on topics is checked by openers only.  \<open>create\<close> accepts a configuration with more
  than 4096 topics, but then nobody can ever open or connect to the segment, whatever the shared
  memory holds.
\<close>

theorem oversized_topics_cannot_be_opened:
  assumes "create os tmp env clk now pid ident name c file = (Inr p, Some seg)" and "max_topics c > MAX_TOPICS_LIMIT"
  shows "(\<exists>msg. connect os tmp (os_opens (seg\<lparr>sg_shm := s\<rparr>)) clk' name = Inl (InvalidRegion msg)) \<and>
    (\<exists>msg. publisher_open os tmp None True (os_opens (seg\<lparr>sg_shm := s\<rparr>)) clk' now' ident' name = Inl (InvalidRegion msg))"
proof -
  note cs = create_success [OF assms(1)]
  have "\<exists>msg. open_and_validate_region os tmp (os_opens (seg\<lparr>sg_shm := s\<rparr>)) clk' name = Inl (InvalidRegion msg)"
    using open_and_validate_eq [of "os_opens (seg\<lparr>sg_shm := s\<rparr>)" "seg\<lparr>sg_shm := s\<rparr>" c pid os tmp clk' name] cs(1,5) assms(2)
    by simp
  moreover have "validate_name name = Inr ()" using cs(3) by (simp add: validate_name_def)
  ultimately show ?thesis by (auto simp: connect_def publisher_open_def shared_lock_def)
qed

theorem oversized_topics_cannot_be_opened_witness:
  "\<exists>seg msg. create Linux ''/tmp'' os_all_ok (Some 10) 0 7 1 ''market'' (small_config\<lparr>max_topics := 5000\<rparr>) None =
      (Inr (new_publisher (small_config\<lparr>max_topics := 5000\<rparr>) ''market'' (Some 42) True 1 0), Some seg) \<and>
     connect Linux ''/tmp'' (os_opens (seg\<lparr>sg_shm := sg_shm seg\<rparr>)) (Some 10) ''market'' = Inl (InvalidRegion msg)"
proof -
  let ?c = "small_config\<lparr>max_topics := 5000\<rparr>"
  have "config_ok ?c"
    by (simp add: config_ok_def is_power_of_two_def count_ones_def upt_conv_Cons region_size_checked_eq
        region_bytes_def pool_start_def)
  from create_ok [OF this market_valid os_all_ok_def, of Linux "''/tmp''" 10 0 7 1 None]
  obtain seg where cr: "create Linux ''/tmp'' os_all_ok (Some 10) 0 7 1 ''market'' ?c None =
      (Inr (new_publisher ?c ''market'' (Some 42) True 1 0), Some seg)" by blast
  have "max_topics ?c > MAX_TOPICS_LIMIT" by (simp add: MAX_TOPICS_LIMIT_def)
  from oversized_topics_cannot_be_opened [OF cr this, of "sg_shm seg" "Some 10"] cr show ?thesis by blast
qed

text \<open>
  A failed \<open>create\<close> does no harm.  When another publisher holds the lock the file is left as it
  was.  In every failure the file is untouched, or removed, or is one that openers reject (unless
  their clock is within the stale timeout of the epoch), except that a completely initialised
  segment is left behind when only the final downgrade of the lock fails.
\<close>

theorem failed_create_is_harmless:
  assumes "create os tmp env clk now pid ident name c file = (Inl e, file')"
  shows "(\<not> oc_lock_ex env \<longrightarrow> file' = file) \<and>
    (file' = file \<or> file' = None \<or> (e = LockContention name \<and> \<not> oc_lock_sh env) \<or>
     (\<exists>seg. file' = Some seg \<and>
        (\<forall>env' clk' r path. oo_open env' = Inr seg \<longrightarrow> open_and_validate_region os tmp env' clk' name = Inr (r, path) \<longrightarrow>
           (\<exists>t. clk' = Some t \<and> t \<le> of_nat (as_micros (stale_timeout (opened_config c)))))))"
    (is "?L \<and> (?A \<or> ?B \<or> ?C \<or> ?D)")
proof
  show ?L using assms unfolding create_def by (auto simp: exclusive_lock_def split: sum.splits option.splits)
  have "?A \<or> ?B \<or> (\<exists>s. file' = Some \<lparr>sg_header = [], sg_len = 0, sg_shm = s\<rparr>) \<or>
      (\<exists>n s. file' = Some \<lparr>sg_header = replicate 128 0, sg_len = n, sg_shm = s\<rparr>) \<or>
      (\<exists>len. init_segment env clk now pid ident name c len = (Inl e, the file') \<and> file' \<noteq> None)"
    using assms unfolding create_def Let_def
    by (auto simp: HEADER_SIZE_def split: sum.splits option.splits if_splits dest!: map_prod_Some)
  then consider ?A | ?B | (len0) s where "file' = Some \<lparr>sg_header = [], sg_len = 0, sg_shm = s\<rparr>"
    | (zero) n s where "file' = Some \<lparr>sg_header = replicate 128 0, sg_len = n, sg_shm = s\<rparr>"
    | (init) len where "init_segment env clk now pid ident name c len = (Inl e, the file')" "file' \<noteq> None" by blast
  then show "?A \<or> ?B \<or> ?C \<or> ?D"
  proof cases
    case len0
    then have ?D
      by (auto simp: open_and_validate_region_def from_file_def from_file_with_len_def Let_def split: option.splits)
    then show ?thesis by blast
  next
    case zero
    have "hd (take 8 (drop GH_MAGIC (replicate 128 (0 :: u8)))) = 0" by (simp add: GH_MAGIC_def hd_replicate)
    moreover have "hd MAGIC \<noteq> 0" by (simp add: MAGIC_def)
    ultimately have "take 8 (drop GH_MAGIC (replicate 128 (0 :: u8))) \<noteq> MAGIC" by metis
    then have ?D using zero
      by (auto simp: open_and_validate_region_def Let_def split: sum.splits if_splits)
    then show ?thesis by blast
  next
    case init
    then obtain seg where seg: "file' = Some seg" by blast
    show ?thesis
    proof (cases clk)
      case None
      then have h: "sg_header seg = write_header c pid (replicate 128 0)" "heartbeat (sg_shm seg) = 0"
        using init(1) by (auto simp: seg init_segment_def Let_def update_heartbeat_def now_micros_def HEADER_SIZE_def
            init_free_list_def fold_upd_block_frame zero_shm_def)
      have "\<exists>t. clk' = Some t \<and> t \<le> of_nat (as_micros (stale_timeout (opened_config c)))"
        if "oo_open env' = Inr seg" "open_and_validate_region os tmp env' clk' name = Inr (r, path)" for env' clk' r path
      proof -
        have "check_heartbeat (opened_config c) clk' (sg_shm seg) = Inr ()"
          using that unfolding open_and_validate_region_def Let_def
          by (auto simp: h(1) header_config_eq split: sum.splits option.splits if_splits)
        then show ?thesis
          by (auto simp: check_heartbeat_def h(2) now_micros_def saturating_sub_def not_less split: option.splits if_splits)
      qed
      with seg show ?thesis by blast
    next
      case (Some t)
      then have ?C using init(1)
        by (auto simp: init_segment_def Let_def update_heartbeat_def now_micros_def shared_lock_def split: if_splits)
      then show ?thesis by blast
    qed
  qed blast+
qed

theorem failed_create_is_harmless_witness:
  "\<exists>e. create Linux ''/tmp'' (os_all_ok\<lparr>oc_lock_ex := False\<rparr>) (Some 10) 0 7 1 ''market'' small_config
       (Some \<lparr>sg_header = [1], sg_len = 1, sg_shm = zero_shm small_config\<rparr>) =
     (Inl e, Some \<lparr>sg_header = [1], sg_len = 1, sg_shm = zero_shm small_config\<rparr>)"
proof -
  let ?env = "os_all_ok\<lparr>oc_lock_ex := False\<rparr>" and ?f = "Some \<lparr>sg_header = [1], sg_len = 1, sg_shm = zero_shm small_config\<rparr>"
  obtain res f where c: "create Linux ''/tmp'' ?env (Some 10) 0 7 1 ''market'' small_config ?f = (res, f)"
    by (cases "create Linux ''/tmp'' ?env (Some 10) 0 7 1 ''market'' small_config ?f")
  have "\<exists>e. res = Inl e"
    using c unfolding create_def by (auto simp: os_all_ok_def exclusive_lock_def split: sum.splits option.splits)
  then obtain e where "res = Inl e" by blast
  with c failed_create_is_harmless [OF c [unfolded this]] show ?thesis by (simp add: os_all_ok_def)
qed

text \<open>
  Publishers of one thread have different identities: within 2^64 calls the generator never
  returns the same identity twice to the same thread of the same process, so a handle of one
  publisher is never accepted by another of them.
\<close>

theorem publisher_ids_distinct:
  "fst (generate_publisher_id a pid thread) = fst (generate_publisher_id b pid thread) \<longleftrightarrow> a = b"
proof -
  have cancel: "x = y" if "p XOR x XOR h = p XOR y XOR h" for p x y h :: u64
    using arg_cong [OF that, of "\<lambda>z. p XOR (z XOR h)"] by (simp add: xor.assoc flip: xor.assoc [of p p])
  show ?thesis unfolding generate_publisher_id_def Let_def fst_conv using cancel by blast
qed

end
