(* ===== verification/System.thy ===== *)
theory System
  imports Segment
begin

text \<open>
  The whole pub/sub system on one segment: the creating publisher, any number of publishers that
  opened it (each with at most one outstanding loan, as the borrow checker enforces), any number
  of connected subscribers and their streams, and any number of live samples and pinned guards,
  with the operations of the previous theories as the steps of one transition relation.  Steps are
  whole API calls in any order; the interleaving of the atomic accesses inside them is the subject of
  theories \<open>Treiber\<close> and \<open>Interleaved\<close>.  \<open>do_rewind\<close> is what a channel does to its new stream.

  \<open>sy_hist\<close> is a ghost: for every topic the payloads published so far, \<open>None\<close> for a pinned
  publication, which takes a sequence number and leaves the ring alone.
\<close>

section \<open>State\<close>

datatype outstanding = NoLoan | ALoan loan | ATyped nat typed_loan | APinned pinned_loan

record party =
  pt_pub :: publisher
  pt_loan :: outstanding

record system =
  sy_header :: bytes
  sy_len :: nat
  sy_shm :: shm
  sy_subs :: "config list"
  sy_parties :: "party list"
  sy_handles :: "topic_handle list"
  sy_streams :: "stream list"
  sy_samples :: "sample list"
  sy_typed :: "u32 list"
  sy_guards :: "pinned_guard list"
  sy_hist :: "u32 \<Rightarrow> bytes option list"

abbreviation file_of :: "system \<Rightarrow> segment" where
  "file_of \<sigma> \<equiv> \<lparr>sg_header = sy_header \<sigma>, sg_len = sy_len \<sigma>, sg_shm = sy_shm \<sigma>\<rparr>"

definition remove_at :: "nat \<Rightarrow> 'a list \<Rightarrow> 'a list" where
  "remove_at i xs = take i xs @ drop (Suc i) xs"

abbreviation set_party :: "nat \<Rightarrow> party \<Rightarrow> shm \<Rightarrow> system \<Rightarrow> system" where
  "set_party i pt s \<sigma> \<equiv> \<sigma>\<lparr>sy_shm := s, sy_parties := (sy_parties \<sigma>)[i := pt]\<rparr>"

abbreviation record_publication :: "u32 \<Rightarrow> bytes option \<Rightarrow> system \<Rightarrow> system" where
  "record_publication t d \<sigma> \<equiv> \<sigma>\<lparr>sy_hist := (sy_hist \<sigma>)(t := sy_hist \<sigma> t @ [d])\<rparr>"

section \<open>Steps\<close>

text \<open>What user code can do to a loan before publishing it; \<open>as_mut_slice\<close> gives it the whole block.\<close>

inductive loan_write :: "loan \<Rightarrow> shm \<Rightarrow> loan \<Rightarrow> shm \<Rightarrow> bool" where
  w_data: "set_data stream align data l s = (res, l', s') \<Longrightarrow> loan_write l s l' s'"
| w_structured: "write_structured hdr es l s = (res, l', s') \<Longrightarrow> loan_write l s l' s'"
| w_io: "io_write buf l s = (res, l', s') \<Longrightarrow> loan_write l s l' s'"
| w_len: "set_len n l = (res, l') \<Longrightarrow> loan_write l s l' s"
| w_slice: "length data = ln_capacity l \<Longrightarrow>
    loan_write l s l (upd_block (ln_block_idx l) (\<lambda>x. x\<lparr>bk_data := data\<rparr>) s)"

inductive pinned_write :: "pinned_loan \<Rightarrow> shm \<Rightarrow> pinned_loan \<Rightarrow> shm \<Rightarrow> bool" where
  pw_data: "pinned_set_data data l s = (res, l', s') \<Longrightarrow> pinned_write l s l' s'"
| pw_structured: "pinned_write_structured hdr es l s = (res, l', s') \<Longrightarrow> pinned_write l s l' s'"
| pw_len: "pinned_set_len n l = (res, l') \<Longrightarrow> pinned_write l s l' s"
| pw_slice: "length data = pl_capacity l \<Longrightarrow>
    pinned_write l s l (upd_block (pl_block_idx l) (\<lambda>x. x\<lparr>bk_data := data\<rparr>) s)"

text \<open>
  Two guards bound the run: fewer than \<open>2^64 - 2\<close> publications on a topic, so that sequence
  numbers do not wrap, and fewer than \<open>2^32 - 2\<close> live samples, so that no reference count does.
\<close>

definition seq_room :: "shm \<Rightarrow> u32 \<Rightarrow> bool" where
  "seq_room s t \<longleftrightarrow> unat (te_write_seq (topics s t)) + 2 < 2 ^ 64"

definition sample_room :: "system \<Rightarrow> bool" where
  "sample_room \<sigma> \<longleftrightarrow> length (sy_samples \<sigma>) + length (sy_typed \<sigma>) + 2 < 2 ^ 32"

inductive sys_step :: "config \<Rightarrow> system \<Rightarrow> system \<Rightarrow> bool" for c where
  do_open: "publisher_open os tmp lock_err lock_ok \<lparr>oo_open = Inr (file_of \<sigma>), oo_meta = meta, oo_map = map_err\<rparr> clk now ident name = Inr p \<Longrightarrow>
    sys_step c \<sigma> (\<sigma>\<lparr>sy_parties := sy_parties \<sigma> @ [\<lparr>pt_pub = p, pt_loan = NoLoan\<rparr>]\<rparr>)"
| do_connect: "connect os tmp \<lparr>oo_open = Inr (file_of \<sigma>), oo_meta = meta, oo_map = map_err\<rparr> clk name = Inr r \<Longrightarrow>
    sys_step c \<sigma> (\<sigma>\<lparr>sy_subs := rg_config r # sy_subs \<sigma>\<rparr>)"
| do_register: "i < length (sy_parties \<sigma>) \<Longrightarrow> pt = sy_parties \<sigma> ! i \<Longrightarrow> pt_loan pt = NoLoan \<Longrightarrow>
    register_inner clk pid uri tsize (pt_pub pt) (sy_shm \<sigma>) reg = (Inr h, s', reg') \<Longrightarrow>
    sys_step c \<sigma> (\<sigma>\<lparr>sy_shm := s', sy_handles := h # sy_handles \<sigma>\<rparr>)"
| do_heartbeat: "i < length (sy_parties \<sigma>) \<Longrightarrow> pt = sy_parties \<sigma> ! i \<Longrightarrow> pt_loan pt = NoLoan \<Longrightarrow>
    pub_heartbeat now clk (pt_pub pt) (sy_shm \<sigma>) = (res, p', s') \<Longrightarrow>
    sys_step c \<sigma> (set_party i (pt\<lparr>pt_pub := p'\<rparr>) s' \<sigma>)"
| do_loan: "i < length (sy_parties \<sigma>) \<Longrightarrow> pt = sy_parties \<sigma> ! i \<Longrightarrow> pt_loan pt = NoLoan \<Longrightarrow> h \<in> set (sy_handles \<sigma>) \<Longrightarrow>
    Publisher.loan now clk h (pt_pub pt) (sy_shm \<sigma>) = (res, p', s') \<Longrightarrow>
    sys_step c \<sigma> (set_party i \<lparr>pt_pub = p', pt_loan = (case res of Inr l \<Rightarrow> ALoan l | Inl _ \<Rightarrow> NoLoan)\<rparr> s' \<sigma>)"
| do_loan_typed: "i < length (sy_parties \<sigma>) \<Longrightarrow> pt = sy_parties \<sigma> ! i \<Longrightarrow> pt_loan pt = NoLoan \<Longrightarrow> h \<in> set (sy_handles \<sigma>) \<Longrightarrow>
    loan_typed now clk h (pt_pub pt) (sy_shm \<sigma>) = (res, p', s') \<Longrightarrow>
    sys_step c \<sigma> (set_party i \<lparr>pt_pub = p', pt_loan = (case res of Inr l \<Rightarrow> ATyped n l | Inl _ \<Rightarrow> NoLoan)\<rparr> s' \<sigma>)"
| do_loan_pinned: "i < length (sy_parties \<sigma>) \<Longrightarrow> pt = sy_parties \<sigma> ! i \<Longrightarrow> pt_loan pt = NoLoan \<Longrightarrow> h \<in> set (sy_handles \<sigma>) \<Longrightarrow>
    loan_pinned h (pt_pub pt) (sy_shm \<sigma>) = (res, p', s') \<Longrightarrow>
    sys_step c \<sigma> (set_party i \<lparr>pt_pub = p', pt_loan = (case res of Inr l \<Rightarrow> APinned l | Inl _ \<Rightarrow> NoLoan)\<rparr> s' \<sigma>)"
| do_write: "i < length (sy_parties \<sigma>) \<Longrightarrow> pt = sy_parties \<sigma> ! i \<Longrightarrow> pt_loan pt = ALoan l \<Longrightarrow>
    loan_write l (sy_shm \<sigma>) l' s' \<Longrightarrow>
    sys_step c \<sigma> (set_party i (pt\<lparr>pt_loan := ALoan l'\<rparr>) s' \<sigma>)"
| do_publish: "i < length (sy_parties \<sigma>) \<Longrightarrow> pt = sy_parties \<sigma> ! i \<Longrightarrow> pt_loan pt = ALoan l \<Longrightarrow>
    seq_room (sy_shm \<sigma>) (ln_topic_idx l) \<Longrightarrow>
    loan_commit wake l (pub_region (pt_pub pt), sy_shm \<sigma>) = Some (woke, r', s') \<Longrightarrow>
    sys_step c \<sigma> (record_publication (ln_topic_idx l) (Some (take (ln_len l) (bk_data (blocks (sy_shm \<sigma>) (ln_block_idx l)))))
      (set_party i \<lparr>pt_pub = (pt_pub pt)\<lparr>pub_region := r'\<rparr>, pt_loan = NoLoan\<rparr> s' \<sigma>))"
| do_drop_loan: "i < length (sy_parties \<sigma>) \<Longrightarrow> pt = sy_parties \<sigma> ! i \<Longrightarrow> pt_loan pt = ALoan l \<Longrightarrow>
    sys_step c \<sigma> (set_party i (pt\<lparr>pt_loan := NoLoan\<rparr>) (loan_drop (pub_config (pt_pub pt)) l (sy_shm \<sigma>)) \<sigma>)"
| do_send: "i < length (sy_parties \<sigma>) \<Longrightarrow> pt = sy_parties \<sigma> ! i \<Longrightarrow> pt_loan pt = ATyped (length value) l \<Longrightarrow>
    seq_room (sy_shm \<sigma>) (tl_topic_idx l) \<Longrightarrow>
    send value l (pub_region (pt_pub pt), sy_shm \<sigma>) = Some (woke, r', s') \<Longrightarrow>
    sys_step c \<sigma> (record_publication (tl_topic_idx l) (Some value)
      (set_party i \<lparr>pt_pub = (pt_pub pt)\<lparr>pub_region := r'\<rparr>, pt_loan = NoLoan\<rparr> s' \<sigma>))"
| do_typed_write: "i < length (sy_parties \<sigma>) \<Longrightarrow> pt = sy_parties \<sigma> ! i \<Longrightarrow> pt_loan pt = ATyped (length value) l \<Longrightarrow>
    as_mut_write value l (sy_shm \<sigma>) = Some s' \<Longrightarrow>
    sys_step c \<sigma> (set_party i pt s' \<sigma>)"
| do_typed_publish: "i < length (sy_parties \<sigma>) \<Longrightarrow> pt = sy_parties \<sigma> ! i \<Longrightarrow> pt_loan pt = ATyped n l \<Longrightarrow>
    n \<le> unat (data_capacity c) \<Longrightarrow> seq_room (sy_shm \<sigma>) (tl_topic_idx l) \<Longrightarrow>
    typed_commit n wake l (pub_region (pt_pub pt), sy_shm \<sigma>) = (woke, r', s') \<Longrightarrow>
    sys_step c \<sigma> (record_publication (tl_topic_idx l) (Some (take n (bk_data (blocks (sy_shm \<sigma>) (tl_block_idx l)))))
      (set_party i \<lparr>pt_pub = (pt_pub pt)\<lparr>pub_region := r'\<rparr>, pt_loan = NoLoan\<rparr> s' \<sigma>))"
| do_drop_typed_loan: "i < length (sy_parties \<sigma>) \<Longrightarrow> pt = sy_parties \<sigma> ! i \<Longrightarrow> pt_loan pt = ATyped n l \<Longrightarrow>
    sys_step c \<sigma> (set_party i (pt\<lparr>pt_loan := NoLoan\<rparr>) (typed_drop (pub_config (pt_pub pt)) l (sy_shm \<sigma>)) \<sigma>)"
| do_pinned_write: "i < length (sy_parties \<sigma>) \<Longrightarrow> pt = sy_parties \<sigma> ! i \<Longrightarrow> pt_loan pt = APinned l \<Longrightarrow>
    pinned_write l (sy_shm \<sigma>) l' s' \<Longrightarrow>
    sys_step c \<sigma> (set_party i (pt\<lparr>pt_loan := APinned l'\<rparr>) s' \<sigma>)"
| do_pinned_publish: "i < length (sy_parties \<sigma>) \<Longrightarrow> pt = sy_parties \<sigma> ! i \<Longrightarrow> pt_loan pt = APinned l \<Longrightarrow>
    seq_room (sy_shm \<sigma>) (pl_topic_idx l) \<Longrightarrow> pinned_publish l (sy_shm \<sigma>) = Some (woke, s') \<Longrightarrow>
    sys_step c \<sigma> (record_publication (pl_topic_idx l) None (set_party i (pt\<lparr>pt_loan := NoLoan\<rparr>) s' \<sigma>))"
| do_pinned_drop: "i < length (sy_parties \<sigma>) \<Longrightarrow> pt = sy_parties \<sigma> ! i \<Longrightarrow> pt_loan pt = APinned l \<Longrightarrow>
    sys_step c \<sigma> (set_party i (pt\<lparr>pt_loan := NoLoan\<rparr>) (pinned_drop l (sy_shm \<sigma>)) \<sigma>)"
| do_drop_publisher: "i < length (sy_parties \<sigma>) \<Longrightarrow> pt = sy_parties \<sigma> ! i \<Longrightarrow> pt_loan pt = NoLoan \<Longrightarrow>
    publisher_drop pid ino (pt_pub pt) (sy_shm \<sigma>) reg = (removed, s', reg') \<Longrightarrow>
    sys_step c \<sigma> (\<sigma>\<lparr>sy_shm := s', sy_parties := remove_at i (sy_parties \<sigma>)\<rparr>)"
| do_subscribe: "c' \<in> set (sy_subs \<sigma>) \<Longrightarrow> subscribe c' uri (sy_shm \<sigma>) = (Inr st, s') \<Longrightarrow>
    sys_step c \<sigma> (\<sigma>\<lparr>sy_shm := s', sy_streams := sy_streams \<sigma> @ [st]\<rparr>)"
| do_recv: "j < length (sy_streams \<sigma>) \<Longrightarrow> sample_room \<sigma> \<Longrightarrow> try_recv (sy_streams \<sigma> ! j) (sy_shm \<sigma>) = (res, st', s') \<Longrightarrow>
    sys_step c \<sigma> (\<sigma>\<lparr>sy_shm := s', sy_streams := (sy_streams \<sigma>)[j := st'],
      sy_samples := (case res of Some m \<Rightarrow> m # sy_samples \<sigma> | None \<Rightarrow> sy_samples \<sigma>)\<rparr>)"
| do_recv_typed: "j < length (sy_streams \<sigma>) \<Longrightarrow> sample_room \<sigma> \<Longrightarrow>
    try_recv_typed n (sy_streams \<sigma> ! j) (sy_shm \<sigma>) = (res, st', s') \<Longrightarrow>
    sys_step c \<sigma> (\<sigma>\<lparr>sy_shm := s', sy_streams := (sy_streams \<sigma>)[j := st'],
      sy_typed := (case res of Some b \<Rightarrow> b # sy_typed \<sigma> | None \<Rightarrow> sy_typed \<sigma>)\<rparr>)"
| do_recv_pinned: "j < length (sy_streams \<sigma>) \<Longrightarrow>
    try_recv_pinned (sy_streams \<sigma> ! j) (sy_shm \<sigma>) = (res, st', s') \<Longrightarrow>
    sys_step c \<sigma> (\<sigma>\<lparr>sy_shm := s', sy_streams := (sy_streams \<sigma>)[j := st'],
      sy_guards := (case res of Some g \<Rightarrow> g # sy_guards \<sigma> | None \<Rightarrow> sy_guards \<sigma>)\<rparr>)"
| do_drop_sample: "k < length (sy_samples \<sigma>) \<Longrightarrow> c' \<in> set (sy_subs \<sigma>) \<Longrightarrow>
    sys_step c \<sigma> (\<sigma>\<lparr>sy_shm := sample_drop c' (sy_samples \<sigma> ! k) (sy_shm \<sigma>), sy_samples := remove_at k (sy_samples \<sigma>)\<rparr>)"
| do_drop_typed: "k < length (sy_typed \<sigma>) \<Longrightarrow> c' \<in> set (sy_subs \<sigma>) \<Longrightarrow>
    sys_step c \<sigma> (\<sigma>\<lparr>sy_shm := typed_sample_drop c' (sy_typed \<sigma> ! k) (sy_shm \<sigma>), sy_typed := remove_at k (sy_typed \<sigma>)\<rparr>)"
| do_drop_guard: "k < length (sy_guards \<sigma>) \<Longrightarrow>
    sys_step c \<sigma> (\<sigma>\<lparr>sy_shm := pinned_guard_drop (sy_guards \<sigma> ! k) (sy_shm \<sigma>), sy_guards := remove_at k (sy_guards \<sigma>)\<rparr>)"
| do_rewind: "j < length (sy_streams \<sigma>) \<Longrightarrow>
    sys_step c \<sigma> (\<sigma>\<lparr>sy_streams := (sy_streams \<sigma>)[j := (sy_streams \<sigma> ! j)\<lparr>last_seq := 0\<rparr>]\<rparr>)"
| do_drop_stream: "j < length (sy_streams \<sigma>) \<Longrightarrow>
    sys_step c \<sigma> (\<sigma>\<lparr>sy_shm := stream_drop (sy_streams \<sigma> ! j) (sy_shm \<sigma>), sy_streams := remove_at j (sy_streams \<sigma>)\<rparr>)"

text \<open>
  The system starts when a \<open>create\<close> succeeds, whatever the system calls answered and whatever file
  was there before; from then on the header is never written again.
\<close>

inductive sys_reach :: "config \<Rightarrow> system \<Rightarrow> bool" for c where
  reach_init: "create os tmp env clk now pid ident name c file = (Inr p, Some seg) \<Longrightarrow>
    sys_reach c \<lparr>sy_header = sg_header seg, sy_len = sg_len seg, sy_shm = sg_shm seg, sy_subs = [],
      sy_parties = [\<lparr>pt_pub = p, pt_loan = NoLoan\<rparr>], sy_handles = [], sy_streams = [], sy_samples = [],
      sy_typed = [], sy_guards = [], sy_hist = (\<lambda>_. [])\<rparr>"
| reach_step: "sys_reach c \<sigma> \<Longrightarrow> sys_step c \<sigma> \<sigma>' \<Longrightarrow> sys_reach c \<sigma>'"

end
