(* ===== verification/Exclusion.thy ===== *)
theory Exclusion
  imports System
begin

text \<open>
  The invariant \<open>sysinv\<close> of the transition system of theory \<open>System\<close>: the accounting of blocks,
  the delivery invariant \<open>deliv\<close> that ties each ring slot to the topic's history, and the
  well-formedness of every publisher, loan, handle and stream.  Every step keeps it; the
  properties of the whole system at the end are read off it.
\<close>

section \<open>The invariant\<close>

fun loaned :: "outstanding \<Rightarrow> u32 multiset" where
  "loaned (ALoan l) = {#ln_block_idx l#}"
| "loaned (ATyped n l) = {#tl_block_idx l#}"
| "loaned _ = {#}"

definition party_blocks :: "party \<Rightarrow> u32 multiset" where
  "party_blocks pt = held (pt_pub pt) + loaned (pt_loan pt)"

definition idle :: "system \<Rightarrow> u32 multiset" where
  "idle \<sigma> = sum_list (map party_blocks (sy_parties \<sigma>))"

definition refs :: "system \<Rightarrow> u32 multiset" where
  "refs \<sigma> = mset (map sm_block_idx (sy_samples \<sigma>)) + mset (sy_typed \<sigma>)"

definition topic_live :: "config \<Rightarrow> shm \<Rightarrow> u32 \<Rightarrow> bool" where
  "topic_live c s t \<longleftrightarrow> t < max_topics c \<and> te_active (topics s t) \<noteq> TE_STATE_FREE"

fun outstanding_wf :: "config \<Rightarrow> shm \<Rightarrow> publisher \<Rightarrow> outstanding \<Rightarrow> bool" where
  "outstanding_wf c s p NoLoan \<longleftrightarrow> True"
| "outstanding_wf c s p (ALoan l) \<longleftrightarrow> loan_wf c l \<and> topic_live c s (ln_topic_idx l)"
| "outstanding_wf c s p (ATyped n l) \<longleftrightarrow> topic_live c s (tl_topic_idx l)"
| "outstanding_wf c s p (APinned l) \<longleftrightarrow> topic_live c s (pl_topic_idx l) \<and> pl_block_idx l \<in># held p \<and>
     pl_capacity l = unat (data_capacity c) \<and> pl_len l \<le> pl_capacity l"

text \<open>
  A process that opened the segment has the creator's geometry, but not its heartbeat interval
  and stale timeout.
\<close>

definition same_geometry :: "config \<Rightarrow> config \<Rightarrow> bool" where
  "same_geometry c c' \<longleftrightarrow> max_topics c' = max_topics c \<and> block_count c' = block_count c \<and>
     block_size c' = block_size c \<and> ring_depth c' = ring_depth c"

definition pub_ok :: "config \<Rightarrow> publisher \<Rightarrow> bool" where
  "pub_ok c p \<longleftrightarrow> same_geometry c (pub_config p) \<and> pub_wf (pub_config p) p"

definition party_wf :: "config \<Rightarrow> shm \<Rightarrow> party \<Rightarrow> bool" where
  "party_wf c s pt \<longleftrightarrow> pub_ok c (pt_pub pt) \<and> outstanding_wf c s (pt_pub pt) (pt_loan pt)"

definition stream_ok :: "config \<Rightarrow> stream \<Rightarrow> bool" where
  "stream_ok c st \<longleftrightarrow> same_geometry c (st_config st) \<and> st_topic_idx st < max_topics c"

definition env_ok :: "config \<Rightarrow> config list \<Rightarrow> bytes \<Rightarrow> bool" where
  "env_ok c subs hdr \<longleftrightarrow> (\<forall>c' \<in> set subs. same_geometry c c') \<and> same_geometry c (header_config hdr)"

text \<open>No block is in two ring slots.\<close>

definition ring_once :: "config \<Rightarrow> shm \<Rightarrow> bool" where
  "ring_once c s \<longleftrightarrow> (\<forall>i < block_count c. count (ring_blocks c s) i \<le> 1)"

text \<open>
  The delivery invariant of one topic with history \<open>hs\<close>: a written slot holds the payload its
  sequence number has in the history, and every ring publication of the last \<open>ring_depth\<close>
  sequence numbers is still in its slot.
\<close>

definition entry_ok :: "config \<Rightarrow> shm \<Rightarrow> bytes option list \<Rightarrow> u32 \<Rightarrow> ring_entry \<Rightarrow> bool" where
  "entry_ok c s hs k e \<longleftrightarrow>
     (if re_seq e = 0 then re_block_idx e = NO_BLOCK
      else unat (re_seq e) \<le> length hs \<and> ring_slot c (re_seq e) = k \<and> re_block_idx e < block_count c \<and>
        unat (re_data_len e) \<le> unat (data_capacity c) \<and>
        hs ! (unat (re_seq e) - 1) = Some (take (unat (re_data_len e)) (bk_data (blocks s (re_block_idx e)))))"

definition window_ok :: "config \<Rightarrow> (u32 \<Rightarrow> ring_entry) \<Rightarrow> bytes option list \<Rightarrow> bool" where
  "window_ok c row hs \<longleftrightarrow>
     (\<forall>q. 1 \<le> q \<and> q \<le> length hs \<and> length hs < q + unat (ring_depth c) \<and> hs ! (q - 1) \<noteq> None \<longrightarrow>
        re_seq (row (ring_slot c (of_nat q))) = of_nat q)"

definition deliv :: "config \<Rightarrow> shm \<Rightarrow> (u32 \<Rightarrow> bytes option list) \<Rightarrow> bool" where
  "deliv c s hist \<longleftrightarrow>
     (\<forall>t < max_topics c. length (hist t) = unat (te_write_seq (topics s t)) \<and>
        (te_active (topics s t) = TE_STATE_FREE \<longrightarrow> hist t = []) \<and>
        (\<forall>k < ring_depth c. entry_ok c s (hist t) k (rings s t k)) \<and> window_ok c (rings s t) (hist t))"

definition meminv :: "config \<Rightarrow> shm \<Rightarrow> (u32 \<Rightarrow> bytes option list) \<Rightarrow> bool" where
  "meminv c s hist \<longleftrightarrow> ring_once c s \<and> data_wf c s \<and> deliv c s hist"

definition sysinv :: "config \<Rightarrow> system \<Rightarrow> bool" where
  "sysinv c \<sigma> \<longleftrightarrow>
     acct c (sy_shm \<sigma>) (idle \<sigma>) (refs \<sigma>) \<and> meminv c (sy_shm \<sigma>) (sy_hist \<sigma>) \<and>
     (\<forall>pt \<in> set (sy_parties \<sigma>). party_wf c (sy_shm \<sigma>) pt) \<and>
     (\<forall>h \<in> set (sy_handles \<sigma>). topic_live c (sy_shm \<sigma>) (topic_idx h)) \<and>
     (\<forall>st \<in> set (sy_streams \<sigma>). stream_ok c st) \<and>
     env_ok c (sy_subs \<sigma>) (sy_header \<sigma>)"

section \<open>Geometry\<close>

lemma same_geometryD:
  "same_geometry c c' \<Longrightarrow> max_topics c' = max_topics c \<and> block_count c' = block_count c \<and>
     block_size c' = block_size c \<and> ring_depth c' = ring_depth c"
  by (simp add: same_geometry_def)

lemma same_geometry_refl [simp]: "same_geometry c c"
  by (simp add: same_geometry_def)

lemma same_geometry_sym: "same_geometry c c' \<Longrightarrow> same_geometry c' c"
  by (simp add: same_geometry_def)

lemma same_geometry_opened [simp]: "same_geometry c (opened_config c)"
  by (simp add: same_geometry_def opened_config_def)

text \<open>Nothing in the model but the heartbeat depends on more than the geometry.\<close>

lemma geometry_congs:
  assumes "same_geometry c c'"
  shows "data_capacity c' = data_capacity c" "ring_slot c' = ring_slot c" "ring_blocks c' = ring_blocks c"
    "free_list c' = free_list c" "data_wf c' = data_wf c" "loan_wf c' = loan_wf c" "config_ok c' = config_ok c"
    "free_block c' = free_block c" "release_block c' = release_block c" "slot_ready c' = slot_ready c"
    "same_geometry c' d = same_geometry c d"
  using same_geometryD [OF assms]
  by (simp_all add: fun_eq_iff data_capacity_def ring_slot_def ring_blocks_def ring_slots_def free_list_def data_wf_def
      loan_wf_def config_ok_def region_size_checked_eq region_bytes_def pool_start_def block_pool_offset_def ring_base_def
      free_block_def release_block_def block_refcount_checked_def slot_ready_def same_geometry_def Let_def)

lemma geometry_inv:
  assumes "same_geometry c c'"
  shows "acct c' = acct c" "topic_live c' = topic_live c" "outstanding_wf c' = outstanding_wf c" "meminv c' = meminv c"
    "pub_ok c' = pub_ok c" "stream_ok c' = stream_ok c" "env_ok c' = env_ok c"
proof -
  note g = same_geometryD [OF assms] and gc = geometry_congs [OF assms]
  show "acct c' = acct c" by (simp add: fun_eq_iff acct_def g gc)
  show tl: "topic_live c' = topic_live c" by (simp add: fun_eq_iff topic_live_def g)
  have "outstanding_wf c' s p x = outstanding_wf c s p x" for s p x by (cases x) (simp_all add: tl gc)
  then show "outstanding_wf c' = outstanding_wf c" by (simp add: fun_eq_iff)
  have "entry_ok c' = entry_ok c" "window_ok c' = window_ok c" "ring_once c' = ring_once c"
    by (simp_all add: fun_eq_iff entry_ok_def window_ok_def ring_once_def g gc)
  then show "meminv c' = meminv c" by (simp add: fun_eq_iff meminv_def deliv_def g gc)
  show "pub_ok c' = pub_ok c" "stream_ok c' = stream_ok c" "env_ok c' = env_ok c"
    by (simp_all add: fun_eq_iff pub_ok_def stream_ok_def env_ok_def g gc)
qed

lemma sysinv_geometry: "same_geometry c c' \<Longrightarrow> sysinv c' = sysinv c"
  by (simp add: fun_eq_iff sysinv_def party_wf_def geometry_inv)

lemma pub_wf_ok [simp]: "pub_wf c p \<Longrightarrow> pub_ok c p"
  by (simp add: pub_ok_def pub_wf_def)

section \<open>Framing\<close>

text \<open>A change of memory that the delivery invariant does not see.\<close>

definition mem_frame :: "shm \<Rightarrow> shm \<Rightarrow> bool" where
  "mem_frame s s' \<longleftrightarrow> rings s' = rings s \<and> (\<forall>i. bk_data (blocks s' i) = bk_data (blocks s i)) \<and>
     (\<forall>t. te_write_seq (topics s' t) = te_write_seq (topics s t) \<and> te_active (topics s' t) = te_active (topics s t))"

lemma mem_frame_refl [simp]: "mem_frame s s"
  by (simp add: mem_frame_def)

lemma mem_frame_trans: "mem_frame s s' \<Longrightarrow> mem_frame s' s'' \<Longrightarrow> mem_frame s s''"
  by (simp add: mem_frame_def)

lemma mem_frame_pool: "same_but_pool s s' \<Longrightarrow> mem_frame s s'"
  by (simp add: mem_frame_def same_but_pool_def)

lemma mem_frame_free [simp]: "mem_frame s (free_block c x s)"
  by (rule mem_frame_pool [OF same_but_pool_free])

lemma mem_frame_refcount [simp]: "mem_frame s (upd_block b (\<lambda>x. x\<lparr>bk_refcount := n\<rparr>) s)"
  by (simp add: mem_frame_def)

lemma mem_frame_release: "mem_frame s (release_block c x s)"
proof (cases "block_refcount_checked c s x")
  case (Some n)
  have "mem_frame s (upd_block x (\<lambda>b. b\<lparr>bk_refcount := n - 1\<rparr>) s)" by simp
  with mem_frame_trans [OF this mem_frame_free [of _ c x]] show ?thesis
    unfolding release_block_def Some by (simp only: Let_def option.case split: if_split) simp
qed (simp add: release_block_def)

lemma mem_frame_topic:
  "(\<And>e. te_write_seq (f e) = te_write_seq e \<and> te_active (f e) = te_active e) \<Longrightarrow> mem_frame s (upd_topic t f s)"
  by (simp add: mem_frame_def)

lemma entry_ok_cong:
  "bk_data (blocks s' (re_block_idx e)) = bk_data (blocks s (re_block_idx e)) \<Longrightarrow> entry_ok c s' hs k e = entry_ok c s hs k e"
  by (simp add: entry_ok_def)

lemma meminv_frame: "mem_frame s s' \<Longrightarrow> meminv c s hist \<Longrightarrow> meminv c s' hist"
  unfolding meminv_def ring_once_def data_wf_def deliv_def
  by (simp add: mem_frame_def ring_blocks_def entry_ok_cong [of s' _ s])

lemma topic_live_frame: "mem_frame s s' \<Longrightarrow> topic_live c s' t = topic_live c s t"
  by (simp add: mem_frame_def topic_live_def)

lemma outstanding_wf_live:
  "(\<And>t. topic_live c s t \<Longrightarrow> topic_live c s' t) \<Longrightarrow> outstanding_wf c s p x \<Longrightarrow> outstanding_wf c s' p x"
  by (cases x) auto

lemma party_wf_live:
  "(\<And>t. topic_live c s t \<Longrightarrow> topic_live c s' t) \<Longrightarrow> party_wf c s pt \<Longrightarrow> party_wf c s' pt"
  by (auto simp: party_wf_def intro: outstanding_wf_live)

section \<open>Parties as a list\<close>

lemma sum_list_split:
  assumes "i < length xs"
  shows "sum_list (map f xs) = sum_list (map f (remove_at i xs)) + (f (xs ! i) :: 'b :: comm_monoid_add)"
    and "sum_list (map f (xs[i := y])) = sum_list (map f (remove_at i xs)) + f y"
proof -
  have "sum_list (map f (take i xs @ xs ! i # drop (Suc i) xs)) = sum_list (map f (remove_at i xs)) + f (xs ! i)"
    by (simp only: map_append sum_list_append list.map sum_list.Cons remove_at_def ac_simps)
  then show "sum_list (map f xs) = sum_list (map f (remove_at i xs)) + f (xs ! i)"
    by (simp only: id_take_nth_drop [OF assms, symmetric])
  have "xs[i := y] = take i xs @ y # drop (Suc i) xs" using assms by (rule upd_conv_take_nth_drop)
  then show "sum_list (map f (xs[i := y])) = sum_list (map f (remove_at i xs)) + f y"
    by (simp add: remove_at_def ac_simps)
qed

lemma mset_remove_at: "k < length xs \<Longrightarrow> mset xs = add_mset (xs ! k) (mset (remove_at k xs))"
  by (subst (1) id_take_nth_drop [of k xs]) (simp_all add: remove_at_def)

lemma set_remove_at: "set (remove_at k xs) \<subseteq> set xs"
  by (auto simp: remove_at_def dest: in_set_takeD in_set_dropD)

text \<open>The blocks of all parties but one.\<close>

definition others :: "nat \<Rightarrow> system \<Rightarrow> u32 multiset" where
  "others i \<sigma> = sum_list (map party_blocks (remove_at i (sy_parties \<sigma>)))"

lemma idle_split: "i < length (sy_parties \<sigma>) \<Longrightarrow> idle \<sigma> = others i \<sigma> + party_blocks (sy_parties \<sigma> ! i)"
  by (simp add: idle_def others_def sum_list_split(1))

lemma idle_set_party:
  "i < length (sy_parties \<sigma>) \<Longrightarrow> idle (set_party i pt s \<sigma>) = others i \<sigma> + party_blocks pt"
  by (simp add: idle_def others_def sum_list_split(2))

section \<open>The delivery invariant under writes and commits\<close>

lemma ring_member: "t < max_topics c \<Longrightarrow> k < ring_depth c \<Longrightarrow> re_block_idx (rings s t k) \<in># ring_blocks c s"
  by (rule ring_blocks_upd(2))

lemma meminvI:
  assumes "ring_once c s" "data_wf c s"
    "\<And>t. t < max_topics c \<Longrightarrow> length (hist t) = unat (te_write_seq (topics s t))"
    "\<And>t. t < max_topics c \<Longrightarrow> te_active (topics s t) = TE_STATE_FREE \<Longrightarrow> hist t = []"
    "\<And>t k. t < max_topics c \<Longrightarrow> k < ring_depth c \<Longrightarrow> entry_ok c s (hist t) k (rings s t k)"
    "\<And>t. t < max_topics c \<Longrightarrow> window_ok c (rings s t) (hist t)"
  shows "meminv c s hist"
  using assms unfolding meminv_def deliv_def by blast

lemma meminvD:
  assumes "meminv c s hist"
  shows "ring_once c s" "data_wf c s"
    "t < max_topics c \<Longrightarrow> length (hist t) = unat (te_write_seq (topics s t))"
    "t < max_topics c \<Longrightarrow> te_active (topics s t) = TE_STATE_FREE \<Longrightarrow> hist t = []"
    "t < max_topics c \<Longrightarrow> k < ring_depth c \<Longrightarrow> entry_ok c s (hist t) k (rings s t k)"
    "t < max_topics c \<Longrightarrow> window_ok c (rings s t) (hist t)"
  using assms unfolding meminv_def deliv_def by blast+

text \<open>Writing to a block that is in no ring slot.\<close>

lemma meminv_write:
  assumes "meminv c s hist" "b \<notin># ring_blocks c s" "length d = length (bk_data (blocks s b))"
  shows "meminv c (upd_block b (\<lambda>x. x\<lparr>bk_data := d\<rparr>) s) hist" (is "meminv c ?s hist")
proof (rule meminvI)
  have rb: "ring_blocks c ?s = ring_blocks c s" by (rule ring_blocks_cong) simp
  show "ring_once c ?s" using meminvD(1) [OF assms(1)] by (simp add: ring_once_def rb)
  show "data_wf c ?s" by (rule data_wf_upd [OF meminvD(2) [OF assms(1)]]) (simp add: assms(3))
  fix t k
  assume "t < max_topics c"
  note m = meminvD(3-6) [OF assms(1) this] and rm = ring_member [OF this]
  show "length (hist t) = unat (te_write_seq (topics ?s t))"
    "te_active (topics ?s t) = TE_STATE_FREE \<Longrightarrow> hist t = []" "window_ok c (rings ?s t) (hist t)"
    using m(1,2,4) by simp_all
  assume k: "k < ring_depth c"
  then have "re_block_idx (rings s t k) \<noteq> b" using rm assms(2) by metis
  then have "entry_ok c ?s (hist t) k (rings s t k) = entry_ok c s (hist t) k (rings s t k)"
    by (intro entry_ok_cong) simp
  then show "entry_ok c ?s (hist t) k (rings ?s t k)" using m(3) [OF k] by simp
qed

lemma entry_ok_append: "entry_ok c s hs k e \<Longrightarrow> entry_ok c s (hs @ [x]) k e"
proof (cases "re_seq e = 0")
  case False
  assume a: "entry_ok c s hs k e"
  have "0 < unat (re_seq e)" using False by (simp add: unat_gt_0)
  with a False have "unat (re_seq e) - 1 < length hs" by (auto simp: entry_ok_def)
  with a False show ?thesis by (simp add: entry_ok_def nth_append)
qed (simp add: entry_ok_def)

lemma window_ok_append:
  assumes "window_ok c row hs"
    and "\<And>q. 1 \<le> q \<Longrightarrow> q \<le> length hs \<Longrightarrow> length hs + 1 < q + unat (ring_depth c) \<Longrightarrow>
      row' (ring_slot c (of_nat q)) = row (ring_slot c (of_nat q))"
    and "x \<noteq> None \<Longrightarrow> re_seq (row' (ring_slot c (of_nat (length hs + 1)))) = of_nat (length hs + 1)"
  shows "window_ok c row' (hs @ [x])"
  unfolding window_ok_def
proof (intro allI impI)
  fix q
  assume q: "1 \<le> q \<and> q \<le> length (hs @ [x]) \<and> length (hs @ [x]) < q + unat (ring_depth c) \<and> (hs @ [x]) ! (q - 1) \<noteq> None"
  show "re_seq (row' (ring_slot c (of_nat q))) = of_nat q"
  proof (cases "q = length hs + 1")
    case True
    with q have "x \<noteq> None" by (simp add: nth_append)
    with assms(3) True show ?thesis by simp
  next
    case False
    with q have le: "q \<le> length hs" by simp
    with q have "hs ! (q - 1) \<noteq> None" by (auto simp: nth_append split: if_splits)
    with assms(1) q le have "re_seq (row (ring_slot c (of_nat q))) = of_nat q"
      unfolding window_ok_def by simp
    with assms(2) [of q] q le show ?thesis by simp
  qed
qed

text \<open>Sequence numbers less than a ring apart have different slots.\<close>

lemma ring_slot_apart:
  assumes "is_power_of_two (ring_depth c)" "a < b" "b < a + unat (ring_depth c)" "b < 2 ^ 64"
  shows "ring_slot c (of_nat a) \<noteq> ring_slot c (of_nat b)"
proof
  assume "ring_slot c (of_nat a) = ring_slot c (of_nat b)"
  then have "unat (of_nat a :: u64) mod unat (ring_depth c) = unat (of_nat b :: u64) mod unat (ring_depth c)"
    by (metis ring_slot_nat [OF assms(1)])
  then show False using mod_apart [OF assms(2,3)] assms(2,4) by (simp add: unat_of_nat)
qed

lemma ring_once_upd:
  assumes "ring_once c s" "t < max_topics c" "k < ring_depth c" "re_block_idx (f (rings s t k)) \<notin># ring_blocks c s"
  shows "ring_once c (upd_ring t k f s)"
proof -
  let ?b = "re_block_idx (f (rings s t k))" and ?old = "re_block_idx (rings s t k)"
  have b: "count (ring_blocks c s) ?b = 0" using assms(4) by (simp add: not_in_iff)
  have "count (ring_blocks c (upd_ring t k f s)) i \<le> (if i = ?b then 1 else count (ring_blocks c s) i)" for i
    unfolding ring_blocks_upd(1) [OF assms(2,3)] using b by (simp add: Multiset.count_diff)
  note le = this
  show ?thesis unfolding ring_once_def
  proof (intro allI impI)
    fix i assume "i < block_count c"
    then have "count (ring_blocks c s) i \<le> 1" using assms(1) by (simp add: ring_once_def)
    then show "count (ring_blocks c (upd_ring t k f s)) i \<le> 1" using le [of i] by (simp split: if_splits)
  qed
qed

text \<open>A ring publication extends the topic's history by the committed bytes.\<close>

lemma meminv_commit:
  assumes m: "meminv c s hist" and b: "b \<notin># ring_blocks c s" "b < block_count c"
    and t: "topic_live c s t" and d: "is_power_of_two (ring_depth c)" and room: "seq_room s t"
    and len: "n \<le> unat (data_capacity c)" "n < 2 ^ 32"
  shows "meminv c (publish_slot c b (of_nat n) t s) (hist(t := hist t @ [Some (take n (bk_data (blocks s b)))]))"
    (is "meminv c ?s ?hist")
proof (rule meminvI)
  let ?w = "te_write_seq (topics s t)"
  have tm: "t < max_topics c" and act: "te_active (topics s t) \<noteq> TE_STATE_FREE"
    using t by (simp_all add: topic_live_def)
  note mt = meminvD(3-6) [OF m tm]
  define k0 where "k0 = ring_slot c (?w + 1)"
  have k0: "k0 < ring_depth c" unfolding k0_def by (rule ring_slot_less [OF d])
  have w1: "unat (?w + 1) = unat ?w + 1" using room by (simp add: seq_room_def unat_word_ariths)
  have wn: "?w + 1 = of_nat (length (hist t) + 1)" using mt(1) by (simp add: add.commute)
  have n: "unat (of_nat n :: u32) = n" using len(2) by (simp add: unat_of_nat)
  define e0 where "e0 = (rings s t k0)\<lparr>re_block_idx := b, re_data_len := of_nat n, re_seq := ?w + 1\<rparr>"
  have rows: "rings ?s u k = (if u = t \<and> k = k0 then e0 else rings s u k)" for u k
    by (simp add: publish_slot_def Let_def k0_def e0_def)
  have tops: "topics ?s = (topics s)(t := (topics s t)\<lparr>te_write_seq := ?w + 1\<rparr>)"
    by (simp add: publish_slot_def Let_def)
  have ok: "entry_ok c ?s hs k e = entry_ok c s hs k e" for hs k e by (rule entry_ok_cong) simp
  show "ring_once c ?s"
  proof -
    let ?u = "upd_ring t k0 (\<lambda>_. e0) s"
    have "ring_once c ?u" by (rule ring_once_upd [OF meminvD(1) [OF m] tm k0]) (simp add: e0_def b(1))
    moreover have "ring_blocks c ?s = ring_blocks c ?u"
      by (rule ring_blocks_cong) (auto simp: fun_eq_iff rows)
    ultimately show ?thesis by (simp add: ring_once_def)
  qed
  show "data_wf c ?s" using meminvD(2) [OF m] by (rule data_wf_cong) simp
  fix u
  assume u: "u < max_topics c"
  note mu = meminvD(3-6) [OF m u]
  show "length (?hist u) = unat (te_write_seq (topics ?s u))" using mt(1) mu(1) w1 by (simp add: tops)
  show "te_active (topics ?s u) = TE_STATE_FREE \<Longrightarrow> ?hist u = []"
    using mu(2) act by (simp add: tops split: if_splits)
  show "window_ok c (rings ?s u) (?hist u)"
  proof (cases "u = t")
    case True
    have "rings ?s t (ring_slot c (of_nat q)) = rings s t (ring_slot c (of_nat q))"
      if "q \<le> length (hist t)" "length (hist t) + 1 < q + unat (ring_depth c)" for q
      using ring_slot_apart [OF d, of q "length (hist t) + 1"] that room mt(1)
      by (simp only: rows k0_def wn seq_room_def) simp
    moreover have "re_seq (rings ?s t (ring_slot c (of_nat (length (hist t) + 1)))) = of_nat (length (hist t) + 1)"
      unfolding wn [symmetric] by (simp only: rows k0_def [symmetric]) (simp add: e0_def)
    ultimately have "window_ok c (rings ?s t) (hist t @ [Some (take n (bk_data (blocks s b)))])"
      by (intro window_ok_append [OF mt(4)])
    with True show ?thesis by simp
  next
    case False
    then have "rings ?s u = rings s u" by (simp add: fun_eq_iff rows)
    with False mu(4) show ?thesis by simp
  qed
  fix k
  assume k: "k < ring_depth c"
  show "entry_ok c ?s (?hist u) k (rings ?s u k)"
  proof (cases "u = t \<and> k = k0")
    case True
    have "?w + 1 \<noteq> 0" using w1 by (metis Suc_eq_plus1 nat.simps(3) unat_0)
    then show ?thesis unfolding ok using True mt(1) w1 n len(1) b(2)
      by (simp add: rows entry_ok_def e0_def k0_def nth_append)
  next
    case False
    then show ?thesis using mu(3) [OF k] mt(3) [OF k] unfolding ok by (auto simp: rows intro: entry_ok_append)
  qed
qed

text \<open>A pinned publication takes a sequence number and leaves the ring alone.\<close>

lemma meminv_pinned:
  assumes m: "meminv c s hist" and t: "topic_live c s t" and room: "seq_room s t"
  shows "meminv c (upd_topic t (\<lambda>e. e\<lparr>te_write_seq := te_write_seq e + 1\<rparr>) s) (hist(t := hist t @ [None]))"
    (is "meminv c ?s ?hist")
proof (rule meminvI)
  have tm: "t < max_topics c" and act: "te_active (topics s t) \<noteq> TE_STATE_FREE"
    using t by (simp_all add: topic_live_def)
  have w1: "unat (te_write_seq (topics s t) + 1) = unat (te_write_seq (topics s t)) + 1"
    using room by (simp add: seq_room_def unat_word_ariths)
  have rb: "ring_blocks c ?s = ring_blocks c s" by (rule ring_blocks_cong) simp
  show "ring_once c ?s" using meminvD(1) [OF m] by (simp add: ring_once_def rb)
  show "data_wf c ?s" using meminvD(2) [OF m] by (rule data_wf_cong) simp
  fix u
  assume u: "u < max_topics c"
  note mu = meminvD(3-6) [OF m u]
  show "length (?hist u) = unat (te_write_seq (topics ?s u))" using mu(1) w1 by (cases "u = t") simp_all
  show "te_active (topics ?s u) = TE_STATE_FREE \<Longrightarrow> ?hist u = []" using mu(2) act by (simp split: if_splits)
  show "window_ok c (rings ?s u) (?hist u)" using window_ok_append [OF mu(4), of "rings s u" None] mu(4)
    by (cases "u = t") simp_all
  fix k
  assume k: "k < ring_depth c"
  have "entry_ok c ?s hs k e = entry_ok c s hs k e" for hs e by (rule entry_ok_cong) simp
  then show "entry_ok c ?s (?hist u) k (rings ?s u k)" using mu(3) [OF k]
    by (cases "u = t") (simp_all add: entry_ok_append)
qed

text \<open>Registration starts a free topic at sequence number 0 with the empty history it had.\<close>

lemma meminv_register:
  assumes m: "meminv c s hist" and "te_active (topics s t) = TE_STATE_FREE"
  shows "meminv c (upd_topic t (init_topic uri tsize) s) hist" (is "meminv c ?s hist")
proof (rule meminvI)
  have rb: "ring_blocks c ?s = ring_blocks c s" by (rule ring_blocks_cong) simp
  show "ring_once c ?s" using meminvD(1) [OF m] by (simp add: ring_once_def rb)
  show "data_wf c ?s" using meminvD(2) [OF m] by (rule data_wf_cong) simp
  fix u
  assume u: "u < max_topics c"
  note mu = meminvD(3-6) [OF m u]
  show "length (hist u) = unat (te_write_seq (topics ?s u))" using mu(1,2) assms(2) by (cases "u = t") (simp_all add: init_topic_def)
  show "te_active (topics ?s u) = TE_STATE_FREE \<Longrightarrow> hist u = []" using mu(2) assms(2) by (simp split: if_splits)
  show "window_ok c (rings ?s u) (hist u)" using mu(4) by simp
  fix k
  assume k: "k < ring_depth c"
  have "entry_ok c ?s hs k e = entry_ok c s hs k e" for hs e by (rule entry_ok_cong) simp
  then show "entry_ok c ?s (hist u) k (rings ?s u k)" using mu(3) [OF k] by simp
qed

section \<open>Every step keeps the invariant\<close>

lemma sysinvI:
  assumes "acct c (sy_shm \<sigma>) (idle \<sigma>) (refs \<sigma>)" "meminv c (sy_shm \<sigma>) (sy_hist \<sigma>)"
    "\<And>pt. pt \<in> set (sy_parties \<sigma>) \<Longrightarrow> party_wf c (sy_shm \<sigma>) pt"
    "\<And>h. h \<in> set (sy_handles \<sigma>) \<Longrightarrow> topic_live c (sy_shm \<sigma>) (topic_idx h)"
    "\<And>st. st \<in> set (sy_streams \<sigma>) \<Longrightarrow> stream_ok c st" "env_ok c (sy_subs \<sigma>) (sy_header \<sigma>)"
  shows "sysinv c \<sigma>"
  using assms by (simp add: sysinv_def)

lemma sysinvD:
  assumes "sysinv c \<sigma>"
  shows "acct c (sy_shm \<sigma>) (idle \<sigma>) (refs \<sigma>)" "meminv c (sy_shm \<sigma>) (sy_hist \<sigma>)"
    "pt \<in> set (sy_parties \<sigma>) \<Longrightarrow> party_wf c (sy_shm \<sigma>) pt"
    "h \<in> set (sy_handles \<sigma>) \<Longrightarrow> topic_live c (sy_shm \<sigma>) (topic_idx h)"
    "st \<in> set (sy_streams \<sigma>) \<Longrightarrow> stream_ok c st" "env_ok c (sy_subs \<sigma>) (sy_header \<sigma>)"
  using assms by (simp_all add: sysinv_def)

lemma sysinv_partyD:
  assumes "sysinv c \<sigma>" "i < length (sy_parties \<sigma>)" "pt = sy_parties \<sigma> ! i"
  shows "acct c (sy_shm \<sigma>) (others i \<sigma> + party_blocks pt) (refs \<sigma>)" "party_wf c (sy_shm \<sigma>) pt"
    "pub_config (pt_pub pt) = c \<Longrightarrow> pub_wf c (pt_pub pt)" "outstanding_wf c (sy_shm \<sigma>) (pt_pub pt) (pt_loan pt)"
    "same_geometry c (pub_config (pt_pub pt))" "pub_ok c (pt_pub pt)"
proof -
  show "acct c (sy_shm \<sigma>) (others i \<sigma> + party_blocks pt) (refs \<sigma>)"
    using sysinvD(1) [OF assms(1)] idle_split [OF assms(2)] assms(3) by simp
  show "party_wf c (sy_shm \<sigma>) pt" using sysinvD(3) [OF assms(1)] assms(2,3) by simp
  then show "pub_config (pt_pub pt) = c \<Longrightarrow> pub_wf c (pt_pub pt)" "outstanding_wf c (sy_shm \<sigma>) (pt_pub pt) (pt_loan pt)"
    "same_geometry c (pub_config (pt_pub pt))" "pub_ok c (pt_pub pt)"
    by (simp_all add: party_wf_def pub_ok_def)
qed

text \<open>A step of one party may be taken under the configuration that party has.\<close>

lemma via_party:
  assumes "sysinv c \<sigma>" "i < length (sy_parties \<sigma>)" "pt = sy_parties \<sigma> ! i" "config_ok c"
    and "\<And>c'. sysinv c' \<sigma> \<Longrightarrow> config_ok c' \<Longrightarrow> same_geometry c c' \<Longrightarrow> pub_config (pt_pub pt) = c' \<Longrightarrow> sysinv c' \<sigma>'"
  shows "sysinv c \<sigma>'"
proof -
  note g = sysinv_partyD(5) [OF assms(1-3)]
  have "sysinv (pub_config (pt_pub pt)) \<sigma>'"
    by (rule assms(5)) (use assms(1,4) g in \<open>simp_all add: sysinv_geometry [OF g] geometry_congs [OF g]\<close>)
  then show ?thesis by (simp add: sysinv_geometry [OF g])
qed

text \<open>A step of one party: its own new state, and what it leaves of the memory.\<close>

lemma sysinv_set_party:
  assumes inv: "sysinv c \<sigma>" and i: "i < length (sy_parties \<sigma>)"
    and live: "\<And>t. topic_live c (sy_shm \<sigma>) t \<Longrightarrow> topic_live c s' t"
    and m: "meminv c s' hist'" and a: "acct c s' (others i \<sigma> + party_blocks pt') (refs \<sigma>)"
    and p: "pub_ok c (pt_pub pt')" "outstanding_wf c s' (pt_pub pt') (pt_loan pt')"
  shows "sysinv c (\<sigma>\<lparr>sy_shm := s', sy_parties := (sy_parties \<sigma>)[i := pt'], sy_hist := hist'\<rparr>)" (is "sysinv c ?\<tau>")
proof (rule sysinvI)
  have "idle ?\<tau> = idle (set_party i pt' s' \<sigma>)" "refs ?\<tau> = refs \<sigma>" by (simp_all add: idle_def refs_def)
  with a show "acct c (sy_shm ?\<tau>) (idle ?\<tau>) (refs ?\<tau>)" by (simp add: idle_set_party [OF i])
  show "meminv c (sy_shm ?\<tau>) (sy_hist ?\<tau>)" using m by simp
  show "party_wf c (sy_shm ?\<tau>) pt" if "pt \<in> set (sy_parties ?\<tau>)" for pt
  proof (cases "pt = pt'")
    case True
    with p show ?thesis by (simp add: party_wf_def)
  next
    case False
    then have "pt \<in> set (sy_parties \<sigma>)" using that set_update_subset_insert [of "sy_parties \<sigma>" i pt'] by auto
    from party_wf_live [OF live sysinvD(3) [OF inv this]] show ?thesis by simp
  qed
  show "topic_live c (sy_shm ?\<tau>) (topic_idx h)" if "h \<in> set (sy_handles ?\<tau>)" for h
    using that live sysinvD(4) [OF inv] by simp
  show "stream_ok c st" if "st \<in> set (sy_streams ?\<tau>)" for st using that sysinvD(5) [OF inv] by simp
  show "env_ok c (sy_subs ?\<tau>) (sy_header ?\<tau>)" using sysinvD(6) [OF inv] by simp
qed

lemma sysinv_party_frame:
  assumes inv: "sysinv c \<sigma>" and i: "i < length (sy_parties \<sigma>)" and f: "mem_frame (sy_shm \<sigma>) s'"
    and a: "acct c s' (others i \<sigma> + party_blocks pt') (refs \<sigma>)"
    and p: "pub_ok c (pt_pub pt')" "outstanding_wf c (sy_shm \<sigma>) (pt_pub pt') (pt_loan pt')"
  shows "sysinv c (set_party i pt' s' \<sigma>)"
proof -
  have live: "topic_live c (sy_shm \<sigma>) t \<Longrightarrow> topic_live c s' t" for t by (simp add: topic_live_frame [OF f])
  from sysinv_set_party [OF inv i live meminv_frame [OF f sysinvD(2) [OF inv]] a p(1) outstanding_wf_live [OF live p(2)]]
  show ?thesis by simp
qed

lemma new_publisher_wf: "pub_wf c (new_publisher c name ino owner ident now)" "held (new_publisher c name ino owner ident now) = {#}"
  by (simp_all add: new_publisher_def pub_wf_def from_raw_def held_def cached_def pinned_def recycled_def)

lemma opened_geometry:
  assumes "sysinv c \<sigma>" "open_and_validate_region os tmp \<lparr>oo_open = Inr (file_of \<sigma>), oo_meta = meta, oo_map = map_err\<rparr> clk name = Inr (r, path)"
  shows "same_geometry c (rg_config r)"
proof -
  have "r = from_raw (header_config (sy_header \<sigma>))"
    using assms(2) unfolding open_and_validate_region_def Let_def by (auto split: sum.splits option.splits if_splits)
  then show ?thesis using sysinvD(6) [OF assms(1)] by (simp add: env_ok_def from_raw_def)
qed

lemma step_open:
  assumes inv: "sysinv c \<sigma>"
    and op: "publisher_open os tmp lock_err lock_ok \<lparr>oo_open = Inr (file_of \<sigma>), oo_meta = meta, oo_map = map_err\<rparr> clk now ident name = Inr p"
  shows "sysinv c (\<sigma>\<lparr>sy_parties := sy_parties \<sigma> @ [\<lparr>pt_pub = p, pt_loan = NoLoan\<rparr>]\<rparr>)"
proof -
  obtain r path where r: "open_and_validate_region os tmp \<lparr>oo_open = Inr (file_of \<sigma>), oo_meta = meta, oo_map = map_err\<rparr> clk name = Inr (r, path)"
    "p = new_publisher (rg_config r) name None False ident now"
    using op by (auto simp: publisher_open_def split: sum.splits option.splits)
  note g = opened_geometry [OF inv r(1)]
  have "held p = {#}" "pub_ok c p"
    using new_publisher_wf [of "rg_config r"] g unfolding r(2) by (simp_all add: pub_ok_def new_publisher_def from_raw_def)
  then show ?thesis
    using inv by (auto simp: sysinv_def idle_def refs_def party_blocks_def party_wf_def)
qed

lemma step_connect:
  assumes inv: "sysinv c \<sigma>"
    and co: "connect os tmp \<lparr>oo_open = Inr (file_of \<sigma>), oo_meta = meta, oo_map = map_err\<rparr> clk name = Inr r"
  shows "sysinv c (\<sigma>\<lparr>sy_subs := rg_config r # sy_subs \<sigma>\<rparr>)"
proof -
  obtain path where "open_and_validate_region os tmp \<lparr>oo_open = Inr (file_of \<sigma>), oo_meta = meta, oo_map = map_err\<rparr> clk name = Inr (r, path)"
    using co by (auto simp: connect_def split: sum.splits)
  from opened_geometry [OF inv this] inv show ?thesis
    by (simp add: sysinv_def env_ok_def idle_def refs_def)
qed

lemma step_heartbeat:
  assumes inv: "sysinv c \<sigma>" and i: "i < length (sy_parties \<sigma>)" "pt = sy_parties \<sigma> ! i" "pt_loan pt = NoLoan"
    and h: "pub_heartbeat now clk (pt_pub pt) (sy_shm \<sigma>) = (res, p', s')"
    and cfg: "pub_config (pt_pub pt) = c"
  shows "sysinv c (set_party i (pt\<lparr>pt_pub := p'\<rparr>) s' \<sigma>)"
proof -
  obtain r u where hb: "update_heartbeat clk (sy_shm \<sigma>) = (r, u)" by (cases "update_heartbeat clk (sy_shm \<sigma>)")
  note fr = update_heartbeat_frame [OF hb] and pd = sysinv_partyD [OF inv i(1,2)]
  have "s' = u \<and> (p' = pt_pub pt \<or> p' = (pt_pub pt)\<lparr>last_heartbeat := now\<rparr>)"
    using h unfolding pub_heartbeat_def hb by (cases r; simp only: prod.case sum.case prod.inject; blast)
  then have s: "s' = u" and p': "p' = pt_pub pt \<or> p' = (pt_pub pt)\<lparr>last_heartbeat := now\<rparr>" by blast+
  have "held p' = held (pt_pub pt)" "pub_wf c p'"
    using p' pd(3) [OF cfg] by (elim disjE; simp add: held_def cached_def pinned_def pub_wf_def)+
  then have "acct c s' (others i \<sigma> + party_blocks (pt\<lparr>pt_pub := p'\<rparr>)) (refs \<sigma>)"
    using fr(2) [OF pd(1)] by (simp add: party_blocks_def s)
  then show ?thesis
    by (intro sysinv_party_frame [OF inv i(1)]) (simp_all add: \<open>pub_wf c p'\<close> s i(3) mem_frame_pool [OF fr(1)])
qed

lemma step_loan:
  assumes inv: "sysinv c \<sigma>" and i: "i < length (sy_parties \<sigma>)" "pt = sy_parties \<sigma> ! i" "pt_loan pt = NoLoan"
    and h: "h \<in> set (sy_handles \<sigma>)" and ln: "Publisher.loan now clk h (pt_pub pt) (sy_shm \<sigma>) = (res, p', s')"
    and cfg: "pub_config (pt_pub pt) = c"
  shows "sysinv c (set_party i \<lparr>pt_pub = p', pt_loan = (case res of Inr l \<Rightarrow> ALoan l | Inl _ \<Rightarrow> NoLoan)\<rparr> s' \<sigma>)"
proof -
  note pd = sysinv_partyD [OF inv i(1,2)]
  have "acct c (sy_shm \<sigma>) (others i \<sigma> + held (pt_pub pt)) (refs \<sigma>)" using pd(1) i(3) by (simp add: party_blocks_def)
  note la = loan_acct [OF ln pd(3) [OF cfg] this]
  show ?thesis
    by (rule sysinv_party_frame [OF inv i(1)])
      (use la mem_frame_pool sysinvD(4) [OF inv h] in \<open>auto simp: party_blocks_def split: sum.splits\<close>)
qed

lemma step_loan_typed:
  assumes inv: "sysinv c \<sigma>" and i: "i < length (sy_parties \<sigma>)" "pt = sy_parties \<sigma> ! i" "pt_loan pt = NoLoan"
    and h: "h \<in> set (sy_handles \<sigma>)" and ln: "loan_typed now clk h (pt_pub pt) (sy_shm \<sigma>) = (res, p', s')"
    and cfg: "pub_config (pt_pub pt) = c"
  shows "sysinv c (set_party i \<lparr>pt_pub = p', pt_loan = (case res of Inr l \<Rightarrow> ATyped n l | Inl _ \<Rightarrow> NoLoan)\<rparr> s' \<sigma>)"
proof -
  note pd = sysinv_partyD [OF inv i(1,2)]
  have "acct c (sy_shm \<sigma>) (others i \<sigma> + held (pt_pub pt)) (refs \<sigma>)" using pd(1) i(3) by (simp add: party_blocks_def)
  note la = loan_typed_acct [OF ln pd(3) [OF cfg] this]
  show ?thesis
    by (rule sysinv_party_frame [OF inv i(1)])
      (use la mem_frame_pool sysinvD(4) [OF inv h] in \<open>auto simp: party_blocks_def split: sum.splits\<close>)
qed

lemma step_loan_pinned:
  assumes inv: "sysinv c \<sigma>" and i: "i < length (sy_parties \<sigma>)" "pt = sy_parties \<sigma> ! i" "pt_loan pt = NoLoan"
    and h: "h \<in> set (sy_handles \<sigma>)" and ln: "loan_pinned h (pt_pub pt) (sy_shm \<sigma>) = (res, p', s')"
    and cfg: "pub_config (pt_pub pt) = c"
  shows "sysinv c (set_party i \<lparr>pt_pub = p', pt_loan = (case res of Inr l \<Rightarrow> APinned l | Inl _ \<Rightarrow> NoLoan)\<rparr> s' \<sigma>)"
proof -
  let ?p = "pt_pub pt" and ?s = "sy_shm \<sigma>" and ?t = "topic_idx h"
  note pd = sysinv_partyD [OF inv i(1,2)]
  have a0: "acct c ?s (others i \<sigma> + held ?p) (refs \<sigma>)" using pd(1) i(3) by (simp add: party_blocks_def)
  have live: "topic_live c ?s ?t" by (rule sysinvD(4) [OF inv h])
  then have t: "?t < max_topics c" by (simp add: topic_live_def)
  obtain r q u where pb: "pinned_block_for ?t ?p ?s = (r, q, u)" by (cases "pinned_block_for ?t ?p ?s")
  note pa = pinned_block_for_acct [OF pb pd(3) [OF cfg] a0 t]
  have f: "mem_frame ?s u" using pa by (simp add: mem_frame_def)
  consider (err) e where "res = Inl e" "p' = ?p" "s' = ?s" | (blk) e where "res = Inl e" "p' = q" "s' = u"
    | (ok) b where "r = Inr b" "p' = q" "s' = upd_topic ?t (\<lambda>e. e\<lparr>te_pinned_readers := PINNED_WRITER_ACTIVE\<rparr>) u"
        "res = Inr \<lparr>pl_capacity = unat (data_capacity (pub_config q)), pl_len = 0, pl_block_idx = b, pl_topic_idx = ?t\<rparr>"
    using ln unfolding loan_pinned_def Let_def pb by (cases r) (fastforce split: if_splits)+
  then show ?thesis
  proof cases
    case err
    then show ?thesis
      by (intro sysinv_party_frame [OF inv i(1)]) (simp_all add: party_blocks_def a0 pd(3) [OF cfg])
  next
    case blk
    with pa f show ?thesis
      by (intro sysinv_party_frame [OF inv i(1)]) (simp_all add: party_blocks_def)
  next
    case ok
    have "mem_frame ?s s'" unfolding ok(3) by (rule mem_frame_trans [OF f mem_frame_topic]) simp
    moreover have "acct c s' (others i \<sigma> + held q) (refs \<sigma>)" unfolding ok(3) using pa by (intro acct_upd_topic) simp
    moreover have "pub_config q = c" using pa by (simp add: pub_wf_def)
    ultimately show ?thesis using pa ok live
      by (intro sysinv_party_frame [OF inv i(1)]) (simp_all add: party_blocks_def)
  qed
qed

lemma step_register:
  assumes inv: "sysinv c \<sigma>" and i: "i < length (sy_parties \<sigma>)" "pt = sy_parties \<sigma> ! i"
    and r: "register_inner clk pid uri tsize (pt_pub pt) (sy_shm \<sigma>) reg = (Inr h, s', reg')"
    and cfg: "pub_config (pt_pub pt) = c"
  shows "sysinv c (\<sigma>\<lparr>sy_shm := s', sy_handles := h # sy_handles \<sigma>\<rparr>)"
proof -
  let ?s = "sy_shm \<sigma>" and ?t = "topic_idx h"
  have cases: "?t < max_topics c \<and> (s' = ?s \<and> te_active (topics ?s ?t) = TE_STATE_ACTIVE \<or>
      s' = upd_topic ?t (init_topic uri tsize) ?s \<and> te_active (topics ?s ?t) = TE_STATE_FREE)"
    using r unfolding register_inner_def cfg
    by (auto simp: topic_matches_def split: if_splits option.splits dest!: find_range_Some)
  have live: "topic_live c ?s t \<Longrightarrow> topic_live c s' t" for t
    using cases by (cases "t = ?t") (auto simp: topic_live_def init_topic_def TE_STATE_ACTIVE_def TE_STATE_FREE_def)
  have tl: "topic_live c s' ?t"
    using cases by (auto simp: topic_live_def init_topic_def TE_STATE_ACTIVE_def TE_STATE_FREE_def)
  have m: "meminv c s' (sy_hist \<sigma>)" using cases sysinvD(2) [OF inv] meminv_register by metis
  have "acct c s' (idle \<sigma>) (refs \<sigma>)" using cases sysinvD(1) [OF inv] acct_upd_topic by metis
  then have a: "acct c s' (idle (\<sigma>\<lparr>sy_shm := s', sy_handles := h # sy_handles \<sigma>\<rparr>))
      (refs (\<sigma>\<lparr>sy_shm := s', sy_handles := h # sy_handles \<sigma>\<rparr>))"
    by (simp add: idle_def refs_def)
  show ?thesis
  proof (rule sysinvI, goal_cases)
    case (3 pt) then show ?case using party_wf_live [OF live] sysinvD(3) [OF inv] by simp
  next
    case (4 h) then show ?case using live tl sysinvD(4) [OF inv] by auto
  next
    case (5 st) then show ?case using sysinvD(5) [OF inv] by simp
  qed (use a m sysinvD(6) [OF inv] in simp_all)
qed

text \<open>Every way of filling a loan changes only the data of its block.\<close>

abbreviation set_block_data :: "u32 \<Rightarrow> bytes \<Rightarrow> shm \<Rightarrow> shm" where
  "set_block_data b d s \<equiv> upd_block b (\<lambda>x. x\<lparr>bk_data := d\<rparr>) s"

lemma set_block_data_same [simp]: "set_block_data b (bk_data (blocks s b)) s = s"
  by simp

lemma set_block_data_ex: "length e = n \<Longrightarrow> \<exists>d. length d = n \<and> set_block_data b e s = set_block_data b d s"
  by blast

lemma loan_write_frame:
  assumes w: "loan_write l s l' s'" and wf: "loan_wf c l" "data_wf c s"
  shows "loan_wf c l' \<and> ln_block_idx l' = ln_block_idx l \<and> ln_topic_idx l' = ln_topic_idx l \<and>
    (\<exists>d. length d = length (bk_data (blocks s (ln_block_idx l))) \<and> s' = set_block_data (ln_block_idx l) d s)"
proof -
  let ?d = "bk_data (blocks s (ln_block_idx l))"
  have len: "length ?d = ln_capacity l" using wf by (simp add: loan_wf_def data_wf_def)
  have refl: "\<exists>d. length d = length ?d \<and> s = set_block_data (ln_block_idx l) d s" by (intro exI [of _ ?d]) simp
  show ?thesis using w
  proof cases
    case (w_data stream align data res)
    show ?thesis
    proof (cases "length data \<le> ln_capacity l")
      case True
      have "length (nontemporal_copy align data ?d (length data)) = length ?d" "length (overwrite ?d 0 data) = length ?d"
        using True len by (simp_all add: nontemporal_copy_eq)
      with w_data True len wf(1) show ?thesis unfolding set_data_def
        by (auto simp: loan_wf_def split: if_splits intro!: set_block_data_ex)
    next
      case False
      then show ?thesis using w_data wf(1) refl by (simp add: set_data_def)
    qed
  next
    case (w_structured hdr es res)
    show ?thesis
    proof (cases "length hdr + length (concat es) + 4 \<le> ln_capacity l")
      case True
      have "length (structured_bytes hdr es (length (concat es)) ?d) = length ?d"
        using True len by (intro length_structured(1)) simp
      with w_structured True wf(1) show ?thesis unfolding write_structured_def Let_def set_len_def
        by (auto simp: loan_wf_def split: if_splits simp del: length_concat)
    next
      case False
      then show ?thesis using w_structured wf(1) refl
        by (simp add: write_structured_def Let_def split: if_splits del: length_concat)
    qed
  next
    case (w_io buf res)
    let ?n = "min (length buf) (ln_capacity l - ln_len l)"
    have "length (overwrite ?d (ln_len l) (take ?n buf)) = length ?d"
      using wf(1) len by (intro length_overwrite) (auto simp: loan_wf_def)
    with w_io wf(1) refl show ?thesis unfolding io_write_def Let_def
      by (auto simp: loan_wf_def split: if_splits)
  next
    case (w_len n res)
    with wf(1) refl show ?thesis by (auto simp: set_len_def loan_wf_def split: if_splits)
  next
    case (w_slice data)
    with wf(1) len show ?thesis by auto
  qed
qed

lemma pinned_write_frame:
  assumes w: "pinned_write l s l' s'" and wf: "pl_len l \<le> pl_capacity l" "length (bk_data (blocks s (pl_block_idx l))) = pl_capacity l"
  shows "pl_capacity l' = pl_capacity l \<and> pl_len l' \<le> pl_capacity l \<and> pl_block_idx l' = pl_block_idx l \<and>
    pl_topic_idx l' = pl_topic_idx l \<and>
    (\<exists>d. length d = length (bk_data (blocks s (pl_block_idx l))) \<and> s' = set_block_data (pl_block_idx l) d s)"
proof -
  let ?d = "bk_data (blocks s (pl_block_idx l))"
  have refl: "\<exists>d. length d = length ?d \<and> s = set_block_data (pl_block_idx l) d s" by (intro exI [of _ ?d]) simp
  show ?thesis using w
  proof cases
    case (pw_data data res)
    with wf refl show ?thesis by (auto simp: pinned_set_data_def split: if_splits intro!: set_block_data_ex)
  next
    case (pw_structured hdr es res)
    show ?thesis
    proof (cases "length hdr + length (concat es) + 4 \<le> pl_capacity l")
      case True
      have "length (structured_bytes hdr es (length (concat es)) ?d) = length ?d"
        using True wf(2) by (intro length_structured(1)) simp
      with pw_structured True wf show ?thesis unfolding pinned_write_structured_def Let_def pinned_set_len_def
        by (auto split: if_splits simp del: length_concat)
    next
      case False
      then show ?thesis using pw_structured wf refl
        by (simp add: pinned_write_structured_def Let_def split: if_splits del: length_concat)
    qed
  next
    case (pw_len n res)
    with wf refl show ?thesis by (auto simp: pinned_set_len_def split: if_splits)
  next
    case (pw_slice data)
    with wf show ?thesis by auto
  qed
qed

lemma acct_set_data: "acct c s I S \<Longrightarrow> acct c (set_block_data b d s) I S"
  by (erule acct_cong) simp_all

text \<open>A party writes to a block that is its own.\<close>

lemma sysinv_write:
  assumes inv: "sysinv c \<sigma>" and i: "i < length (sy_parties \<sigma>)" "pt = sy_parties \<sigma> ! i"
    and b: "b \<in># party_blocks pt" "length d = length (bk_data (blocks (sy_shm \<sigma>) b))"
    and pt': "party_blocks pt' = party_blocks pt" "pub_ok c (pt_pub pt')"
      "outstanding_wf c (sy_shm \<sigma>) (pt_pub pt') (pt_loan pt')"
  shows "sysinv c (set_party i pt' (set_block_data b d (sy_shm \<sigma>)) \<sigma>)"
proof -
  let ?s = "set_block_data b d (sy_shm \<sigma>)"
  note pd = sysinv_partyD [OF inv i]
  have "b \<notin># ring_blocks c (sy_shm \<sigma>)" using acct_idle(4) [OF pd(1)] b(1) by simp
  note m = meminv_write [OF sysinvD(2) [OF inv] this b(2)]
  have live: "topic_live c (sy_shm \<sigma>) t \<Longrightarrow> topic_live c ?s t" for t by (simp add: topic_live_def)
  have a: "acct c ?s (others i \<sigma> + party_blocks pt') (refs \<sigma>)"
    using acct_set_data [OF pd(1)] pt'(1) by simp
  from sysinv_set_party [OF inv i(1) live m a pt'(2) outstanding_wf_live [OF live pt'(3)]]
  show ?thesis by simp
qed

lemma step_write:
  assumes inv: "sysinv c \<sigma>" and i: "i < length (sy_parties \<sigma>)" "pt = sy_parties \<sigma> ! i" and l: "pt_loan pt = ALoan l"
    and w: "loan_write l (sy_shm \<sigma>) l' s'"
  shows "sysinv c (set_party i (pt\<lparr>pt_loan := ALoan l'\<rparr>) s' \<sigma>)"
proof -
  note pd = sysinv_partyD [OF inv i]
  have wf: "loan_wf c l" "topic_live c (sy_shm \<sigma>) (ln_topic_idx l)" using pd(4) l by simp_all
  from loan_write_frame [OF w wf(1) meminvD(2) [OF sysinvD(2) [OF inv]]] obtain d where d:
    "loan_wf c l'" "ln_block_idx l' = ln_block_idx l" "ln_topic_idx l' = ln_topic_idx l"
    "length d = length (bk_data (blocks (sy_shm \<sigma>) (ln_block_idx l)))"
    "s' = set_block_data (ln_block_idx l) d (sy_shm \<sigma>)" by blast
  show ?thesis unfolding d(5)
    by (rule sysinv_write [OF inv i]) (use d wf l pd(6) in \<open>simp_all add: party_blocks_def\<close>)
qed

lemma step_typed_write:
  assumes inv: "sysinv c \<sigma>" and i: "i < length (sy_parties \<sigma>)" "pt = sy_parties \<sigma> ! i" and l: "pt_loan pt = ATyped n l"
    and w: "as_mut_write value l (sy_shm \<sigma>) = Some s'"
  shows "sysinv c (set_party i pt s' \<sigma>)"
proof -
  note pd = sysinv_partyD [OF inv i]
  let ?d = "overwrite (bk_data (blocks (sy_shm \<sigma>) (tl_block_idx l))) 0 value"
  have s: "length ?d = length (bk_data (blocks (sy_shm \<sigma>) (tl_block_idx l)))" "s' = set_block_data (tl_block_idx l) ?d (sy_shm \<sigma>)"
    using w by (simp_all add: as_mut_write_def split: if_splits)
  show ?thesis unfolding s(2)
    by (rule sysinv_write [OF inv i _ s(1)]) (use l pd(4,6) in \<open>simp_all add: party_blocks_def\<close>)
qed

lemma step_pinned_write:
  assumes inv: "sysinv c \<sigma>" and i: "i < length (sy_parties \<sigma>)" "pt = sy_parties \<sigma> ! i" and l: "pt_loan pt = APinned l"
    and w: "pinned_write l (sy_shm \<sigma>) l' s'"
  shows "sysinv c (set_party i (pt\<lparr>pt_loan := APinned l'\<rparr>) s' \<sigma>)"
proof -
  note pd = sysinv_partyD [OF inv i]
  have wf: "pl_len l \<le> pl_capacity l" "pl_capacity l = unat (data_capacity c)" "pl_block_idx l \<in># held (pt_pub pt)"
    "topic_live c (sy_shm \<sigma>) (pl_topic_idx l)" using pd(4) l by simp_all
  have b: "pl_block_idx l \<in># party_blocks pt" using wf(3) by (simp add: party_blocks_def)
  then have "pl_block_idx l < block_count c" using acct_idle(1) [OF pd(1)] by simp
  then have "length (bk_data (blocks (sy_shm \<sigma>) (pl_block_idx l))) = pl_capacity l"
    using meminvD(2) [OF sysinvD(2) [OF inv]] wf(2) by (simp add: data_wf_def)
  from pinned_write_frame [OF w wf(1) this] obtain d where d:
    "pl_capacity l' = pl_capacity l" "pl_len l' \<le> pl_capacity l" "pl_block_idx l' = pl_block_idx l" "pl_topic_idx l' = pl_topic_idx l"
    "length d = length (bk_data (blocks (sy_shm \<sigma>) (pl_block_idx l)))"
    "s' = set_block_data (pl_block_idx l) d (sy_shm \<sigma>)" by blast
  show ?thesis unfolding d(6)
    by (rule sysinv_write [OF inv i b d(5)]) (use d wf l pd(6) in \<open>simp_all add: party_blocks_def\<close>)
qed

text \<open>A party commits its loaned block; \<open>s\<^sub>0\<close> is the memory after a last write to it.\<close>

lemma sysinv_commit:
  assumes inv: "sysinv c \<sigma>" and c: "config_ok c" and i: "i < length (sy_parties \<sigma>)"
    and p: "pub_wf c p" and a: "acct c s0 (add_mset b (others i \<sigma> + held p)) (refs \<sigma>)" and m: "meminv c s0 (sy_hist \<sigma>)"
    and s0: "topics s0 = topics (sy_shm \<sigma>)"
    and t: "topic_live c (sy_shm \<sigma>) t" "seq_room (sy_shm \<sigma>) t" and n: "n \<le> unat (data_capacity c)"
    and cm: "commit_to_ring b (of_nat n) t wake sp (pub_region p, s0) = (woke, r', s')"
  shows "sysinv c (\<sigma>\<lparr>sy_shm := s', sy_parties := (sy_parties \<sigma>)[i := \<lparr>pt_pub = p\<lparr>pub_region := r'\<rparr>, pt_loan = NoLoan\<rparr>],
    sy_hist := (sy_hist \<sigma>)(t := sy_hist \<sigma> t @ [Some (take n (bk_data (blocks s0 b)))])\<rparr>)"
proof -
  have d: "is_power_of_two (ring_depth c)" and n32: "n < 2 ^ 32"
    using c data_capacity_nat [of c] n by (simp_all add: config_ok_def)
  have cfg: "rg_config (pub_region p) = c" using p by (simp add: pub_wf_def)
  have t0: "topic_live c s0 t" "seq_room s0 t" "t < max_topics c" using t by (simp_all add: topic_live_def seq_room_def s0)
  note idle = acct_idle [OF a, of b, simplified]
  note fr = commit_frame [OF cm, unfolded cfg]
  have m': "meminv c (publish_slot c b (of_nat n) t s0) ((sy_hist \<sigma>)(t := sy_hist \<sigma> t @ [Some (take n (bk_data (blocks s0 b)))]))"
    by (rule meminv_commit [OF m idle(4,1) t0(1) d t0(2) n n32])
  have f: "mem_frame (publish_slot c b (of_nat n) t s0) s'" by (simp add: mem_frame_def fr(1,2,4))
  have "acct (rg_config (pub_region p)) s0 (add_mset b ((others i \<sigma> + cached p + pinned p) + recycled (pub_region p))) (refs \<sigma>)"
    using a by (simp add: held_def cfg ac_simps)
  from acct_commit [OF this _ _ cm] t0(3) d
  have a': "acct c s' ((others i \<sigma> + cached p + pinned p) + recycled r') (refs \<sigma>)" "rg_config r' = c"
    by (simp_all add: cfg)
  have "topic_live c s' u" if "topic_live c (sy_shm \<sigma>) u" for u
    using that by (cases "u = t") (simp_all add: topic_live_def fr(2) publish_slot_def Let_def s0)
  from sysinv_set_party [OF inv i this meminv_frame [OF f m'], of "\<lparr>pt_pub = p\<lparr>pub_region := r'\<rparr>, pt_loan = NoLoan\<rparr>"]
  show ?thesis using a' p by (simp add: party_blocks_def held_def cached_def pinned_def pub_wf_def ac_simps)
qed

lemma step_publish:
  assumes inv: "sysinv c \<sigma>" "config_ok c" and i: "i < length (sy_parties \<sigma>)" "pt = sy_parties \<sigma> ! i" and l: "pt_loan pt = ALoan l"
    and room: "seq_room (sy_shm \<sigma>) (ln_topic_idx l)"
    and cm: "loan_commit wake l (pub_region (pt_pub pt), sy_shm \<sigma>) = Some (woke, r', s')"
    and cfg: "pub_config (pt_pub pt) = c"
  shows "sysinv c (record_publication (ln_topic_idx l) (Some (take (ln_len l) (bk_data (blocks (sy_shm \<sigma>) (ln_block_idx l)))))
      (set_party i \<lparr>pt_pub = (pt_pub pt)\<lparr>pub_region := r'\<rparr>, pt_loan = NoLoan\<rparr> s' \<sigma>))"
proof -
  note pd = sysinv_partyD [OF inv(1) i]
  have wf: "ln_len l \<le> unat (data_capacity c)" "topic_live c (sy_shm \<sigma>) (ln_topic_idx l)"
    using pd(4) l by (simp_all add: loan_wf_def)
  have a: "acct c (sy_shm \<sigma>) (add_mset (ln_block_idx l) (others i \<sigma> + held (pt_pub pt))) (refs \<sigma>)"
    using pd(1) l by (simp add: party_blocks_def)
  have "commit_to_ring (ln_block_idx l) (of_nat (ln_len l)) (ln_topic_idx l) wake (ln_single_publisher l)
      (pub_region (pt_pub pt), sy_shm \<sigma>) = (woke, r', s')" using cm by (simp add: loan_commit_def split: if_splits)
  from sysinv_commit [OF inv i(1) pd(3) [OF cfg] a sysinvD(2) [OF inv(1)] refl wf(2) room wf(1) this] show ?thesis by simp
qed

lemma step_typed_publish:
  assumes inv: "sysinv c \<sigma>" "config_ok c" and i: "i < length (sy_parties \<sigma>)" "pt = sy_parties \<sigma> ! i" and l: "pt_loan pt = ATyped n l"
    and n: "n \<le> unat (data_capacity c)" and room: "seq_room (sy_shm \<sigma>) (tl_topic_idx l)"
    and cm: "typed_commit n wake l (pub_region (pt_pub pt), sy_shm \<sigma>) = (woke, r', s')"
    and cfg: "pub_config (pt_pub pt) = c"
  shows "sysinv c (record_publication (tl_topic_idx l) (Some (take n (bk_data (blocks (sy_shm \<sigma>) (tl_block_idx l)))))
      (set_party i \<lparr>pt_pub = (pt_pub pt)\<lparr>pub_region := r'\<rparr>, pt_loan = NoLoan\<rparr> s' \<sigma>))"
proof -
  note pd = sysinv_partyD [OF inv(1) i]
  have live: "topic_live c (sy_shm \<sigma>) (tl_topic_idx l)" using pd(4) l by simp
  have a: "acct c (sy_shm \<sigma>) (add_mset (tl_block_idx l) (others i \<sigma> + held (pt_pub pt))) (refs \<sigma>)"
    using pd(1) l by (simp add: party_blocks_def)
  from sysinv_commit [OF inv i(1) pd(3) [OF cfg] a sysinvD(2) [OF inv(1)] refl live room n cm [unfolded typed_commit_def]]
  show ?thesis by simp
qed

lemma step_send:
  assumes inv: "sysinv c \<sigma>" "config_ok c" and i: "i < length (sy_parties \<sigma>)" "pt = sy_parties \<sigma> ! i"
    and l: "pt_loan pt = ATyped (length value) l" and room: "seq_room (sy_shm \<sigma>) (tl_topic_idx l)"
    and cm: "send value l (pub_region (pt_pub pt), sy_shm \<sigma>) = Some (woke, r', s')"
    and cfg: "pub_config (pt_pub pt) = c"
  shows "sysinv c (record_publication (tl_topic_idx l) (Some value)
      (set_party i \<lparr>pt_pub = (pt_pub pt)\<lparr>pub_region := r'\<rparr>, pt_loan = NoLoan\<rparr> s' \<sigma>))"
proof -
  note pd = sysinv_partyD [OF inv(1) i]
  let ?b = "tl_block_idx l" and ?s = "sy_shm \<sigma>"
  let ?d = "overwrite (bk_data (blocks ?s ?b)) 0 value"
  let ?u = "set_block_data ?b ?d ?s"
  have live: "topic_live c ?s (tl_topic_idx l)" using pd(4) l by simp
  have a: "acct c ?s (add_mset ?b (others i \<sigma> + held (pt_pub pt))) (refs \<sigma>)"
    using pd(1) l by (simp add: party_blocks_def)
  note idle = acct_idle [OF a, of ?b, simplified]
  have cm': "length value \<le> length (bk_data (blocks ?s ?b))"
    "commit_to_ring ?b (of_nat (length value)) (tl_topic_idx l) True (tl_single_publisher l) (pub_region (pt_pub pt), ?u) = (woke, r', s')"
    using cm by (simp_all add: send_def typed_commit_def split: if_splits)
  have n: "length value \<le> unat (data_capacity c)"
    using cm'(1) idle(1) meminvD(2) [OF sysinvD(2) [OF inv(1)]] by (simp add: data_wf_def)
  have m: "meminv c ?u (sy_hist \<sigma>)"
    by (rule meminv_write [OF sysinvD(2) [OF inv(1)] idle(4)]) (use cm'(1) in simp)
  have "bk_data (blocks ?u ?b) = ?d" by simp
  then have v: "take (length value) (bk_data (blocks ?u ?b)) = value" by (simp only: take_overwrite_0)
  from sysinv_commit [OF inv i(1) pd(3) [OF cfg] acct_set_data [OF a] m _ live room n cm'(2), unfolded v] show ?thesis by simp
qed

lemma step_drop_loan:
  assumes inv: "sysinv c \<sigma>" and i: "i < length (sy_parties \<sigma>)" "pt = sy_parties \<sigma> ! i" and l: "loaned (pt_loan pt) = {#b#}"
  shows "sysinv c (set_party i (pt\<lparr>pt_loan := NoLoan\<rparr>) (free_block c b (sy_shm \<sigma>)) \<sigma>)"
proof -
  note pd = sysinv_partyD [OF inv i]
  have "acct c (free_block c b (sy_shm \<sigma>)) (others i \<sigma> + held (pt_pub pt)) (refs \<sigma>)"
    by (rule acct_free) (use pd(1) l in \<open>simp add: party_blocks_def\<close>)
  then show ?thesis
    by (intro sysinv_party_frame [OF inv i(1) mem_frame_free]) (simp_all add: party_blocks_def pd(6))
qed

lemma step_pinned_drop:
  assumes inv: "sysinv c \<sigma>" and i: "i < length (sy_parties \<sigma>)" "pt = sy_parties \<sigma> ! i" and l: "pt_loan pt = APinned l"
  shows "sysinv c (set_party i (pt\<lparr>pt_loan := NoLoan\<rparr>) (pinned_drop l (sy_shm \<sigma>)) \<sigma>)"
proof -
  note pd = sysinv_partyD [OF inv i]
  have "acct c (pinned_drop l (sy_shm \<sigma>)) (others i \<sigma> + held (pt_pub pt)) (refs \<sigma>)"
    unfolding pinned_drop_def clear_sentinel_def
    by (rule acct_upd_topic) (use pd(1) l in \<open>simp add: party_blocks_def\<close>)
  moreover have "mem_frame (sy_shm \<sigma>) (pinned_drop l (sy_shm \<sigma>))"
    unfolding pinned_drop_def clear_sentinel_def by (rule mem_frame_topic) simp
  ultimately show ?thesis
    by (intro sysinv_party_frame [OF inv i(1)]) (simp_all add: party_blocks_def pd(6))
qed

lemma step_pinned_publish:
  assumes inv: "sysinv c \<sigma>" and i: "i < length (sy_parties \<sigma>)" "pt = sy_parties \<sigma> ! i" and l: "pt_loan pt = APinned l"
    and room: "seq_room (sy_shm \<sigma>) (pl_topic_idx l)" and cm: "pinned_publish l (sy_shm \<sigma>) = Some (woke, s')"
  shows "sysinv c (record_publication (pl_topic_idx l) None (set_party i (pt\<lparr>pt_loan := NoLoan\<rparr>) s' \<sigma>))"
proof -
  note pd = sysinv_partyD [OF inv i]
  let ?t = "pl_topic_idx l" and ?s = "sy_shm \<sigma>"
  let ?u = "upd_topic ?t (\<lambda>e. e\<lparr>te_write_seq := te_write_seq e + 1\<rparr>) ?s"
  have live: "topic_live c ?s ?t" using pd(4) l by simp
  obtain packed where s': "s' = upd_topic ?t (\<lambda>e. e\<lparr>te_write_seq := te_write_seq (topics ?s ?t) + 1, te_pinned_seq := packed, te_pinned_readers := 0\<rparr>) ?s"
    using cm by (auto simp: pinned_publish_def commit_pinned_def clear_sentinel_def Let_def split: if_splits)
  have f: "mem_frame ?u s'" unfolding s' by (simp add: mem_frame_def)
  have m: "meminv c s' ((sy_hist \<sigma>)(?t := sy_hist \<sigma> ?t @ [None]))"
    by (rule meminv_frame [OF f meminv_pinned [OF sysinvD(2) [OF inv] live room]])
  have lv: "topic_live c s' u" if "topic_live c ?s u" for u using that unfolding s' by (cases "u = ?t") (simp_all add: topic_live_def)
  have a: "acct c s' (others i \<sigma> + party_blocks (pt\<lparr>pt_loan := NoLoan\<rparr>)) (refs \<sigma>)"
    unfolding s' by (rule acct_upd_topic) (use pd(1) l in \<open>simp add: party_blocks_def\<close>)
  from sysinv_set_party [OF inv i(1) lv m a] pd(6) show ?thesis by simp
qed

lemma step_drop_publisher:
  assumes inv: "sysinv c \<sigma>" and i: "i < length (sy_parties \<sigma>)" "pt = sy_parties \<sigma> ! i" and l: "pt_loan pt = NoLoan"
    and dr: "publisher_drop pid ino (pt_pub pt) (sy_shm \<sigma>) reg = (removed, s', reg')"
    and cfg: "pub_config (pt_pub pt) = c"
  shows "sysinv c (\<sigma>\<lparr>sy_shm := s', sy_parties := remove_at i (sy_parties \<sigma>)\<rparr>)"
proof -
  note pd = sysinv_partyD [OF inv i]
  have "acct (pub_config (pt_pub pt)) (sy_shm \<sigma>) (others i \<sigma> + held (pt_pub pt)) (refs \<sigma>)"
    using pd(1) l by (simp add: party_blocks_def cfg)
  note da = publisher_drop_acct [OF dr this, unfolded cfg]
  have f: "mem_frame (sy_shm \<sigma>) s'" by (rule mem_frame_pool [OF da(2)])
  have live: "topic_live c (sy_shm \<sigma>) t \<Longrightarrow> topic_live c s' t" for t by (simp add: topic_live_frame [OF f])
  show ?thesis
  proof (rule sysinvI, goal_cases)
    case 1 show ?case using da(1) by (simp add: idle_def refs_def others_def)
  next
    case 2 show ?case using meminv_frame [OF f sysinvD(2) [OF inv]] by simp
  next
    case (3 pt) then show ?case using party_wf_live [OF live] sysinvD(3) [OF inv] set_remove_at by fastforce
  next
    case (4 h) then show ?case using live sysinvD(4) [OF inv] by simp
  next
    case (5 st) then show ?case using sysinvD(5) [OF inv] by simp
  next
    case 6 show ?case using sysinvD(6) [OF inv] by simp
  qed
qed

text \<open>The steps of subscribers leave publishers, handles and history alone.\<close>

lemma sysinv_readers:
  assumes inv: "sysinv c \<sigma>" and same: "sy_parties \<tau> = sy_parties \<sigma>" "sy_handles \<tau> = sy_handles \<sigma>" "sy_hist \<tau> = sy_hist \<sigma>"
      "sy_subs \<tau> = sy_subs \<sigma>" "sy_header \<tau> = sy_header \<sigma>"
    and f: "mem_frame (sy_shm \<sigma>) (sy_shm \<tau>)" and a: "acct c (sy_shm \<tau>) (idle \<sigma>) (refs \<tau>)"
    and st: "\<And>st. st \<in> set (sy_streams \<tau>) \<Longrightarrow> stream_ok c st"
  shows "sysinv c \<tau>"
proof -
  have live: "topic_live c (sy_shm \<sigma>) t \<Longrightarrow> topic_live c (sy_shm \<tau>) t" for t by (simp add: topic_live_frame [OF f])
  show ?thesis
  proof (rule sysinvI, goal_cases)
    case 1 show ?case using a same(1) by (simp add: idle_def)
  next
    case 2 show ?case using meminv_frame [OF f sysinvD(2) [OF inv]] same(3) by simp
  next
    case (3 pt) then show ?case using party_wf_live [OF live sysinvD(3) [OF inv]] same(1) by simp
  next
    case (4 h) then show ?case using live sysinvD(4) [OF inv] same(2) by simp
  next
    case (5 x) then show ?case by (rule st)
  next
    case 6 show ?case using sysinvD(6) [OF inv] same(4,5) by simp
  qed
qed

lemma step_subscribe:
  assumes inv: "sysinv c \<sigma>" and c': "c' \<in> set (sy_subs \<sigma>)" and sub: "subscribe c' uri (sy_shm \<sigma>) = (Inr st, s')"
  shows "sysinv c (\<sigma>\<lparr>sy_shm := s', sy_streams := sy_streams \<sigma> @ [st]\<rparr>)"
proof -
  have g: "same_geometry c c'" using sysinvD(6) [OF inv] c' by (simp add: env_ok_def)
  obtain i where i: "i < max_topics c'" "st_config st = c'" "st_topic_idx st = i"
    "s' = upd_topic i (\<lambda>e. e\<lparr>te_subscriber_count := te_subscriber_count e + 1\<rparr>) (sy_shm \<sigma>)"
    using sub by (auto simp: subscribe_def split: option.splits dest!: find_range_Some)
  have st: "stream_ok c st" using i(1-3) g same_geometryD [OF g] by (simp add: stream_ok_def)
  show ?thesis
  proof (rule sysinv_readers [OF inv], goal_cases)
    case 6 show ?case unfolding i(4) using mem_frame_topic [of "\<lambda>e. e\<lparr>te_subscriber_count := te_subscriber_count e + 1\<rparr>"] by simp
  next
    case 7 show ?case unfolding i(4) using acct_upd_topic [OF sysinvD(1) [OF inv]] by (simp add: refs_def)
  next
    case (8 x) then show ?case using st sysinvD(5) [OF inv] by auto
  qed simp_all
qed

text \<open>What receiving does: nothing, or one reference on the block of a ready slot.\<close>

definition reads_slot :: "stream \<Rightarrow> u64 \<Rightarrow> shm \<Rightarrow> u32 \<times> nat \<Rightarrow> shm \<Rightarrow> bool" where
  "reads_slot st q s m s' \<longleftrightarrow>
     (let e = rings s (st_topic_idx st) (ring_slot (st_config st) q); b = re_block_idx e in
      slot_ready (st_config st) (st_topic_idx st) q s \<and> m = (b, unat (re_data_len e)) \<and>
      s' = upd_block b (\<lambda>x. x\<lparr>bk_refcount := refcount s b + 1\<rparr>) s)"

lemma try_recv_cases:
  assumes "try_recv st s = (res, st', s')"
  obtains "res = None" "st' = st" "s' = s"
  | q m where "res = Some m" "st' = st\<lparr>last_seq := q\<rparr>" "reads_slot st q s (sm_block_idx m, sm_len m) s'"
  using assms
  by (fastforce simp: try_recv_def scan_eq try_read_slot_eq reads_slot_def Let_def
      split: if_splits option.splits dest: find_first_Some(1))

lemma try_recv_typed_cases:
  assumes "try_recv_typed n st s = (res, st', s')"
  obtains "res = None" "st' = st" "s' = s"
  | q b k where "res = Some b" "st' = st\<lparr>last_seq := q\<rparr>" "reads_slot st q s (b, k) s'"
  using assms
  by (fastforce simp: try_recv_typed_def scan_typed_eq reads_slot_def Let_def
      split: if_splits option.splits dest: find_first_Some(1))

lemma size_refs: "size (refs \<sigma>) = length (sy_samples \<sigma>) + length (sy_typed \<sigma>)"
  by (simp add: refs_def)

lemma reads_slot_acct:
  assumes inv: "sysinv c \<sigma>" and room: "sample_room \<sigma>" and rs: "reads_slot st q (sy_shm \<sigma>) (b, n) s'"
    and st: "stream_ok c st" "is_power_of_two (ring_depth c)"
  shows "acct c s' (idle \<sigma>) (add_mset b (refs \<sigma>))" "mem_frame (sy_shm \<sigma>) s'" "b \<in># ring_blocks c (sy_shm \<sigma>)"
proof -
  let ?s = "sy_shm \<sigma>"
  have g: "same_geometry c (st_config st)" and t: "st_topic_idx st < max_topics c" using st(1) by (simp_all add: stream_ok_def)
  have b: "b < block_count c" "refcount ?s b \<noteq> 0"
    and s': "s' = upd_block b (\<lambda>x. x\<lparr>bk_refcount := refcount ?s b + 1\<rparr>) ?s"
    and be: "b = re_block_idx (rings ?s (st_topic_idx st) (ring_slot c q))"
    using rs by (auto simp: reads_slot_def geometry_congs [OF g] slot_ready_def Let_def)
  show "b \<in># ring_blocks c ?s" unfolding be by (rule ring_member [OF t ring_slot_less [OF st(2)]])
  show "mem_frame ?s s'" unfolding s' by simp
  have "unat (refcount ?s b) = count (ring_blocks c ?s) b + count (refs \<sigma>) b"
    using sysinvD(1) [OF inv] b(1) by (simp add: acct_def)
  moreover have "count (ring_blocks c ?s) b \<le> 1"
    using meminvD(1) [OF sysinvD(2) [OF inv]] b(1) by (simp add: ring_once_def)
  moreover have "count (refs \<sigma>) b \<le> length (sy_samples \<sigma>) + length (sy_typed \<sigma>)"
    unfolding size_refs [symmetric] by (rule count_le_size)
  ultimately have "unat (refcount ?s b) + 1 < 2 ^ 32" using room by (simp add: sample_room_def)
  with acct_ref [OF sysinvD(1) [OF inv] b _ s'] show "acct c s' (idle \<sigma>) (add_mset b (refs \<sigma>))" by simp
qed

lemma step_recv:
  assumes inv: "sysinv c \<sigma>" "config_ok c" and j: "j < length (sy_streams \<sigma>)" and room: "sample_room \<sigma>"
    and r: "try_recv (sy_streams \<sigma> ! j) (sy_shm \<sigma>) = (res, st', s')"
  shows "sysinv c (\<sigma>\<lparr>sy_shm := s', sy_streams := (sy_streams \<sigma>)[j := st'],
      sy_samples := (case res of Some m \<Rightarrow> m # sy_samples \<sigma> | None \<Rightarrow> sy_samples \<sigma>)\<rparr>)"
proof -
  let ?st = "sy_streams \<sigma> ! j"
  have st: "stream_ok c ?st" using sysinvD(5) [OF inv(1)] j by simp
  have d: "is_power_of_two (ring_depth c)" using inv(2) by (simp add: config_ok_def)
  have sts: "x \<in> set ((sy_streams \<sigma>)[j := st']) \<Longrightarrow> stream_ok c st' \<Longrightarrow> stream_ok c x" for x
    using sysinvD(5) [OF inv(1)] set_update_subset_insert [of "sy_streams \<sigma>" j st'] by auto
  from r show ?thesis
  proof (cases rule: try_recv_cases)
    case 1
    then show ?thesis using st sts sysinvD(1) [OF inv(1)]
      by (intro sysinv_readers [OF inv(1)]) (simp_all add: refs_def)
  next
    case (2 q m)
    from reads_slot_acct [OF inv(1) room 2(3) st d] 2(1,2) st sts show ?thesis
      by (intro sysinv_readers [OF inv(1)]) (simp_all add: refs_def stream_ok_def)
  qed
qed

lemma step_recv_typed:
  assumes inv: "sysinv c \<sigma>" "config_ok c" and j: "j < length (sy_streams \<sigma>)" and room: "sample_room \<sigma>"
    and r: "try_recv_typed n (sy_streams \<sigma> ! j) (sy_shm \<sigma>) = (res, st', s')"
  shows "sysinv c (\<sigma>\<lparr>sy_shm := s', sy_streams := (sy_streams \<sigma>)[j := st'],
      sy_typed := (case res of Some b \<Rightarrow> b # sy_typed \<sigma> | None \<Rightarrow> sy_typed \<sigma>)\<rparr>)"
proof -
  let ?st = "sy_streams \<sigma> ! j"
  have st: "stream_ok c ?st" using sysinvD(5) [OF inv(1)] j by simp
  have d: "is_power_of_two (ring_depth c)" using inv(2) by (simp add: config_ok_def)
  have sts: "x \<in> set ((sy_streams \<sigma>)[j := st']) \<Longrightarrow> stream_ok c st' \<Longrightarrow> stream_ok c x" for x
    using sysinvD(5) [OF inv(1)] set_update_subset_insert [of "sy_streams \<sigma>" j st'] by auto
  from r show ?thesis
  proof (cases rule: try_recv_typed_cases)
    case 1
    then show ?thesis using st sts sysinvD(1) [OF inv(1)]
      by (intro sysinv_readers [OF inv(1)]) (simp_all add: refs_def)
  next
    case (2 q b k)
    from reads_slot_acct [OF inv(1) room 2(3) st d] 2(1,2) st sts show ?thesis
      by (intro sysinv_readers [OF inv(1)]) (simp_all add: refs_def stream_ok_def)
  qed
qed

lemma step_recv_pinned:
  assumes inv: "sysinv c \<sigma>" and j: "j < length (sy_streams \<sigma>)"
    and r: "try_recv_pinned (sy_streams \<sigma> ! j) (sy_shm \<sigma>) = (res, st', s')"
  shows "sysinv c (\<sigma>\<lparr>sy_shm := s', sy_streams := (sy_streams \<sigma>)[j := st'],
      sy_guards := (case res of Some g \<Rightarrow> g # sy_guards \<sigma> | None \<Rightarrow> sy_guards \<sigma>)\<rparr>)"
proof -
  let ?st = "sy_streams \<sigma> ! j"
  have st: "stream_ok c ?st" using sysinvD(5) [OF inv(1)] j by simp
  have cases: "stream_ok c st'"
    "s' = sy_shm \<sigma> \<or> (\<exists>n. s' = upd_topic (st_topic_idx ?st) (\<lambda>e. e\<lparr>te_pinned_readers := n\<rparr>) (sy_shm \<sigma>))"
    using r st unfolding try_recv_pinned_def Let_def by (auto simp: stream_ok_def split: if_splits)
  have f: "mem_frame (sy_shm \<sigma>) s'"
    using cases(2) by (elim disjE exE) (simp_all add: mem_frame_def)
  have a: "acct c s' (idle \<sigma>) (refs \<sigma>)"
    using cases(2) sysinvD(1) [OF inv] by (elim disjE exE) (simp_all add: acct_upd_topic)
  show ?thesis
  proof (rule sysinv_readers [OF inv], goal_cases)
    case (8 x) then show ?case
      using cases(1) sysinvD(5) [OF inv(1)] set_update_subset_insert [of "sy_streams \<sigma>" j st'] by auto
  qed (use f a in \<open>simp_all add: refs_def\<close>)
qed

lemma step_drop_sample:
  assumes inv: "sysinv c \<sigma>" and k: "k < length (sy_samples \<sigma>)"
  and c': "c' \<in> set (sy_subs \<sigma>)"
  shows "sysinv c (\<sigma>\<lparr>sy_shm := sample_drop c' (sy_samples \<sigma> ! k) (sy_shm \<sigma>), sy_samples := remove_at k (sy_samples \<sigma>)\<rparr>)"
proof -
  have g: "same_geometry c c'" using sysinvD(6) [OF inv] c' by (simp add: env_ok_def)
  have "mset (map sm_block_idx (sy_samples \<sigma>)) =
      add_mset (sm_block_idx (sy_samples \<sigma> ! k)) (mset (map sm_block_idx (remove_at k (sy_samples \<sigma>))))"
    using arg_cong [OF mset_remove_at [OF k], of "image_mset sm_block_idx"] by simp
  then have "acct c (sy_shm \<sigma>) (idle \<sigma>) (add_mset (sm_block_idx (sy_samples \<sigma> ! k))
      (mset (map sm_block_idx (remove_at k (sy_samples \<sigma>))) + mset (sy_typed \<sigma>)))"
    using sysinvD(1) [OF inv] by (simp add: refs_def)
  note a = acct_release [OF this]
  show ?thesis
    by (rule sysinv_readers [OF inv])
      (use a mem_frame_release sysinvD(5) [OF inv] in \<open>simp_all add: sample_drop_def refs_def geometry_congs [OF g]\<close>)
qed

lemma step_drop_typed:
  assumes inv: "sysinv c \<sigma>" and k: "k < length (sy_typed \<sigma>)"
  and c': "c' \<in> set (sy_subs \<sigma>)"
  shows "sysinv c (\<sigma>\<lparr>sy_shm := typed_sample_drop c' (sy_typed \<sigma> ! k) (sy_shm \<sigma>), sy_typed := remove_at k (sy_typed \<sigma>)\<rparr>)"
proof -
  have g: "same_geometry c c'" using sysinvD(6) [OF inv] c' by (simp add: env_ok_def)
  have "acct c (sy_shm \<sigma>) (idle \<sigma>) (add_mset (sy_typed \<sigma> ! k)
      (mset (map sm_block_idx (sy_samples \<sigma>)) + mset (remove_at k (sy_typed \<sigma>))))"
    using sysinvD(1) [OF inv] by (simp add: refs_def mset_remove_at [OF k])
  note a = acct_release [OF this]
  show ?thesis
    by (rule sysinv_readers [OF inv])
      (use a mem_frame_release sysinvD(5) [OF inv] in \<open>simp_all add: typed_sample_drop_def refs_def geometry_congs [OF g]\<close>)
qed

lemma step_drop_guard:
  assumes inv: "sysinv c \<sigma>"
  shows "sysinv c (\<sigma>\<lparr>sy_shm := pinned_guard_drop g (sy_shm \<sigma>), sy_guards := gs\<rparr>)"
  by (rule sysinv_readers [OF inv])
    (use sysinvD(1,5) [OF inv] in \<open>simp_all add: pinned_guard_drop_def refs_def acct_upd_topic mem_frame_def\<close>)

lemma step_drop_stream:
  assumes inv: "sysinv c \<sigma>"
  shows "sysinv c (\<sigma>\<lparr>sy_shm := stream_drop st (sy_shm \<sigma>), sy_streams := remove_at j (sy_streams \<sigma>)\<rparr>)"
proof (rule sysinv_readers [OF inv], goal_cases)
  case (8 x) then show ?case using sysinvD(5) [OF inv] set_remove_at [of j "sy_streams \<sigma>"] by auto
qed (use sysinvD(1) [OF inv] in \<open>simp_all add: stream_drop_def refs_def acct_upd_topic mem_frame_def\<close>)

lemma step_rewind:
  assumes inv: "sysinv c \<sigma>" and j: "j < length (sy_streams \<sigma>)"
  shows "sysinv c (\<sigma>\<lparr>sy_streams := (sy_streams \<sigma>)[j := (sy_streams \<sigma> ! j)\<lparr>last_seq := 0\<rparr>]\<rparr>)"
proof -
  have "stream_ok c ((sy_streams \<sigma> ! j)\<lparr>last_seq := 0\<rparr>)"
    using sysinvD(5) [OF inv nth_mem [OF j]] by (simp add: stream_ok_def)
  with inv show ?thesis by (auto simp: sysinv_def idle_def refs_def dest!: set_update_subset_insert [THEN subsetD])
qed

lemma step_sysinv:
  assumes "sys_step c \<sigma> \<sigma>'" "sysinv c \<sigma>" "config_ok c"
  shows "sysinv c \<sigma>'"
  using assms(1)
proof cases
  case do_open from step_open [OF assms(2) do_open(2)] do_open(1) show ?thesis by simp
next
  case do_connect from step_connect [OF assms(2) do_connect(2)] do_connect(1) show ?thesis by simp
next
  case do_register
  show ?thesis unfolding do_register(1)
    by (rule via_party [OF assms(2) do_register(2,3) assms(3)]) (rule step_register [OF _ do_register(2,3,5)])
next
  case do_heartbeat
  show ?thesis unfolding do_heartbeat(1)
    by (rule via_party [OF assms(2) do_heartbeat(2,3) assms(3)]) (rule step_heartbeat [OF _ do_heartbeat(2-5)])
next
  case do_loan
  show ?thesis unfolding do_loan(1)
    by (rule via_party [OF assms(2) do_loan(2,3) assms(3)]) (rule step_loan [OF _ do_loan(2-6)])
next
  case do_loan_typed
  show ?thesis unfolding do_loan_typed(1)
    by (rule via_party [OF assms(2) do_loan_typed(2,3) assms(3)]) (rule step_loan_typed [OF _ do_loan_typed(2-6)])
next
  case do_loan_pinned
  show ?thesis unfolding do_loan_pinned(1)
    by (rule via_party [OF assms(2) do_loan_pinned(2,3) assms(3)]) (rule step_loan_pinned [OF _ do_loan_pinned(2-6)])
next
  case do_write from step_write [OF assms(2) do_write(2-5)] do_write(1) show ?thesis by simp
next
  case do_publish
  show ?thesis unfolding do_publish(1)
    by (rule via_party [OF assms(2) do_publish(2,3) assms(3)]) (rule step_publish [OF _ _ do_publish(2-6)])
next
  case (do_drop_loan i pt l)
  from step_drop_loan [OF assms(2) do_drop_loan(2,3), of "ln_block_idx l"] do_drop_loan(1,4)
    geometry_congs(8) [OF sysinv_partyD(5) [OF assms(2) do_drop_loan(2,3)]]
  show ?thesis by (simp add: loan_drop_def)
next
  case do_send
  show ?thesis unfolding do_send(1)
    by (rule via_party [OF assms(2) do_send(2,3) assms(3)]) (rule step_send [OF _ _ do_send(2-6)])
next
  case do_typed_write from step_typed_write [OF assms(2) do_typed_write(2-5)] do_typed_write(1) show ?thesis by simp
next
  case do_typed_publish
  show ?thesis unfolding do_typed_publish(1)
    by (rule via_party [OF assms(2) do_typed_publish(2,3) assms(3)])
      (rule step_typed_publish [OF _ _ do_typed_publish(2-4) _ do_typed_publish(6,7)],
        use do_typed_publish(5) in \<open>simp_all add: geometry_congs\<close>)
next
  case (do_drop_typed_loan i pt n l)
  from step_drop_loan [OF assms(2) do_drop_typed_loan(2,3), of "tl_block_idx l"] do_drop_typed_loan(1,4)
    geometry_congs(8) [OF sysinv_partyD(5) [OF assms(2) do_drop_typed_loan(2,3)]]
  show ?thesis by (simp add: typed_drop_def)
next
  case do_pinned_write from step_pinned_write [OF assms(2) do_pinned_write(2-5)] do_pinned_write(1) show ?thesis by simp
next
  case do_pinned_publish from step_pinned_publish [OF assms(2) do_pinned_publish(2-6)] do_pinned_publish(1) show ?thesis by simp
next
  case do_pinned_drop from step_pinned_drop [OF assms(2) do_pinned_drop(2-4)] do_pinned_drop(1) show ?thesis by simp
next
  case do_drop_publisher
  show ?thesis unfolding do_drop_publisher(1)
    by (rule via_party [OF assms(2) do_drop_publisher(2,3) assms(3)]) (rule step_drop_publisher [OF _ do_drop_publisher(2-5)])
next
  case do_subscribe from step_subscribe [OF assms(2) do_subscribe(2,3)] do_subscribe(1) show ?thesis by simp
next
  case do_recv from step_recv [OF assms(2,3) do_recv(2-4)] do_recv(1) show ?thesis by simp
next
  case do_recv_typed from step_recv_typed [OF assms(2,3) do_recv_typed(2-4)] do_recv_typed(1) show ?thesis by simp
next
  case do_recv_pinned from step_recv_pinned [OF assms(2) do_recv_pinned(2,3)] do_recv_pinned(1) show ?thesis by simp
next
  case do_drop_sample from step_drop_sample [OF assms(2) do_drop_sample(2,3)] do_drop_sample(1) show ?thesis by simp
next
  case do_drop_typed from step_drop_typed [OF assms(2) do_drop_typed(2,3)] do_drop_typed(1) show ?thesis by simp
next
  case do_drop_guard then show ?thesis using step_drop_guard [OF assms(2)] by simp
next
  case do_rewind then show ?thesis using step_rewind [OF assms(2)] by simp
next
  case do_drop_stream then show ?thesis using step_drop_stream [OF assms(2)] by simp
qed

end
