(* ===== verification/Delivery.thy ===== *)
theory Delivery
  imports Exclusion
begin

text \<open>
  What the transition system of theory \<open>System\<close> promises in every reachable state: exclusive
  loans, exact accounting of blocks, in-order delivery of the published payloads, immutability of
  held samples, and loans that succeed whenever the pool is large enough.
\<close>

section \<open>Reachable states satisfy the invariant\<close>

lemma created_shm_simps:
  "rings (created_shm c clk) t k = (if t < max_topics c \<and> k < ring_depth c then empty_entry else rings (zero_shm c) t k)"
  "topics (created_shm c clk) t = zero_topic" "pool_head (created_shm c clk) = pack 0 0"
  "blocks (created_shm c clk) i = (if i < block_count c then init_block c i (blocks (zero_shm c) i) else blocks (zero_shm c) i)"
proof -
  let ?z = "init_free_list c (zero_shm c)"
  obtain r u where hb: "update_heartbeat clk ?z = (r, u)" by (cases "update_heartbeat clk ?z")
  have u: "topics u = topics ?z" "rings u = rings ?z" "blocks u = blocks ?z" "pool_head u = pool_head ?z"
    using hb by (auto simp: update_heartbeat_def split: sum.splits)
  have z: "topics ?z = topics (zero_shm c)" "rings ?z = rings (zero_shm c)"
    by (simp_all add: init_free_list_def fold_upd_block_frame)
  show "rings (created_shm c clk) t k = (if t < max_topics c \<and> k < ring_depth c then empty_entry else rings (zero_shm c) t k)"
    "topics (created_shm c clk) t = zero_topic" "pool_head (created_shm c clk) = pack 0 0"
    "blocks (created_shm c clk) i = (if i < block_count c then init_block c i (blocks (zero_shm c) i) else blocks (zero_shm c) i)"
    by (simp_all add: created_shm_def hb init_rings_eq u z init_blocks) (simp add: zero_shm_def)
qed

lemma created_acct:
  assumes "0 < block_count c"
  shows "acct c (created_shm c clk) {#} {#}"
proof (rule acct_cong [OF acct_init [OF assms, of "zero_shm c"]])
  show "rings (created_shm c clk) = rings (init_rings c (init_free_list c (zero_shm c)))"
    by (simp add: fun_eq_iff created_shm_simps init_rings_eq init_free_list_def fold_upd_block_frame)
qed (simp_all add: created_shm_simps init_rings_eq init_blocks)

lemma created_meminv:
  assumes "config_ok c"
  shows "meminv c (created_shm c clk) (\<lambda>_. [])"
proof (rule meminvI)
  have "i \<notin># ring_blocks c (created_shm c clk)" if "i < block_count c" for i
    using index_not_NO_BLOCK [OF that] by (auto simp: ring_blocks_def ring_slots_def created_shm_simps empty_entry_def)
  then show "ring_once c (created_shm c clk)" by (simp add: ring_once_def not_in_iff)
  show "data_wf c (created_shm c clk)"
    using assms data_capacity_nat(1) [of c]
    by (simp add: data_wf_def created_shm_simps init_block_def zero_shm_def config_ok_def)
qed (simp_all add: created_shm_simps entry_ok_def window_ok_def empty_entry_def zero_topic_def)

lemma init_sysinv:
  assumes cr: "create os tmp env clk now pid ident name c file = (Inr p, Some seg)"
  shows "sysinv c \<lparr>sy_header = sg_header seg, sy_len = sg_len seg, sy_shm = sg_shm seg, sy_subs = [],
      sy_parties = [\<lparr>pt_pub = p, pt_loan = NoLoan\<rparr>], sy_handles = [], sy_streams = [], sy_samples = [],
      sy_typed = [], sy_guards = [], sy_hist = (\<lambda>_. [])\<rparr>"
proof -
  note cs = create_success [OF cr]
  have "0 < block_count c" using cs(1) by (simp add: config_ok_def)
  with cs(2,5) created_acct [of c clk] created_meminv [OF cs(1), of clk] show ?thesis
    by (simp add: sysinv_def idle_def refs_def party_blocks_def new_publisher_wf party_wf_def env_ok_def header_config_eq)
qed

lemma reach_config: "sys_reach c \<sigma> \<Longrightarrow> config_ok c"
  by (induction rule: sys_reach.induct) (auto dest: create_success(1))

lemma reach_sysinv: "sys_reach c \<sigma> \<Longrightarrow> sysinv c \<sigma>"
proof (induction rule: sys_reach.induct)
  case reach_init
  then show ?case by (rule init_sysinv)
next
  case reach_step
  then show ?case using reach_config step_sysinv by blast
qed

section \<open>Reading the log\<close>

text \<open>
  The specification of \<open>try_recv\<close> on a topic's history: the first ring publication of the window
  after the reader's position.
\<close>

definition next_unread :: "nat \<Rightarrow> bytes option list \<Rightarrow> nat \<Rightarrow> nat option" where
  "next_unread d hs l = find (\<lambda>q. hs ! (q - 1) \<noteq> None) [window_start d l (length hs)..<Suc (length hs)]"

lemma find_map_eq: "find P (map f xs) = map_option f (find (\<lambda>x. P (f x)) xs)"
  by (induction xs) simp_all

text \<open>In the window, a slot can be read exactly when the history has a ring publication there.\<close>

lemma slot_ready_iff:
  assumes inv: "sysinv c \<sigma>" "config_ok c" and t: "t < max_topics c"
    and q: "1 \<le> q" "q \<le> length (sy_hist \<sigma> t)" "length (sy_hist \<sigma> t) < q + unat (ring_depth c)"
  shows "slot_ready c t (of_nat q) (sy_shm \<sigma>) \<longleftrightarrow> sy_hist \<sigma> t ! (q - 1) \<noteq> None"
    and "sy_hist \<sigma> t ! (q - 1) \<noteq> None \<Longrightarrow> (let e = rings (sy_shm \<sigma>) t (ring_slot c (of_nat q)) in
      sy_hist \<sigma> t ! (q - 1) = Some (take (unat (re_data_len e)) (bk_data (blocks (sy_shm \<sigma>) (re_block_idx e)))))"
proof -
  let ?s = "sy_shm \<sigma>" and ?hs = "sy_hist \<sigma> t" and ?k = "ring_slot c (of_nat q)"
  let ?e = "rings ?s t ?k"
  note m = meminvD [OF sysinvD(2) [OF inv(1)]]
  have d: "is_power_of_two (ring_depth c)" using inv(2) by (simp add: config_ok_def)
  have k: "?k < ring_depth c" by (rule ring_slot_less [OF d])
  have "q < 2 ^ 64" using q(2) m(3) [OF t] unat_u64_less [of "te_write_seq (topics ?s t)"] by simp
  then have qn: "unat (of_nat q :: u64) = q" by (simp add: unat_of_nat)
  then have q0: "(of_nat q :: u64) \<noteq> 0" using q(1) by (metis not_one_le_zero unat_0)
  have ok: "entry_ok c ?s ?hs ?k ?e" by (rule m(5) [OF t k])
  have seq: "re_seq ?e = of_nat q" if "?hs ! (q - 1) \<noteq> None"
    using m(6) [OF t] q that unfolding window_ok_def by blast
  show val: "let e = ?e in ?hs ! (q - 1) = Some (take (unat (re_data_len e)) (bk_data (blocks ?s (re_block_idx e))))"
    if "?hs ! (q - 1) \<noteq> None"
    using ok seq [OF that] q0 qn by (simp add: entry_ok_def Let_def)
  show "slot_ready c t (of_nat q) ?s \<longleftrightarrow> ?hs ! (q - 1) \<noteq> None"
  proof
    assume "slot_ready c t (of_nat q) ?s"
    then have "re_seq ?e = of_nat q" by (simp add: slot_ready_def Let_def)
    with ok q0 qn show "?hs ! (q - 1) \<noteq> None" by (simp add: entry_ok_def)
  next
    assume h: "?hs ! (q - 1) \<noteq> None"
    have e: "re_block_idx ?e < block_count c" "unat (re_data_len ?e) \<le> unat (data_capacity c)"
      using ok seq [OF h] q0 by (simp_all add: entry_ok_def)
    note nb = index_not_NO_BLOCK [OF e(1)]
    have "re_block_idx ?e \<in># ring_blocks c ?s + refs \<sigma>" using ring_member [OF t k] by simp
    from acct_ref_positive(2) [OF sysinvD(1) [OF inv(1)] this nb] have "refcount ?s (re_block_idx ?e) \<noteq> 0"
      by (simp add: unat_gt_0)
    then show "slot_ready c t (of_nat q) ?s"
      using e nb seq [OF h] by (simp add: slot_ready_def Let_def word_le_nat_alt)
  qed
qed

lemma window_start_bounds:
  assumes "q \<in> set [window_start d l n..<Suc n]"
  shows "1 \<le> q" "q \<le> n" "l < q" "0 < d \<Longrightarrow> n < q + d"
  using assms by (auto simp: window_start_def)

lemma try_recv_log:
  assumes inv: "sysinv c \<sigma>" "config_ok c" and ok: "stream_ok c st"
  shows "try_recv st (sy_shm \<sigma>) =
    (case next_unread (unat (ring_depth c)) (sy_hist \<sigma> (st_topic_idx st)) (unat (last_seq st)) of
       None \<Rightarrow> (None, st, sy_shm \<sigma>) | Some q \<Rightarrow> try_read_slot (of_nat q) st (sy_shm \<sigma>))"
proof -
  let ?s = "sy_shm \<sigma>" and ?t = "st_topic_idx st" and ?hs = "sy_hist \<sigma> (st_topic_idx st)"
  let ?d = "unat (ring_depth c)" and ?l = "unat (last_seq st)"
  define w where "w = te_write_seq (topics ?s ?t)"
  have g: "same_geometry c (st_config st)" and st: "st_topic_idx st < max_topics c" using ok by (simp_all add: stream_ok_def)
  have dp: "0 < ring_depth c" using inv(2) by (simp add: config_ok_def is_power_of_two_pos)
  have wn: "unat w = length ?hs" using meminvD(3) [OF sysinvD(2) [OF inv(1)] st] by (simp add: w_def)
  show ?thesis
  proof (cases "w \<le> last_seq st")
    case True
    then have "[window_start ?d ?l (length ?hs)..<Suc (length ?hs)] = []"
      using wn by (simp add: window_start_def word_le_nat_alt)
    then show ?thesis using True unfolding w_def by (simp add: try_recv_def next_unread_def del: upt_Suc)
  next
    case False
    have rd: "ring_depth (st_config st) = ring_depth c" using same_geometryD [OF g] by simp
    have "last_seq st < w" "0 < ring_depth (st_config st)" using False dp rd by simp_all
    note start = scan_start_nat [OF this, unfolded rd wn]
    have "find (\<lambda>q. slot_ready c ?t q ?s) (seq_range (scan_start st w) w) =
        map_option of_nat (find (\<lambda>q. slot_ready c ?t (of_nat q) ?s) [window_start ?d ?l (length ?hs)..<Suc (length ?hs)])"
      unfolding seq_range_def start wn by (rule find_map_eq)
    also have "find (\<lambda>q. slot_ready c ?t (of_nat q) ?s) [window_start ?d ?l (length ?hs)..<Suc (length ?hs)] =
        next_unread ?d ?hs ?l"
      unfolding next_unread_def
    proof (rule find_cong [OF refl])
      fix q assume "q \<in> set [window_start ?d ?l (length ?hs)..<Suc (length ?hs)]"
      from window_start_bounds [OF this] dp
      show "slot_ready c ?t (of_nat q) ?s = (?hs ! (q - 1) \<noteq> None)"
        by (intro slot_ready_iff(1) [OF inv st]) (simp_all add: word_less_nat_alt)
    qed
    finally show ?thesis using False unfolding w_def
      by (simp add: try_recv_def scan_eq geometry_congs [OF g] split: option.split)
  qed
qed

section \<open>What a step can write\<close>

lemma idle_party: "i < length (sy_parties \<sigma>) \<Longrightarrow> b \<in># party_blocks (sy_parties \<sigma> ! i) \<Longrightarrow> b \<in># idle \<sigma>"
  by (simp add: idle_split)

lemma party_acct:
  assumes "sysinv c \<sigma>" "i < length (sy_parties \<sigma>)" "pt = sy_parties \<sigma> ! i" "pt_loan pt = NoLoan"
  shows "pub_wf (pub_config (pt_pub pt)) (pt_pub pt)"
    "acct (pub_config (pt_pub pt)) (sy_shm \<sigma>) (others i \<sigma> + held (pt_pub pt)) (refs \<sigma>)"
  using sysinv_partyD [OF assms(1-3)] assms(4) geometry_inv(1) [OF sysinv_partyD(5) [OF assms(1-3)]]
  by (simp_all add: party_blocks_def pub_ok_def)

lemma same_but_pool_data: "same_but_pool s s' \<Longrightarrow> bk_data (blocks s' b) = bk_data (blocks s b)"
  by (simp add: same_but_pool_def)

lemma mem_frame_data: "mem_frame s s' \<Longrightarrow> bk_data (blocks s' b) = bk_data (blocks s b)"
  by (simp add: mem_frame_def)

lemma loan_pinned_data:
  assumes "sysinv c \<sigma>" "i < length (sy_parties \<sigma>)" "pt = sy_parties \<sigma> ! i" "pt_loan pt = NoLoan" "h \<in> set (sy_handles \<sigma>)"
    and ln: "loan_pinned h (pt_pub pt) (sy_shm \<sigma>) = (res, p', s')"
  shows "bk_data (blocks s' b) = bk_data (blocks (sy_shm \<sigma>) b)"
proof -
  let ?p = "pt_pub pt" and ?s = "sy_shm \<sigma>" and ?t = "topic_idx h"
  have t: "?t < max_topics (pub_config ?p)"
    using sysinvD(4) [OF assms(1,5)] same_geometryD [OF sysinv_partyD(5) [OF assms(1-3)]] by (simp add: topic_live_def)
  obtain r q u where pb: "pinned_block_for ?t ?p ?s = (r, q, u)" by (cases "pinned_block_for ?t ?p ?s")
  have "bk_data (blocks u b) = bk_data (blocks ?s b)"
    using pinned_block_for_acct [OF pb party_acct [OF assms(1-4)] t] by simp
  moreover have "blocks s' = blocks ?s \<or> blocks s' = blocks u"
    using ln unfolding loan_pinned_def Let_def pb by (auto split: if_splits sum.splits)
  ultimately show ?thesis by auto
qed

text \<open>A step changes the data of no block but those its party holds for itself.\<close>

lemma step_keeps_data:
  assumes "sys_step c \<sigma> \<sigma>'" "sysinv c \<sigma>" and b: "b \<notin># idle \<sigma>"
  shows "bk_data (blocks (sy_shm \<sigma>') b) = bk_data (blocks (sy_shm \<sigma>) b)"
  using assms(1)
proof cases
  case do_register
  then show ?thesis by (auto simp: register_inner_def split: if_splits option.splits)
next
  case (do_heartbeat i pt now clk res p' s')
  obtain r u where "update_heartbeat clk (sy_shm \<sigma>) = (r, u)" by (cases "update_heartbeat clk (sy_shm \<sigma>)")
  moreover from this have "s' = u" using do_heartbeat(5) unfolding pub_heartbeat_def by (cases r) auto
  ultimately show ?thesis using do_heartbeat(1) same_but_pool_data [OF update_heartbeat_frame(1)] by simp
next
  case do_loan
  with loan_acct [OF do_loan(6) party_acct [OF assms(2) do_loan(2-4)]] same_but_pool_data show ?thesis by simp
next
  case do_loan_typed
  with loan_typed_acct [OF do_loan_typed(6) party_acct [OF assms(2) do_loan_typed(2-4)]] same_but_pool_data show ?thesis by simp
next
  case do_loan_pinned
  with loan_pinned_data [OF assms(2) do_loan_pinned(2-6)] show ?thesis by simp
next
  case (do_write i pt l l' s')
  have "loan_wf c l" using sysinv_partyD(4) [OF assms(2) do_write(2,3)] do_write(4) by simp
  from loan_write_frame [OF do_write(5) this meminvD(2) [OF sysinvD(2) [OF assms(2)]]]
  obtain d where s': "s' = set_block_data (ln_block_idx l) d (sy_shm \<sigma>)" by blast
  have "ln_block_idx l \<in># party_blocks pt" by (simp add: party_blocks_def do_write(4))
  then have "b \<noteq> ln_block_idx l" using idle_party [OF do_write(2)] do_write(3) b by auto
  then show ?thesis using do_write(1) s' by simp
next
  case (do_publish i pt l wake woke r' s')
  then have "commit_to_ring (ln_block_idx l) (of_nat (ln_len l)) (ln_topic_idx l) wake (ln_single_publisher l)
      (pub_region (pt_pub pt), sy_shm \<sigma>) = (woke, r', s')" by (simp add: loan_commit_def split: if_splits)
  from commit_frame(4) [OF this] do_publish(1) show ?thesis by simp
next
  case do_drop_loan
  then show ?thesis by (simp add: loan_drop_def mem_frame_data)
next
  case (do_send i pt "value" l woke r' s')
  let ?u = "write_block (tl_block_idx l) 0 value (sy_shm \<sigma>)"
  have cm: "commit_to_ring (tl_block_idx l) (of_nat (length value)) (tl_topic_idx l) True (tl_single_publisher l)
      (pub_region (pt_pub pt), ?u) = (woke, r', s')"
    using do_send(6) by (simp add: send_def typed_commit_def split: if_splits)
  have "tl_block_idx l \<in># party_blocks pt" by (simp add: party_blocks_def do_send(4))
  then have "b \<noteq> tl_block_idx l" using idle_party [OF do_send(2)] do_send(3) b by auto
  with commit_frame(4) [OF cm] do_send(1) show ?thesis by simp
next
  case (do_typed_write i pt "value" l s')
  have "tl_block_idx l \<in># party_blocks pt" by (simp add: party_blocks_def do_typed_write(4))
  then have "b \<noteq> tl_block_idx l" using idle_party [OF do_typed_write(2)] do_typed_write(3) b by auto
  with do_typed_write show ?thesis by (auto simp: as_mut_write_def split: if_splits)
next
  case do_typed_publish
  from commit_frame(4) [OF do_typed_publish(7) [unfolded typed_commit_def]] do_typed_publish(1) show ?thesis by simp
next
  case do_drop_typed_loan
  then show ?thesis by (simp add: typed_drop_def mem_frame_data)
next
  case (do_pinned_write i pt l l' s')
  note pd = sysinv_partyD [OF assms(2) do_pinned_write(2,3)]
  have l: "pl_len l \<le> pl_capacity l" "pl_block_idx l \<in># party_blocks pt" "pl_capacity l = unat (data_capacity c)"
    using pd(4) do_pinned_write(4) by (simp_all add: party_blocks_def)
  have "pl_block_idx l < block_count c" using acct_idle(1) [OF pd(1)] l(2) by simp
  then have "length (bk_data (blocks (sy_shm \<sigma>) (pl_block_idx l))) = pl_capacity l"
    using meminvD(2) [OF sysinvD(2) [OF assms(2)]] l(3) by (simp add: data_wf_def)
  from pinned_write_frame [OF do_pinned_write(5) l(1) this]
  obtain d where s': "s' = set_block_data (pl_block_idx l) d (sy_shm \<sigma>)" by blast
  have "b \<noteq> pl_block_idx l" using idle_party [OF do_pinned_write(2)] do_pinned_write(3) b l(2) by auto
  then show ?thesis using do_pinned_write(1) s' by simp
next
  case do_pinned_publish
  then show ?thesis
    by (auto simp: pinned_publish_def commit_pinned_def clear_sentinel_def Let_def split: if_splits)
next
  case (do_drop_publisher i pt pid ino reg removed s' reg')
  note pa = party_acct [OF assms(2) do_drop_publisher(2-4)]
  have "same_but_pool (sy_shm \<sigma>) s'" by (rule publisher_drop_acct(2) [OF do_drop_publisher(5) pa(2)])
  then show ?thesis using same_but_pool_data do_drop_publisher(1) by simp
next
  case do_recv
  from do_recv(4) do_recv(1) show ?thesis
    by (cases rule: try_recv_cases) (auto simp: reads_slot_def Let_def)
next
  case do_recv_typed
  from do_recv_typed(4) do_recv_typed(1) show ?thesis
    by (cases rule: try_recv_typed_cases) (auto simp: reads_slot_def Let_def)
next
  case do_drop_sample
  then show ?thesis by (simp add: sample_drop_def mem_frame_data [OF mem_frame_release])
next
  case do_drop_typed
  then show ?thesis by (simp add: typed_sample_drop_def mem_frame_data [OF mem_frame_release])
qed (auto simp: subscribe_def pinned_drop_def clear_sentinel_def try_recv_pinned_def Let_def pinned_guard_drop_def
    stream_drop_def split: if_splits option.splits)

section \<open>Pool sizing\<close>

lemma card_set_mset_le: "card (set_mset M) \<le> size M"
  by (induction M) (simp_all add: card_insert_if)

lemma card_u32_less: "card {i :: u32. i < n} = unat n"
proof -
  have "{i. i < n} = set (range_u32 n)" by auto
  then show ?thesis by (metis distinct_card distinct_range_u32 length_range_u32)
qed

lemma size_ring_blocks: "size (ring_blocks c s) = unat (max_topics c) * unat (ring_depth c)"
proof -
  have "ring_slots c = {t. t < max_topics c} \<times> {k. k < ring_depth c}" by (auto simp: ring_slots_def)
  then have "card (ring_slots c) = unat (max_topics c) * unat (ring_depth c)"
    by (simp add: card_cartesian_product card_u32_less)
  then show ?thesis by (simp add: ring_blocks_def)
qed

text \<open>An empty free list means that every block is in a ring slot, held by a reader or held by a publisher.\<close>

lemma exhausted_count:
  assumes "acct c s I S" "free_list c s []"
  shows "unat (block_count c) \<le> unat (max_topics c) * unat (ring_depth c) + size I + size S"
proof -
  from assms(1) obtain fs where a: "free_list c s fs"
    "\<And>i. i < block_count c \<Longrightarrow> count (mset fs) i + count I i = vacant (refcount s i)"
    "\<And>i. i < block_count c \<Longrightarrow> unat (refcount s i) = count (ring_blocks c s) i + count S i" by (rule acctE) blast
  have fs: "fs = []" using free_list_functional [OF a(1) assms(2)] .
  let ?M = "ring_blocks c s + I + S"
  have "{i. i < block_count c} \<subseteq> set_mset ?M"
  proof
    fix i assume "i \<in> {i. i < block_count c}"
    then have i: "i < block_count c" by simp
    show "i \<in># ?M"
    proof (cases "refcount s i = 0")
      case True
      with a(2) [OF i] fs have "count I i = 1" by simp
      then have "i \<in># I" by (metis count_greater_zero_iff zero_less_one)
      then show ?thesis by simp
    next
      case False
      then have "0 < count (ring_blocks c s) i + count S i" using a(3) [OF i] by (metis unat_gt_0)
      then show ?thesis by (auto simp: count_greater_zero_iff)
    qed
  qed
  then have "unat (block_count c) \<le> card (set_mset ?M)"
    using card_mono [of "set_mset ?M" "{i. i < block_count c}"] by (simp add: card_u32_less)
  also have "\<dots> \<le> size ?M" by (rule card_set_mset_le)
  finally show ?thesis by (simp add: size_ring_blocks)
qed

lemma loan_exhausted:
  assumes "loan_preamble now clk h p s = (Inl e, p', s')" "pub_wf c p" "acct c s (J + held p) S" "publisher_id h = pub_id p"
  shows "e = PoolExhausted \<and> free_list c s' [] \<and> acct c s' (J + pinned p) S"
proof -
  obtain q u where hb: "loan_heartbeat now clk (p\<lparr>loan_count := loan_count p + 1\<rparr>) s = (q, u)"
    by (cases "loan_heartbeat now clk (p\<lparr>loan_count := loan_count p + 1\<rparr>) s")
  have w: "pub_wf c (p\<lparr>loan_count := loan_count p + 1\<rparr>)" using assms(2) by (simp add: pub_wf_def)
  note H = loan_heartbeat_acct [OF hb w assms(3)]
  have hq: "held q = held p" using H(2) by (simp add: held_def cached_def pinned_def)
  obtain res p1 s1 where al: "alloc_cached q u = (res, p1, s1)" by (metis prod_cases3)
  have a: "acct c u (J + held q) S" using H(6) by (simp add: hq)
  note A = alloc_cached_acct [OF al H(1) a]
  have r: "res = Inr None" "e = PoolExhausted" "p' = p1" "s' = s1"
    using A assms(1) assms(4) unfolding loan_preamble_def by (auto simp: hb al Let_def)
  then have A': "acct c s1 (J + held p1) S" "free_list c s1 []" "held p1 = pinned p1" using A by auto
  have "pinned p1 = pinned p" using A H(4) by (simp add: pinned_def)
  with A' r show ?thesis by simp
qed

section \<open>A run\<close>

text \<open>
  A concrete run, for the instances below: one topic, four blocks of 16 bytes; a publisher
  registers a topic, a stream subscribes, the publisher loans a block, writes three bytes and
  publishes them, and the stream receives.
\<close>

definition demo_config :: config where
  "demo_config = small_config\<lparr>max_topics := 1\<rparr>"

definition demo_handle :: topic_handle where
  "demo_handle = \<lparr>topic_idx = 0, publisher_id = 1\<rparr>"

definition demo_stream :: stream where
  "demo_stream = \<lparr>st_config = opened_config demo_config, st_topic_idx = 0, last_seq = 0, type_size = 0\<rparr>"

lemma demo_config_simps [simp]:
  "max_topics demo_config = 1" "block_count demo_config = 4" "ring_depth demo_config = 2" "block_size demo_config = 24"
  by (simp_all add: demo_config_def)

lemma demo_config_ok: "config_ok demo_config"
  by (simp add: config_ok_def is_power_of_two_def count_ones_def upt_conv_Cons region_size_checked_eq
      region_bytes_def pool_start_def)

lemma range_u32_1 [simp]: "range_u32 1 = [0]"
  by (simp add: range_u32_def)

abbreviation demo_pub :: publisher where
  "demo_pub \<equiv> new_publisher demo_config ''market'' (Some 42) True 1 0"

lemma demo_registered:
  "register_inner (Some 7) 1 ''/tick'' 0 demo_pub (created_shm demo_config (Some 7)) None =
     (Inr demo_handle, upd_topic 0 (init_topic ''/tick'' 0) (created_shm demo_config (Some 7)), None)"
  by (simp add: register_inner_def new_publisher_def from_raw_def created_shm_simps topic_matches_def zero_topic_def
      TE_STATE_ACTIVE_def TE_STATE_FREE_def TE_URI_MAX_def demo_handle_def)

lemma demo_start:
  "\<exists>\<sigma>. sys_reach demo_config \<sigma> \<and> sy_shm \<sigma> = created_shm demo_config (Some 7) \<and> sy_header \<sigma> = write_header demo_config 7 (replicate 128 0) \<and>
     sy_len \<sigma> = unat (the (region_size_checked demo_config)) \<and> sy_subs \<sigma> = [] \<and> sy_streams \<sigma> = [] \<and>
     sy_parties \<sigma> = [\<lparr>pt_pub = demo_pub, pt_loan = NoLoan\<rparr>] \<and>
     sy_handles \<sigma> = [] \<and> sy_samples \<sigma> = [] \<and> sy_typed \<sigma> = [] \<and> sy_hist \<sigma> = (\<lambda>_. [])"
proof -
  obtain seg where cr: "create Linux ''/tmp'' os_all_ok (Some 7) 0 7 1 ''market'' demo_config None = (Inr demo_pub, Some seg)"
    using create_ok [OF demo_config_ok market_valid os_all_ok_def, of Linux "''/tmp''" 7 0 7 1 None] by blast
  note r = sys_reach.reach_init [OF cr]
  show ?thesis by (rule exI, rule conjI, rule r) (use create_success(5) [OF cr] in simp)
qed

lemma demo_subscribed:
  "\<exists>\<sigma>. sys_reach demo_config \<sigma> \<and> sy_parties \<sigma> = [\<lparr>pt_pub = demo_pub, pt_loan = NoLoan\<rparr>] \<and>
     sy_handles \<sigma> = [demo_handle] \<and> sy_streams \<sigma> = [demo_stream] \<and> sy_samples \<sigma> = [] \<and> sy_typed \<sigma> = [] \<and>
     sy_hist \<sigma> = (\<lambda>_. []) \<and> te_write_seq (topics (sy_shm \<sigma>) 0) = 0"
proof -
  let ?s = "upd_topic 0 (init_topic ''/tick'' 0) (created_shm demo_config (Some 7))"
  obtain \<sigma>0 where r0: "sys_reach demo_config \<sigma>0" and s0: "sy_shm \<sigma>0 = created_shm demo_config (Some 7)"
    "sy_header \<sigma>0 = write_header demo_config 7 (replicate 128 0)" "sy_len \<sigma>0 = unat (the (region_size_checked demo_config))"
    "sy_subs \<sigma>0 = []" "sy_streams \<sigma>0 = []" "sy_parties \<sigma>0 = [\<lparr>pt_pub = demo_pub, pt_loan = NoLoan\<rparr>]" "sy_handles \<sigma>0 = []"
    "sy_samples \<sigma>0 = []" "sy_typed \<sigma>0 = []" "sy_hist \<sigma>0 = (\<lambda>_. [])" using demo_start by blast
  define \<sigma>1 where "\<sigma>1 = \<sigma>0\<lparr>sy_shm := ?s, sy_handles := demo_handle # sy_handles \<sigma>0\<rparr>"
  define s2 where "s2 = upd_topic 0 (\<lambda>e. e\<lparr>te_subscriber_count := te_subscriber_count e + 1\<rparr>) ?s"
  have "sys_step demo_config \<sigma>0 \<sigma>1" unfolding \<sigma>1_def
    by (rule sys_step.do_register [of 0 _ "sy_parties \<sigma>0 ! 0" "Some 7" 1 "''/tick''" 0 None _ _ None])
      (simp_all add: s0 demo_registered)
  with r0 have r1: "sys_reach demo_config \<sigma>1" by (rule sys_reach.reach_step)
  have hb: "heartbeat ?s = 7"
    by (simp add: created_shm_def update_heartbeat_def now_micros_def init_rings_eq init_free_list_def fold_upd_block_frame)
      (simp add: zero_shm_def)
  then have "check_heartbeat (opened_config demo_config) (Some 7) ?s = Inr ()"
    by (simp add: check_heartbeat_def now_micros_def saturating_sub_def)
  then have "open_and_validate_region Linux ''/tmp'' \<lparr>oo_open = Inr (file_of \<sigma>1), oo_meta = None, oo_map = None\<rparr> (Some 7) ''market'' =
      Inr (from_raw (opened_config demo_config), shm_path Linux ''/tmp'' ''market'')"
    using open_and_validate_eq [of "os_opens (file_of \<sigma>1)" "file_of \<sigma>1" demo_config 7 Linux "''/tmp''" "Some 7" "''market''"] demo_config_ok
    by (simp add: \<sigma>1_def s0 MAX_TOPICS_LIMIT_def)
  then have "connect Linux ''/tmp'' \<lparr>oo_open = Inr (file_of \<sigma>1), oo_meta = None, oo_map = None\<rparr> (Some 7) ''market'' =
      Inr (from_raw (opened_config demo_config))"
    using market_valid by (simp add: connect_def validate_name_def)
  note co = sys_step.do_connect [OF this, of demo_config]
  define \<sigma>2 where "\<sigma>2 = \<sigma>1\<lparr>sy_subs := rg_config (from_raw (opened_config demo_config)) # sy_subs \<sigma>1\<rparr>"
  have r2: "sys_reach demo_config \<sigma>2" unfolding \<sigma>2_def by (rule sys_reach.reach_step [OF r1 co])
  have m: "topic_matches ''/tick'' (topics ?s 0)"
    using init_topic_matches [of "''/tick''"] by simp
  have mt: "max_topics (opened_config demo_config) = 1" by (simp add: opened_config_def)
  have "subscribe (opened_config demo_config) ''/tick'' (sy_shm \<sigma>2) = (Inr demo_stream, s2)"
    using m by (simp add: \<sigma>2_def \<sigma>1_def subscribe_def demo_stream_def s2_def mt)
      (simp add: init_topic_def created_shm_simps zero_topic_def)
  moreover have "opened_config demo_config \<in> set (sy_subs \<sigma>2)" by (simp add: \<sigma>2_def from_raw_def)
  ultimately have "sys_step demo_config \<sigma>2 (\<sigma>2\<lparr>sy_shm := s2, sy_streams := sy_streams \<sigma>2 @ [demo_stream]\<rparr>)"
    by (intro sys_step.do_subscribe)
  with r2 have "sys_reach demo_config (\<sigma>2\<lparr>sy_shm := s2, sy_streams := sy_streams \<sigma>2 @ [demo_stream]\<rparr>)"
    by (rule sys_reach.reach_step)
  then show ?thesis
    by (intro exI [of _ "\<sigma>2\<lparr>sy_shm := s2, sy_streams := sy_streams \<sigma>2 @ [demo_stream]\<rparr>"])
      (simp add: \<sigma>2_def \<sigma>1_def s0 s2_def init_topic_def)
qed

lemma loan_or_exhausted:
  assumes "Publisher.loan now clk h p s = (res, p', s')" "pub_wf c p" "acct c s (J + held p) S" "publisher_id h = pub_id p"
    "unat (max_topics c) * unat (ring_depth c) + size J + size (pinned p) + size S < unat (block_count c)"
  shows "\<exists>l. res = Inr l"
proof (cases res)
  case (Inl e)
  with assms(1) have "loan_preamble now clk h p s = (Inl e, p', s')"
    by (auto simp: loan_def split: prod.splits sum.splits)
  from loan_exhausted [OF this assms(2-4)] have "free_list c s' []" "acct c s' (J + pinned p) S" by blast+
  from exhausted_count [OF this(2,1)] assms(5) show ?thesis by simp
qed simp

lemma demo_loaned:
  "\<exists>\<sigma> l. sys_reach demo_config \<sigma> \<and> length (sy_parties \<sigma>) = 1 \<and> pt_loan (sy_parties \<sigma> ! 0) = ALoan l \<and>
     ln_topic_idx l = 0 \<and> sy_streams \<sigma> = [demo_stream] \<and> sy_samples \<sigma> = [] \<and> sy_typed \<sigma> = [] \<and>
     sy_hist \<sigma> = (\<lambda>_. []) \<and> te_write_seq (topics (sy_shm \<sigma>) 0) = 0"
proof -
  let ?p = demo_pub
  obtain \<sigma> where r: "sys_reach demo_config \<sigma>" and \<sigma>: "sy_parties \<sigma> = [\<lparr>pt_pub = ?p, pt_loan = NoLoan\<rparr>]"
    "sy_handles \<sigma> = [demo_handle]" "sy_streams \<sigma> = [demo_stream]" "sy_samples \<sigma> = []" "sy_typed \<sigma> = []"
    "sy_hist \<sigma> = (\<lambda>_. [])" "te_write_seq (topics (sy_shm \<sigma>) 0) = 0" using demo_subscribed by blast
  note inv = reach_sysinv [OF r]
  obtain res p' s' where ln: "Publisher.loan 0 (Some 7) demo_handle ?p (sy_shm \<sigma>) = (res, p', s')" by (metis prod_cases3)
  have "acct demo_config (sy_shm \<sigma>) ({#} + held ?p) {#}"
    using sysinvD(1) [OF inv] \<sigma> by (simp add: idle_def refs_def party_blocks_def new_publisher_wf)
  note la = loan_acct [OF ln new_publisher_wf(1) this] and le = loan_or_exhausted [OF ln new_publisher_wf(1) this]
  have "\<exists>l. res = Inr l" by (rule le) (simp_all add: demo_handle_def new_publisher_def pinned_def)
  then obtain l where l: "res = Inr l" by blast
  let ?\<tau> = "set_party 0 \<lparr>pt_pub = p', pt_loan = (case res of Inr l \<Rightarrow> ALoan l | Inl _ \<Rightarrow> NoLoan)\<rparr> s' \<sigma>"
  have "sys_step demo_config \<sigma> ?\<tau>"
    by (rule sys_step.do_loan [of 0 _ "sy_parties \<sigma> ! 0" demo_handle 0 "Some 7"]) (simp_all add: \<sigma> ln)
  with r have "sys_reach demo_config ?\<tau>" by (rule sys_reach.reach_step)
  moreover have "ln_topic_idx l = 0" "te_write_seq (topics s' 0) = 0"
    using la \<sigma>(7) by (simp_all add: l demo_handle_def same_but_pool_def)
  ultimately show ?thesis using \<sigma> l by (intro exI [of _ ?\<tau>] exI [of _ l]) simp
qed

lemma demo_published:
  "\<exists>\<sigma>. sys_reach demo_config \<sigma> \<and> sy_streams \<sigma> = [demo_stream] \<and> sy_samples \<sigma> = [] \<and> sy_typed \<sigma> = [] \<and>
     sy_hist \<sigma> 0 = [Some [1, 2, 3]]"
proof -
  obtain \<sigma> l where r: "sys_reach demo_config \<sigma>" and \<sigma>: "length (sy_parties \<sigma>) = 1" "pt_loan (sy_parties \<sigma> ! 0) = ALoan l"
    "ln_topic_idx l = 0" "sy_streams \<sigma> = [demo_stream]" "sy_samples \<sigma> = []" "sy_typed \<sigma> = []"
    "sy_hist \<sigma> = (\<lambda>_. [])" "te_write_seq (topics (sy_shm \<sigma>) 0) = 0" using demo_loaned by blast
  note inv = reach_sysinv [OF r]
  let ?pt = "sy_parties \<sigma> ! 0" and ?s = "write_block (ln_block_idx l) 0 [1, 2, 3] (sy_shm \<sigma>)" and ?l = "l\<lparr>ln_len := 3\<rparr>"
  have i: "0 < length (sy_parties \<sigma>)" using \<sigma>(1) by simp
  have "loan_wf demo_config l" using sysinv_partyD(4) [OF inv i refl] \<sigma>(2) by simp
  then have cap: "ln_capacity l = 16"
    using data_capacity_nat(1) [of demo_config] by (simp add: loan_wf_def)
  have "set_data False 0 [1, 2, 3] l (sy_shm \<sigma>) = (Inr (), ?l, ?s)" by (simp add: set_data_def cap)
  then have "loan_write l (sy_shm \<sigma>) ?l ?s" by (rule loan_write.w_data)
  note st = sys_step.do_write [OF i refl \<sigma>(2) this]
  define \<sigma>1 where "\<sigma>1 = set_party 0 (?pt\<lparr>pt_loan := ALoan ?l\<rparr>) ?s \<sigma>"
  have r1: "sys_reach demo_config \<sigma>1" unfolding \<sigma>1_def by (rule sys_reach.reach_step [OF r st])
  have \<sigma>1: "0 < length (sy_parties \<sigma>1)" "pt_loan (sy_parties \<sigma>1 ! 0) = ALoan ?l" "sy_shm \<sigma>1 = ?s"
    "sy_streams \<sigma>1 = [demo_stream]" "sy_samples \<sigma>1 = []" "sy_typed \<sigma>1 = []" "sy_hist \<sigma>1 = (\<lambda>_. [])"
    using i \<sigma> by (simp_all add: \<sigma>1_def)
  have room: "seq_room (sy_shm \<sigma>1) (ln_topic_idx ?l)" unfolding \<sigma>1(3) by (simp add: seq_room_def \<sigma>(3,8))
  have "loan_commit True ?l (pub_region (pt_pub (sy_parties \<sigma>1 ! 0)), sy_shm \<sigma>1) \<noteq> None"
    by (simp add: loan_commit_def unsigned_minus_1_eq_mask mask_eq_exp_minus_1)
  then obtain woke r' s' where cm: "loan_commit True ?l (pub_region (pt_pub (sy_parties \<sigma>1 ! 0)), sy_shm \<sigma>1) = Some (woke, r', s')"
    by (metis option.exhaust prod_cases3)
  note reach = sys_reach.reach_step [OF r1 sys_step.do_publish [OF \<sigma>1(1) refl \<sigma>1(2) room cm]]
  have "bk_data (blocks (sy_shm \<sigma>1) (ln_block_idx ?l)) = overwrite (bk_data (blocks (sy_shm \<sigma>) (ln_block_idx l))) 0 [1, 2, 3]"
    unfolding \<sigma>1(3) by simp
  then have "take (ln_len ?l) (bk_data (blocks (sy_shm \<sigma>1) (ln_block_idx ?l))) = [1, 2, 3]"
    by (simp add: overwrite_def)
  note reach = reach [unfolded this]
  show ?thesis by (rule exI, rule conjI, rule reach) (simp add: \<sigma>1 \<sigma>(3))
qed

section \<open>Properties\<close>

lemma nth_remove_at:
  assumes "j < length xs" "j \<noteq> i"
  shows "xs ! j \<in> set (remove_at i xs)"
proof (cases "j < i")
  case True
  then have "take i xs ! j = xs ! j" "j < length (take i xs)" using assms by simp_all
  then show ?thesis unfolding remove_at_def by (metis UnI1 nth_mem set_append)
next
  case False
  then have "drop (Suc i) xs ! (j - Suc i) = xs ! j" "j - Suc i < length (drop (Suc i) xs)" using assms by simp_all
  then show ?thesis unfolding remove_at_def by (metis UnI2 nth_mem set_append)
qed

lemma in_sum_list: "x \<in> set xs \<Longrightarrow> b \<in># f x \<Longrightarrow> b \<in># sum_list (map f xs)"
  by (induction xs) auto

text \<open>
  \<^bold>\<open>C19.\<close> A loan is exclusive.  In every reachable state, a block a publisher holds (loaned, pinned,
  cached or recycled) has reference count 0, is held once and by no other publisher, and is in no
  ring slot, under no sample and not on the free list.  So no reader and no other writer can
  reach the bytes a publisher is writing through a loan.
\<close>

theorem loans_are_exclusive:
  assumes "sys_reach c \<sigma>" and "i < length (sy_parties \<sigma>)" and "b \<in># party_blocks (sy_parties \<sigma> ! i)"
  shows "b < block_count c \<and> refcount (sy_shm \<sigma>) b = 0 \<and> count (party_blocks (sy_parties \<sigma> ! i)) b = 1 \<and>
    (\<forall>j < length (sy_parties \<sigma>). j \<noteq> i \<longrightarrow> b \<notin># party_blocks (sy_parties \<sigma> ! j)) \<and>
    b \<notin># ring_blocks c (sy_shm \<sigma>) \<and> (\<forall>m \<in> set (sy_samples \<sigma>). sm_block_idx m \<noteq> b) \<and> b \<notin> set (sy_typed \<sigma>) \<and>
    (\<forall>fs. free_list c (sy_shm \<sigma>) fs \<longrightarrow> b \<notin> set fs)"
proof -
  note inv = reach_sysinv [OF assms(1)]
  let ?ps = "sy_parties \<sigma>" and ?s = "sy_shm \<sigma>"
  note a = sysinvD(1) [OF inv]
  have "b \<in># idle \<sigma>" using idle_party [OF assms(2,3)] .
  note bi = acct_idle [OF a this]
  have sp: "idle \<sigma> = others i \<sigma> + party_blocks (?ps ! i)" by (rule idle_split [OF assms(2)])
  have "count (others i \<sigma>) b + count (party_blocks (?ps ! i)) b = 1" "0 < count (party_blocks (?ps ! i)) b"
    using bi(3) assms(3) by (simp_all add: sp)
  then have one: "count (party_blocks (?ps ! i)) b = 1" "count (others i \<sigma>) b = 0" by linarith+
  have "b \<notin># party_blocks (?ps ! j)" if "j < length ?ps" "j \<noteq> i" for j
    using one(2) in_sum_list [OF nth_remove_at [OF that], of b party_blocks] unfolding others_def by (metis not_in_iff)
  moreover have "b \<notin> set fs" if "free_list c ?s fs" for fs
  proof -
    from a obtain gs where g: "free_list c ?s gs"
      "\<And>i. i < block_count c \<Longrightarrow> count (mset gs) i + count (idle \<sigma>) i = vacant (refcount ?s i)" by (rule acctE) blast
    have "count (mset gs) b = 0" using g(2) [OF bi(1)] bi(2,3) by simp
    then show ?thesis using free_list_functional [OF that g(1)] by (metis count_mset_0_iff)
  qed
  ultimately show ?thesis using bi one(1) by (auto simp: refs_def)
qed

theorem loans_are_exclusive_witness:
  "\<exists>\<sigma> b. sys_reach demo_config \<sigma> \<and> (\<exists>l. pt_loan (sy_parties \<sigma> ! 0) = ALoan l \<and> ln_block_idx l = b) \<and>
     refcount (sy_shm \<sigma>) b = 0 \<and> b \<notin># ring_blocks demo_config (sy_shm \<sigma>)"
proof -
  obtain \<sigma> l where r: "sys_reach demo_config \<sigma>" and \<sigma>: "length (sy_parties \<sigma>) = 1" "pt_loan (sy_parties \<sigma> ! 0) = ALoan l"
    using demo_loaned by blast
  have "0 < length (sy_parties \<sigma>)" "ln_block_idx l \<in># party_blocks (sy_parties \<sigma> ! 0)"
    using \<sigma> by (simp_all add: party_blocks_def)
  from loans_are_exclusive [OF r this] r \<sigma>(2) show ?thesis by blast
qed

text \<open>
  \<^bold>\<open>C20.\<close> No block is leaked and none is free twice.  In every reachable state the free list is well
  formed, each block of the pool is in exactly one of three places (on the free list, held by one
  publisher, or referenced), and a block's reference count is the number of ring slots and live
  samples that refer to it.
\<close>

theorem blocks_are_conserved:
  assumes "sys_reach c \<sigma>"
  shows "\<exists>fs. free_list c (sy_shm \<sigma>) fs \<and> distinct fs \<and>
    (\<forall>i < block_count c.
       count (mset fs) i + count (idle \<sigma>) i + (if refcount (sy_shm \<sigma>) i = 0 then 0 else 1) = 1 \<and>
       unat (refcount (sy_shm \<sigma>) i) = count (ring_blocks c (sy_shm \<sigma>)) i +
         count (mset (map sm_block_idx (sy_samples \<sigma>))) i + count (mset (sy_typed \<sigma>)) i)"
proof -
  from sysinvD(1) [OF reach_sysinv [OF assms(1)]] obtain fs where f: "free_list c (sy_shm \<sigma>) fs"
    "\<And>i. i < block_count c \<Longrightarrow> count (mset fs) i + count (idle \<sigma>) i = vacant (refcount (sy_shm \<sigma>) i)"
    "\<And>i. i < block_count c \<Longrightarrow> unat (refcount (sy_shm \<sigma>) i) = count (ring_blocks c (sy_shm \<sigma>)) i + count (refs \<sigma>) i"
    by (rule acctE) blast
  have "distinct fs" using f(1) by (simp add: free_list_def)
  moreover have "count (mset fs) i + count (idle \<sigma>) i + (if refcount (sy_shm \<sigma>) i = 0 then 0 else 1) = 1 \<and>
       unat (refcount (sy_shm \<sigma>) i) = count (ring_blocks c (sy_shm \<sigma>)) i +
         count (mset (map sm_block_idx (sy_samples \<sigma>))) i + count (mset (sy_typed \<sigma>)) i" if "i < block_count c" for i
    using f(2,3) [OF that] by (simp add: vacant_def refs_def)
  ultimately show ?thesis using f(1) by blast
qed

theorem blocks_are_conserved_witness:
  "\<exists>\<sigma>. sys_reach demo_config \<sigma> \<and> sy_hist \<sigma> 0 = [Some [1, 2, 3]] \<and> (\<exists>fs. free_list demo_config (sy_shm \<sigma>) fs \<and> distinct fs)"
  using demo_published blocks_are_conserved [of demo_config] by metis

lemma recv_reads:
  assumes "sys_reach c \<sigma>" and "st \<in> set (sy_streams \<sigma>)"
    and "try_recv st (sy_shm \<sigma>) = (res, st', s')" and "hs = sy_hist \<sigma> (st_topic_idx st)"
  shows "case next_unread (unat (ring_depth c)) hs (unat (last_seq st)) of
      None \<Rightarrow> res = None \<and> st' = st \<and> s' = sy_shm \<sigma>
    | Some q \<Rightarrow> unat (last_seq st) < q \<and> q \<le> length hs \<and>
        (\<exists>m. res = Some m \<and> hs ! (q - 1) = Some (sample_bytes s' m)) \<and> st' = st\<lparr>last_seq := of_nat q\<rparr>"
proof -
  note cfg = reach_config [OF assms(1)]
  note inv = reach_sysinv [OF assms(1)]
  have st: "stream_ok c st" by (rule sysinvD(5) [OF inv assms(2)])
  then have g: "same_geometry c (st_config st)" and tm: "st_topic_idx st < max_topics c" by (simp_all add: stream_ok_def)
  note log = try_recv_log [OF inv cfg st, folded assms(4)]
  have dp: "0 < unat (ring_depth c)" using is_power_of_two_pos [of "ring_depth c"] cfg
    by (simp add: config_ok_def word_less_nat_alt)
  show ?thesis
  proof (cases "next_unread (unat (ring_depth c)) hs (unat (last_seq st))")
    case None
    then show ?thesis using log assms(3) by simp
  next
    case (Some q)
    note f = find_first_Some [OF Some [unfolded next_unread_def]]
    note b = window_start_bounds [OF f(2)]
    note r = slot_ready_iff [OF inv cfg tm, folded assms(4), OF b(1,2) b(4) [OF dp]]
    have "slot_ready (st_config st) (st_topic_idx st) (of_nat q) (sy_shm \<sigma>)"
      using r(1) f(1) by (simp add: geometry_congs [OF g])
    then show ?thesis using log assms(3) Some b(2,3) r(2) [OF f(1)]
      by (auto simp: try_read_slot_eq geometry_congs [OF g] Let_def sample_bytes_def)
  qed
qed

text \<open>
  \<^bold>\<open>C21.\<close> Delivery.  In every reachable state \<open>try_recv\<close> on a stream returns exactly the first ring
  publication after the stream's position among the last \<open>ring_depth\<close> sequence numbers of the
  topic, with the bytes that were published, moves the position to it, and returns nothing and
  changes nothing when there is none.  So payloads are delivered in order, unmodified, at most
  once per stream, and are lost only by overwriting (a reader more than a ring behind).
\<close>

theorem try_recv_reads_the_log:
  assumes "sys_reach c \<sigma>" and "st \<in> set (sy_streams \<sigma>)"
    and "try_recv st (sy_shm \<sigma>) = (res, st', s')" and "hs = sy_hist \<sigma> (st_topic_idx st)"
  shows "case next_unread (unat (ring_depth c)) hs (unat (last_seq st)) of
      None \<Rightarrow> res = None \<and> st' = st \<and> s' = sy_shm \<sigma>
    | Some q \<Rightarrow> unat (last_seq st) < q \<and> q \<le> length hs \<and>
        (\<exists>m. res = Some m \<and> hs ! (q - 1) = Some (sample_bytes s' m)) \<and> st' = st\<lparr>last_seq := of_nat q\<rparr>"
  using recv_reads [OF assms] .

theorem try_recv_reads_the_log_witness:
  "\<exists>\<sigma> m st' s'. sys_reach demo_config \<sigma> \<and> try_recv demo_stream (sy_shm \<sigma>) = (Some m, st', s') \<and>
     sample_bytes s' m = [1, 2, 3]"
proof -
  obtain \<sigma> where r: "sys_reach demo_config \<sigma>" "sy_streams \<sigma> = [demo_stream]" "sy_hist \<sigma> 0 = [Some [1, 2, 3]]"
    using demo_published by blast
  obtain res st' s' where t: "try_recv demo_stream (sy_shm \<sigma>) = (res, st', s')" by (metis prod_cases3)
  have nx: "next_unread (unat (ring_depth demo_config)) [Some [1, 2, 3]] (unat (last_seq demo_stream)) = Some 1"
    by (simp add: next_unread_def demo_stream_def window_start_def)
  have "demo_stream \<in> set (sy_streams \<sigma>)" "[Some [1, 2, 3]] = sy_hist \<sigma> (st_topic_idx demo_stream)"
    using r by (simp_all add: demo_stream_def)
  from try_recv_reads_the_log [OF r(1) this(1) t this(2)]
  have "\<exists>m. res = Some m \<and> [Some [1, 2, 3]] ! (1 - 1) = Some (sample_bytes s' m)" unfolding nx option.case by blast
  then obtain m where m: "res = Some m" "sample_bytes s' m = [1, 2, 3]" by auto
  show ?thesis using r(1) t [unfolded m(1)] m(2) by blast
qed

text \<open>
  \<^bold>\<open>C22.\<close> A held sample is immutable.  While a sample (byte or typed) is live, no step of any
  publisher or subscriber changes a byte of its block, so what the reader saw when it received
  the sample is what it sees until it drops it.
\<close>

theorem samples_are_immutable:
  assumes "sys_reach c \<sigma>" and "sys_step c \<sigma> \<sigma>'"
  shows "(\<forall>m \<in> set (sy_samples \<sigma>). sample_bytes (sy_shm \<sigma>') m = sample_bytes (sy_shm \<sigma>) m) \<and>
    (\<forall>b \<in> set (sy_typed \<sigma>). typed_sample_value n (sy_shm \<sigma>') b = typed_sample_value n (sy_shm \<sigma>) b)"
proof -
  note inv = reach_sysinv [OF assms(1)]
  have "bk_data (blocks (sy_shm \<sigma>') b) = bk_data (blocks (sy_shm \<sigma>) b)" if b: "b \<in># refs \<sigma>" for b
  proof (rule step_keeps_data [OF assms(2) inv])
    have "b < block_count c" using sysinvD(1) [OF inv] b by (auto simp: acct_def)
    from acct_ref_positive(3) [OF sysinvD(1) [OF inv] _ index_not_NO_BLOCK [OF this]] b
    show "b \<notin># idle \<sigma>" by simp
  qed
  then show ?thesis by (simp add: refs_def sample_bytes_def typed_sample_value_def)
qed

lemma demo_received:
  "\<exists>\<sigma> m. sys_reach demo_config \<sigma> \<and> sy_samples \<sigma> = [m] \<and> sy_typed \<sigma> = [] \<and> length (sy_streams \<sigma>) = 1 \<and>
     sample_bytes (sy_shm \<sigma>) m = [1, 2, 3]"
proof -
  obtain \<sigma> where r: "sys_reach demo_config \<sigma>" "sy_streams \<sigma> = [demo_stream]" "sy_samples \<sigma> = []" "sy_typed \<sigma> = []"
    "sy_hist \<sigma> 0 = [Some [1, 2, 3]]" using demo_published by blast
  note inv = reach_sysinv [OF r(1)]
  obtain res st' s' where t: "try_recv (sy_streams \<sigma> ! 0) (sy_shm \<sigma>) = (res, st', s')" by (metis prod_cases3)
  have st: "st_config demo_stream = opened_config demo_config" "st_topic_idx demo_stream = 0" "stream_ok demo_config demo_stream"
    by (simp_all add: demo_stream_def stream_ok_def)
  note g = geometry_congs [OF same_geometry_opened [of demo_config]]
  have nx: "next_unread (unat (ring_depth demo_config)) [Some [1, 2, 3]] (unat (last_seq demo_stream)) = Some 1"
    by (simp add: next_unread_def demo_stream_def window_start_def)
  have e: "try_recv demo_stream (sy_shm \<sigma>) = try_read_slot 1 demo_stream (sy_shm \<sigma>)"
    using try_recv_log [OF inv demo_config_ok st(3)] nx r(5) by (simp add: st)
  have one: "1 \<le> (1 :: nat)" "1 \<le> length (sy_hist \<sigma> 0)" "length (sy_hist \<sigma> 0) < 1 + unat (ring_depth demo_config)"
    "0 < max_topics demo_config" using r(5) by simp_all
  note ready = slot_ready_iff [OF inv demo_config_ok one(4,1-3)]
  have "slot_ready demo_config 0 1 (sy_shm \<sigma>)" using ready(1) r(5) by simp
  then obtain m where m: "res = Some m" "sample_bytes s' m = [1, 2, 3]"
    using t e r(2,5) ready(2) by (auto simp: try_read_slot_eq Let_def st g sample_bytes_def)
  have "sys_step demo_config \<sigma> (\<sigma>\<lparr>sy_shm := s', sy_streams := (sy_streams \<sigma>)[0 := st'],
      sy_samples := (case res of Some m \<Rightarrow> m # sy_samples \<sigma> | None \<Rightarrow> sy_samples \<sigma>)\<rparr>)"
    by (rule sys_step.do_recv) (use t r(2-4) in \<open>simp_all add: sample_room_def\<close>)
  note reach = sys_reach.reach_step [OF r(1) this]
  show ?thesis by (rule exI, rule exI [of _ m], rule conjI, rule reach) (use m r(2-4) in simp)
qed

theorem samples_are_immutable_witness:
  "\<exists>\<sigma> \<sigma>' m. sys_reach demo_config \<sigma> \<and> sys_step demo_config \<sigma> \<sigma>' \<and> m \<in> set (sy_samples \<sigma>) \<and>
     sample_bytes (sy_shm \<sigma>') m = [1, 2, 3]"
proof -
  obtain \<sigma> m where r: "sys_reach demo_config \<sigma>" "sy_samples \<sigma> = [m]" "sy_typed \<sigma> = []" "length (sy_streams \<sigma>) = 1"
    "sample_bytes (sy_shm \<sigma>) m = [1, 2, 3]" using demo_received by blast
  obtain res st' s' where t: "try_recv (sy_streams \<sigma> ! 0) (sy_shm \<sigma>) = (res, st', s')" by (metis prod_cases3)
  have "0 < length (sy_streams \<sigma>)" "sample_room \<sigma>" using r(2-4) by (simp_all add: sample_room_def)
  note s = sys_step.do_recv [OF this t, of demo_config]
  from samples_are_immutable [OF r(1) s] r s show ?thesis by (metis list.set_intros(1))
qed

text \<open>
  \<^bold>\<open>C23.\<close> A pool that is large enough never runs dry.  If the pool has more blocks than all ring
  slots, the live samples, the blocks of the other publishers and this publisher's pinned blocks
  together, then a loan on one of its own topics succeeds, whatever happened before.
\<close>

theorem loan_succeeds_in_large_pool:
  assumes "sys_reach c \<sigma>" and "i < length (sy_parties \<sigma>)" and "pt = sy_parties \<sigma> ! i"
    and "pt_loan pt = NoLoan" and "publisher_id h = pub_id (pt_pub pt)"
    and "unat (max_topics c) * unat (ring_depth c) + length (sy_samples \<sigma>) + length (sy_typed \<sigma>) +
      size (others i \<sigma>) + size (pinned (pt_pub pt)) < unat (block_count c)"
  shows "\<exists>l p' s'. Publisher.loan now clk h (pt_pub pt) (sy_shm \<sigma>) = (Inr l, p', s') \<and>
    ln_topic_idx l = topic_idx h \<and> ln_capacity l = unat (data_capacity c) \<and> ln_len l = 0"
proof -
  note inv = reach_sysinv [OF assms(1)]
  note pa = party_acct [OF inv assms(2-4)] and g = sysinv_partyD(5) [OF inv assms(2,3)]
  obtain res p' s' where ln: "Publisher.loan now clk h (pt_pub pt) (sy_shm \<sigma>) = (res, p', s')" by (metis prod_cases3)
  have "\<exists>l. res = Inr l"
    by (rule loan_or_exhausted [OF ln pa assms(5)]) (use assms(6) in \<open>simp add: size_refs same_geometryD [OF g]\<close>)
  then obtain l where "res = Inr l" by blast
  with loan_acct [OF ln pa] ln show ?thesis by (auto simp: loan_wf_def geometry_congs [OF g])
qed

theorem loan_succeeds_in_large_pool_witness:
  "\<exists>\<sigma> l p' s'. sys_reach demo_config \<sigma> \<and>
     Publisher.loan 0 None demo_handle (demo_pub) (sy_shm \<sigma>) = (Inr l, p', s') \<and> ln_topic_idx l = 0"
proof -
  let ?p = demo_pub
  obtain \<sigma> where r: "sys_reach demo_config \<sigma>" and \<sigma>: "sy_parties \<sigma> = [\<lparr>pt_pub = ?p, pt_loan = NoLoan\<rparr>]"
    "sy_samples \<sigma> = []" "sy_typed \<sigma> = []" using demo_subscribed by blast
  have "others 0 \<sigma> = {#}" "pinned ?p = {#}" by (simp_all add: others_def \<sigma> remove_at_def pinned_def new_publisher_def)
  then have "\<exists>l p' s'. Publisher.loan 0 None demo_handle (pt_pub (sy_parties \<sigma> ! 0)) (sy_shm \<sigma>) = (Inr l, p', s') \<and>
      ln_topic_idx l = topic_idx demo_handle \<and> ln_capacity l = unat (data_capacity demo_config) \<and> ln_len l = 0"
    by (intro loan_succeeds_in_large_pool [OF r, of 0]) (simp_all add: \<sigma> demo_handle_def new_publisher_def)
  with r \<sigma>(1) show ?thesis by (auto simp: demo_handle_def)
qed

end
