(* ===== verification/Wait.thy ===== *)
theory Wait
  imports Subscription
begin

text \<open>
  Blocking receives: the wait strategies (\<open>src/wait.rs\<close>), the notification word
  (\<open>src/platform/notify.rs\<close>) and the receive loop \<open>blocking_recv\<close> with its callers
  (\<open>src/platform/subscription.rs\<close>).

  A blocking call runs beside other processes.  They are a \<open>world\<close>: what they do to the shared memory
  before each of the call's accesses, and what the two clocks show there.  Loops that may wait for ever
  take fuel; \<open>None\<close> means that the call is still waiting when it is used up.

  The lemmas of locale \<open>polling\<close> hold for every non-blocking receive that leaves everything alone when
  it fails; the three receives of the crate are its interpretations.  A blocking receive returns once a
  message stays available, and in the default strategy once the publisher stays silent.  The spinning
  strategies stop looking at the heartbeat after \<open>2^32\<close> rounds.
\<close>

section \<open>Wait strategies\<close>

datatype wait_strategy = BusySpin | YieldSpin | BackoffSpin | Adaptive u32 u32

definition wait_strategy_default :: wait_strategy where
  "wait_strategy_default = Adaptive 100 10"

text \<open>One wait iteration, as the number of processor yield hints it issues.\<close>

fun wait :: "wait_strategy \<Rightarrow> u32 \<Rightarrow> u32" where
  "wait BusySpin iter = 0"
| "wait YieldSpin iter = 1"
| "wait BackoffSpin iter = push_bit (unat (min iter 6)) 1"
| "wait (Adaptive spin_iters yield_iters) iter =
     (if iter < spin_iters then 0
      else if iter < saturating_add spin_iters yield_iters then 1
      else 0)"

lemma wait_bounded: "wait strategy iter \<le> 64"
proof (cases strategy)
  case BackoffSpin
  have "unat (min iter 6) \<le> 6" by (simp add: min_def word_le_nat_alt)
  then have "unat (min iter 6) \<in> {0, 1, 2, 3, 4, 5, 6}" by auto
  with BackoffSpin show ?thesis by (auto simp: word_le_nat_alt)
qed simp_all

section \<open>Waiting for a word to change\<close>

record world =
  w_env :: "nat \<Rightarrow> shm \<Rightarrow> shm"
  w_clock :: "nat \<Rightarrow> clock"
  w_now :: "nat \<Rightarrow> duration"

text \<open>A bounded number of loads, each preceded by the other processes' work.\<close>

fun wait_spin :: "world \<Rightarrow> (shm \<Rightarrow> u32) \<Rightarrow> u32 \<Rightarrow> nat \<Rightarrow> nat \<Rightarrow> shm \<Rightarrow> u32 option \<times> nat \<times> shm" where
  "wait_spin w addr current 0 k s = (None, k, s)"
| "wait_spin w addr current (Suc n) k s =
     (let s = w_env w k s; val = addr s in
      if val \<noteq> current then (Some val, Suc k, s) else wait_spin w addr current n (Suc k) s)"

text \<open>
  The parking loop.  \<open>futex_wait\<close> writes nothing and may return at any time, so it is the passing of a
  moment; the time it may take at most only shows in the clock.
\<close>

fun wait_park :: "nat \<Rightarrow> world \<Rightarrow> (shm \<Rightarrow> u32) \<Rightarrow> u32 \<Rightarrow> duration \<Rightarrow> nat \<Rightarrow> shm \<Rightarrow> ((unit + u32) \<times> nat \<times> shm) option" where
  "wait_park 0 w addr current deadline k s = None"
| "wait_park (Suc fuel) w addr current deadline k s =
     (let s = w_env w k s; val = addr s in
      if val \<noteq> current then Some (Inr val, Suc k, s)
      else if w_now w k \<ge> deadline then Some (Inl (), Suc k, s)
      else wait_park fuel w addr current deadline (Suc k) s)"

definition SPIN_ITERS :: nat where "SPIN_ITERS = 100"
definition YIELD_ITERS :: nat where "YIELD_ITERS = 10"

definition wait_until_not ::
    "nat \<Rightarrow> world \<Rightarrow> (shm \<Rightarrow> u32) \<Rightarrow> u32 \<Rightarrow> duration \<Rightarrow> bool \<Rightarrow> nat \<Rightarrow> shm \<Rightarrow> ((unit + u32) \<times> nat \<times> shm) option" where
  "wait_until_not fuel w addr current timeout skip_spin k s =
     (case (if skip_spin then (None, k, s)
            else case wait_spin w addr current SPIN_ITERS k s of
                   (Some val, k, s) \<Rightarrow> (Some val, k, s)
                 | (None, k, s) \<Rightarrow> wait_spin w addr current YIELD_ITERS k s) of
        (Some val, k, s) \<Rightarrow> Some (Inr val, k, s)
      | (None, k, s) \<Rightarrow> wait_park fuel w addr current (w_now w k + timeout) k s)"

section \<open>Parking on each platform\<close>

text \<open>Linux: the \<open>timespec\<close> handed to the system call.\<close>

definition timespec :: "duration \<Rightarrow> nat \<times> nat" where
  "timespec d = (d div 1000000000, d mod 1000000000)"

text \<open>Other Unix systems on aarch64: a loop of \<open>wfe\<close> instructions with growing pauses; the last component is the pause.\<close>

fun futex_wait_wfe ::
    "nat \<Rightarrow> world \<Rightarrow> (shm \<Rightarrow> u32) \<Rightarrow> u32 \<Rightarrow> duration option \<Rightarrow> u32 \<Rightarrow> nat \<Rightarrow> shm \<Rightarrow> (nat \<times> shm \<times> u32) option" where
  "futex_wait_wfe 0 w addr expected deadline backoff k s = None"
| "futex_wait_wfe (Suc fuel) w addr expected deadline backoff k s =
     (let s = w_env w k s; val = addr s in
      if val \<noteq> expected then Some (Suc k, s, backoff)
      else if (case deadline of Some dl \<Rightarrow> w_now w k \<ge> dl | None \<Rightarrow> False) then Some (Suc k, s, backoff)
      else futex_wait_wfe fuel w addr expected deadline (min (backoff * 2) 64) (Suc k) s)"

text \<open>Other Unix systems on x86 sleep, at most a millisecond.\<close>

definition fallback_sleep :: "duration option \<Rightarrow> duration" where
  "fallback_sleep timeout = (case timeout of Some d \<Rightarrow> min d (from_millis 1) | None \<Rightarrow> from_millis 1)"

text \<open>Windows: the milliseconds passed to \<open>WaitOnAddress\<close>, \<open>None\<close> when it is not called.\<close>

definition wait_on_address_ms :: "duration option \<Rightarrow> u32 option" where
  "wait_on_address_ms timeout =
     (let timeout_ms = (case timeout of Some d \<Rightarrow> of_nat (as_millis d) | None \<Rightarrow> - 1)
      in if timeout_ms = 0 then None else Some timeout_ms)"

lemma timespec_exact: "fst (timespec d) * 1000000000 + snd (timespec d) = d" "snd (timespec d) < 1000000000"
  by (simp_all add: timespec_def)

text \<open>The chunks of \<open>wait_until_not\<close> are at most ten milliseconds, so no platform waits longer or for ever.\<close>

lemma chunk_bounded:
  assumes "chunk \<le> from_millis 10"
  shows "fst (timespec chunk) = 0" "fallback_sleep (Some chunk) \<le> from_millis 1" "wait_on_address_ms (Some chunk) = Some n \<Longrightarrow> n \<le> 10"
proof -
  show "fst (timespec chunk) = 0" using assms by (simp add: timespec_def from_millis_def)
  show "fallback_sleep (Some chunk) \<le> from_millis 1" by (simp add: fallback_sleep_def)
  have "as_millis chunk \<le> 10" using div_le_mono [OF assms, of 1000000] by (simp add: as_millis_def from_millis_def)
  moreover assume "wait_on_address_ms (Some chunk) = Some n"
  ultimately show "n \<le> 10" by (auto simp: wait_on_address_ms_def word_le_nat_alt unat_of_nat Let_def split: if_splits)
qed

lemma wfe_backoff:
  "futex_wait_wfe fuel w addr expected deadline backoff k s = Some (j, s', b) \<Longrightarrow> backoff \<le> 64 \<Longrightarrow> b \<le> 64"
  by (induction fuel arbitrary: backoff k s) (auto simp: Let_def split: if_splits)

section \<open>The blocking receive loop\<close>

type_synonym 'a try_fn = "stream \<Rightarrow> shm \<Rightarrow> 'a option \<times> stream \<times> shm"

text \<open>The low half of the topic's \<open>write_seq\<close>, which serves as the futex word.\<close>

definition seq_futex :: "stream \<Rightarrow> shm \<Rightarrow> u32" where
  "seq_futex st s = as_u32 (te_write_seq (topics s (st_topic_idx st)))"

definition poll_ms :: "config \<Rightarrow> nat" where
  "poll_ms c = min (max (as_millis (stale_timeout c) mod 2 ^ 64 div 3) 1) 50"

definition add_waiters :: "u32 \<Rightarrow> stream \<Rightarrow> shm \<Rightarrow> shm" where
  "add_waiters d st s = upd_topic (st_topic_idx st) (\<lambda>e. e\<lparr>te_waiters := te_waiters e + d\<rparr>) s"

definition os_sleeps :: "wait_strategy \<Rightarrow> u32 \<Rightarrow> bool" where
  "os_sleeps strategy iter =
     (case strategy of
        Adaptive spin_iters yield_iters \<Rightarrow> iter \<ge> saturating_add spin_iters yield_iters
      | _ \<Rightarrow> False)"

text \<open>
  The body of the loop either returns or goes round again.  The wait hints of a spinning pass touch no
  memory.
\<close>

datatype 'a pass = Return "'a result \<times> nat \<times> stream \<times> shm" | Again u32 nat stream shm

definition recv_pass ::
    "nat \<Rightarrow> world \<Rightarrow> wait_strategy \<Rightarrow> 'a try_fn \<Rightarrow> u32 \<Rightarrow> nat \<Rightarrow> stream \<Rightarrow> shm \<Rightarrow> 'a pass option" where
  "recv_pass fuel w strategy try_fn iter k st s =
     (case try_fn st (w_env w k s) of
        (Some g, st, s) \<Rightarrow> Some (Return (Inr g, k + 1, st, s))
      | (None, st, s) \<Rightarrow>
          if os_sleeps strategy iter then
            let s = w_env w (k + 1) s; cur = seq_futex st s in
            (case try_fn st (w_env w (k + 2) s) of
               (Some g, st, s) \<Rightarrow> Some (Return (Inr g, k + 3, st, s))
             | (None, st, s) \<Rightarrow>
                 let s = add_waiters 1 st (w_env w (k + 3) s) in
                 (case wait_until_not fuel w (seq_futex st) cur (from_millis (poll_ms (st_config st))) True (k + 4) s of
                    None \<Rightarrow> None
                  | Some (res, k, s) \<Rightarrow>
                      let s = add_waiters (- 1) st (w_env w k s) in
                      (case res of
                         Inr _ \<Rightarrow> Some (Again iter (k + 1) st s)
                       | Inl _ \<Rightarrow>
                           let s = w_env w (k + 1) s in
                           (case check_heartbeat (st_config st) (w_clock w (k + 1)) s of
                              Inl e \<Rightarrow> Some (Return (Inl e, k + 2, st, s))
                            | Inr _ \<Rightarrow> Some (Again iter (k + 2) st s)))))
          else
            let iter = saturating_add iter 1 in
            if iter mod 1024 = 0 then
              let s = w_env w (k + 1) s in
              (case check_heartbeat (st_config st) (w_clock w (k + 1)) s of
                 Inl e \<Rightarrow> Some (Return (Inl e, k + 2, st, s))
               | Inr _ \<Rightarrow> Some (Again iter (k + 2) st s))
            else Some (Again iter (k + 1) st s))"

fun recv_loop ::
    "nat \<Rightarrow> world \<Rightarrow> wait_strategy \<Rightarrow> 'a try_fn \<Rightarrow> u32 \<Rightarrow> nat \<Rightarrow> stream \<Rightarrow> shm \<Rightarrow>
     ('a result \<times> nat \<times> stream \<times> shm) option" where
  "recv_loop 0 w strategy try_fn iter k st s = None"
| "recv_loop (Suc fuel) w strategy try_fn iter k st s =
     (case recv_pass fuel w strategy try_fn iter k st s of
        None \<Rightarrow> None
      | Some (Return r) \<Rightarrow> Some r
      | Some (Again iter k st s) \<Rightarrow> recv_loop fuel w strategy try_fn iter k st s)"

definition blocking_recv ::
    "nat \<Rightarrow> world \<Rightarrow> wait_strategy \<Rightarrow> 'a try_fn \<Rightarrow> stream \<Rightarrow> shm \<Rightarrow> ('a result \<times> nat \<times> stream \<times> shm) option" where
  "blocking_recv fuel w strategy try_fn st s =
     (case try_fn st (w_env w 0 s) of
        (Some g, st, s) \<Rightarrow> Some (Inr g, 1, st, s)
      | (None, st, s) \<Rightarrow> recv_loop fuel w strategy try_fn 0 1 st s)"

definition recv_with ::
    "nat \<Rightarrow> world \<Rightarrow> wait_strategy \<Rightarrow> stream \<Rightarrow> shm \<Rightarrow> (sample result \<times> nat \<times> stream \<times> shm) option" where
  "recv_with fuel w strategy st s = blocking_recv fuel w strategy try_recv st s"

definition recv :: "nat \<Rightarrow> world \<Rightarrow> stream \<Rightarrow> shm \<Rightarrow> (sample result \<times> nat \<times> stream \<times> shm) option" where
  "recv fuel w st s = recv_with fuel w wait_strategy_default st s"

definition recv_typed_with ::
    "nat \<Rightarrow> nat \<Rightarrow> world \<Rightarrow> wait_strategy \<Rightarrow> stream \<Rightarrow> shm \<Rightarrow> (u32 result \<times> nat \<times> stream \<times> shm) option" where
  "recv_typed_with size_of_T fuel w strategy st s = blocking_recv fuel w strategy (try_recv_typed size_of_T) st s"

definition recv_typed :: "nat \<Rightarrow> nat \<Rightarrow> world \<Rightarrow> stream \<Rightarrow> shm \<Rightarrow> (u32 result \<times> nat \<times> stream \<times> shm) option" where
  "recv_typed size_of_T fuel w st s = recv_typed_with size_of_T fuel w wait_strategy_default st s"

definition recv_pinned_with ::
    "nat \<Rightarrow> world \<Rightarrow> wait_strategy \<Rightarrow> stream \<Rightarrow> shm \<Rightarrow> (pinned_guard result \<times> nat \<times> stream \<times> shm) option" where
  "recv_pinned_with fuel w strategy st s = blocking_recv fuel w strategy try_recv_pinned st s"

definition recv_pinned :: "nat \<Rightarrow> world \<Rightarrow> stream \<Rightarrow> shm \<Rightarrow> (pinned_guard result \<times> nat \<times> stream \<times> shm) option" where
  "recv_pinned fuel w st s = recv_pinned_with fuel w wait_strategy_default st s"

section \<open>The waits return\<close>

lemma wait_park_mono: "wait_park fuel w addr cur d k s = Some r \<Longrightarrow> fuel \<le> fuel' \<Longrightarrow> wait_park fuel' w addr cur d k s = Some r"
proof (induction fuel arbitrary: fuel' k s)
  case (Suc fuel)
  then obtain f where "fuel' = Suc f" "fuel \<le> f" by (cases fuel') simp_all
  with Suc show ?case by (auto simp: Let_def split: if_splits)
qed simp

lemma wait_park_returns:
  assumes "d \<le> w_now w m"
  shows "\<exists>fuel v j s'. wait_park fuel w addr cur d k s = Some (v, j, s') \<or> m < k"
  using assms
proof (induction "m - k" arbitrary: k s)
  case 0
  show ?case
  proof (cases "m < k")
    case False
    with 0 have "wait_park 1 w addr cur d k s \<noteq> None" by (simp add: Let_def)
    then show ?thesis by (metis not_None_eq prod_cases3)
  qed simp
next
  case (Suc x)
  show ?case
  proof (cases "addr (w_env w k s) \<noteq> cur \<or> w_now w k \<ge> d")
    case True
    then have "wait_park 1 w addr cur d k s \<noteq> None" by (auto simp: Let_def)
    then show ?thesis by (metis not_None_eq prod_cases3)
  next
    case False
    have "x = m - Suc k" "\<not> m < Suc k" using Suc.hyps(2) by simp_all
    with Suc.hyps(1) [OF this(1) Suc.prems, of "w_env w k s"] obtain fuel v j s' where
      "wait_park fuel w addr cur d (Suc k) (w_env w k s) = Some (v, j, s')" by blast
    with False have "wait_park (Suc fuel) w addr cur d k s = Some (v, j, s')" by (simp add: Let_def)
    then show ?thesis by blast
  qed
qed

lemma wait_park_sound:
  "wait_park fuel w addr cur d k s = Some (v, j, s') \<Longrightarrow>
     k < j \<and> (case v of Inr x \<Rightarrow> x \<noteq> cur \<and> addr s' = x | Inl _ \<Rightarrow> addr s' = cur \<and> d \<le> w_now w (j - 1))"
  by (induction fuel arbitrary: k s) (fastforce simp: Let_def split: if_splits)+

text \<open>While nobody changes the word, the wait can only time out.\<close>

lemma wait_park_silent:
  assumes "\<And>k s. T \<le> k \<Longrightarrow> addr (w_env w k s) = addr s"
  shows "wait_park fuel w addr cur d k s = Some (v, j, s') \<Longrightarrow> T \<le> k \<Longrightarrow> addr s = cur \<Longrightarrow> v = Inl ()"
  by (induction fuel arbitrary: k s) (auto simp: Let_def assms split: if_splits)

text \<open>The time of the monotonic clock grows beyond every bound.\<close>

definition time_passes :: "world \<Rightarrow> bool" where
  "time_passes w \<longleftrightarrow> (\<forall>n. \<exists>m. \<forall>k \<ge> m. n \<le> w_now w k)"

lemma time_passesD: "time_passes w \<Longrightarrow> \<exists>m \<ge> k. d \<le> w_now w m"
  unfolding time_passes_def by (meson max.cobounded1 max.cobounded2)

lemma wait_returns:
  assumes "time_passes w"
  shows "\<exists>fuel v j s'. wait_until_not fuel w addr cur d True k s = Some (v, j, s')"
proof -
  obtain m where "m \<ge> k" "w_now w k + d \<le> w_now w m" using time_passesD [OF assms] by blast
  with wait_park_returns [of "w_now w k + d" w m addr cur k s] show ?thesis
    by (auto simp: wait_until_not_def)
qed

lemma wait_mono:
  "wait_until_not fuel w addr cur d skip k s = Some r \<Longrightarrow> fuel \<le> fuel' \<Longrightarrow> wait_until_not fuel' w addr cur d skip k s = Some r"
  by (auto simp: wait_until_not_def split: prod.splits option.splits elim: wait_park_mono)

lemma wait_skip: "wait_until_not fuel w addr cur d True k s = wait_park fuel w addr cur (w_now w k + d) k s"
  by (simp add: wait_until_not_def)

lemma saturating_add_nat: "unat (saturating_add a b) = min (unat a + unat b) (2 ^ 32 - 1)"
  by (auto simp: saturating_add_def unat_word_ariths unsigned_minus_1_eq_mask mask_eq_exp_minus_1)

lemma add_waiters_futex: "seq_futex st (add_waiters d st s) = seq_futex st s"
  by (simp add: seq_futex_def add_waiters_def)

section \<open>Receives that poll\<close>

text \<open>
  What a blocking receive needs of the non-blocking one: a predicate that says when it succeeds, and that
  it leaves stream and memory alone when it fails.
\<close>

locale polling =
  fixes try_fn :: "stream \<Rightarrow> shm \<Rightarrow> 'a option \<times> stream \<times> shm" and ready :: "stream \<Rightarrow> shm \<Rightarrow> bool"
  assumes not_ready: "\<not> ready st s \<Longrightarrow> try_fn st s = (None, st, s)"
    and is_ready: "ready st s \<Longrightarrow> \<exists>g st' s'. try_fn st s = (Some g, st', s')"
begin

lemma try_cases:
  obtains (fail) "\<not> ready st s" "try_fn st s = (None, st, s)"
  | (got) g st' s' where "ready st s" "try_fn st s = (Some g, st', s')"
  using not_ready is_ready by (cases "ready st s") blast+

lemma pass_mono:
  assumes "recv_pass fuel w strategy try_fn iter k st s = Some x" "fuel \<le> fuel'"
  shows "recv_pass fuel' w strategy try_fn iter k st s = Some x"
  using assms(1) wait_mono [OF _ assms(2)]
  by (force simp: recv_pass_def Let_def split: prod.splits option.splits if_splits)

lemma loop_mono:
  "recv_loop fuel w strategy try_fn iter k st s = Some r \<Longrightarrow> fuel \<le> fuel' \<Longrightarrow> recv_loop fuel' w strategy try_fn iter k st s = Some r"
proof (induction fuel arbitrary: fuel' iter k st s)
  case (Suc fuel)
  then obtain f where f: "fuel' = Suc f" "fuel \<le> f" by (cases fuel') simp_all
  show ?case
  proof (cases "recv_pass fuel w strategy try_fn iter k st s")
    case (Some x)
    with Suc f show ?thesis by (cases x) (simp_all add: pass_mono [OF Some f(2)])
  qed (use Suc.prems in simp)
qed simp

lemma pass_returns:
  assumes "time_passes w"
  shows "\<exists>fuel x. recv_pass fuel w strategy try_fn iter k st s = Some x"
proof (cases st "w_env w k s" rule: try_cases)
  case fail
  show ?thesis
  proof (cases "os_sleeps strategy iter")
    case True
    define u where "u = w_env w (k + 1) (w_env w k s)"
    define v where "v = w_env w (k + 2) u"
    show ?thesis
    proof (cases st v rule: try_cases)
      case fail
      obtain fuel x j s' where "wait_until_not fuel w (seq_futex st) (seq_futex st u) (from_millis (poll_ms (st_config st))) True (k + 4)
          (add_waiters 1 st (w_env w (k + 3) v)) = Some (x, j, s')" using wait_returns [OF assms] by blast
      then have "recv_pass fuel w strategy try_fn iter k st s \<noteq> None"
        using True \<open>try_fn st (w_env w k s) = _\<close> fail
        by (auto simp: recv_pass_def Let_def u_def v_def split: sum.splits)
      then show ?thesis by blast
    qed (use True \<open>try_fn st (w_env w k s) = _\<close> in \<open>simp add: recv_pass_def Let_def u_def v_def\<close>)
  qed (auto simp: recv_pass_def Let_def fail split: sum.splits)
qed (simp add: recv_pass_def)

text \<open>What a pass can do.\<close>

lemma pass_sound:
  assumes "recv_pass fuel w strategy try_fn iter k st s = Some x"
  shows "case x of
      Return (Inr g, j, st', s') \<Rightarrow> \<exists>i u. k \<le> i \<and> i < j \<and> try_fn st (w_env w i u) = (Some g, st', s')
    | Return (Inl e, j, st', s') \<Rightarrow> st' = st \<and> (\<exists>i u. k \<le> i \<and> i < j \<and> s' = w_env w i u \<and> check_heartbeat (st_config st) (w_clock w i) s' = Inl e)
    | Again iter' j st' s' \<Rightarrow> st' = st \<and> k < j \<and> iter' = (if os_sleeps strategy iter then iter else saturating_add iter 1) \<and>
        \<not> ready st (w_env w k s)"
proof (cases st "w_env w k s" rule: try_cases)
  case (got g st' s')
  with assms show ?thesis by (auto simp: recv_pass_def intro!: exI [of _ k])
next
  case fail
  define u where "u = w_env w (k + 1) (w_env w k s)"
  define v where "v = w_env w (k + 2) u"
  show ?thesis
  proof (cases "os_sleeps strategy iter")
    case False
    with assms fail show ?thesis
      by (auto simp: recv_pass_def Let_def intro!: exI [of _ "Suc k"] exI [of _ "w_env w k s"] split: if_splits sum.splits)
  next
    case True
    note os = True
    show ?thesis
    proof (cases st v rule: try_cases)
      case (got g st' s')
      with assms os fail show ?thesis by (auto simp: recv_pass_def Let_def u_def v_def intro!: exI [of _ "k + 2"] exI [of _ u])
    next
      case f: fail
      with assms os fail obtain res j s' where wt: "wait_until_not fuel w (seq_futex st) (seq_futex st u) (from_millis (poll_ms (st_config st))) True (k + 4)
          (add_waiters 1 st (w_env w (k + 3) v)) = Some (res, j, s')"
        by (auto simp: recv_pass_def Let_def u_def v_def split: option.splits)
      then have "k + 4 < j" using wait_park_sound by (fastforce simp: wait_skip)
      with assms os fail f wt show ?thesis
        by (auto simp: recv_pass_def Let_def u_def v_def split: sum.splits intro!: exI [of _ "Suc j"])
    qed
  qed
qed

lemma loop_sound:
  "recv_loop fuel w strategy try_fn iter k st s = Some (res, j, st', s') \<Longrightarrow>
     (case res of
        Inr g \<Rightarrow> \<exists>i u. try_fn st (w_env w i u) = (Some g, st', s')
      | Inl e \<Rightarrow> st' = st \<and> (\<exists>i u. s' = w_env w i u \<and> check_heartbeat (st_config st) (w_clock w i) s' = Inl e))"
proof (induction fuel arbitrary: iter k s)
  case (Suc fuel)
  then obtain x where x: "recv_pass fuel w strategy try_fn iter k st s = Some x" by (auto split: option.splits)
  note ps = pass_sound [OF x]
  show ?case
  proof (cases x)
    case (Return r)
    with Suc.prems x ps show ?thesis by (auto split: sum.splits)
  next
    case (Again a b d e)
    with Suc x ps show ?thesis by simp
  qed
qed simp

text \<open>A pass that goes round again adds nothing to the fuel needed but its own.\<close>

lemma loop_again:
  assumes "recv_pass fuel w strategy try_fn iter k st s = Some (Again iter' k' st' s')"
    and "\<exists>fuel r. recv_loop fuel w strategy try_fn iter' k' st' s' = Some r"
  shows "\<exists>fuel r. recv_loop fuel w strategy try_fn iter k st s = Some r"
proof -
  from assms(2) obtain f r where "recv_loop f w strategy try_fn iter' k' st' s' = Some r" by blast
  then have "recv_loop (Suc (max fuel f)) w strategy try_fn iter k st s = Some r"
    using pass_mono [OF assms(1), of "max fuel f"] loop_mono [of f _ _ _ _ _ _ _ "max fuel f"] by simp
  then show ?thesis by blast
qed

lemma loop_return:
  "recv_pass fuel w strategy try_fn iter k st s = Some (Return r) \<Longrightarrow> \<exists>fuel r. recv_loop fuel w strategy try_fn iter k st s = Some r"
  by (metis option.simps(5) pass.simps(5) recv_loop.simps(2))

text \<open>The loop ends once a message stays available.\<close>

lemma loop_gets:
  assumes "time_passes w" "\<And>k s. T \<le> k \<Longrightarrow> ready st (w_env w k s)"
  shows "\<exists>fuel r. recv_loop fuel w strategy try_fn iter k st s = Some r"
proof (induction "T - k" arbitrary: iter k s rule: less_induct)
  case less
  obtain fuel x where x: "recv_pass fuel w strategy try_fn iter k st s = Some x" using pass_returns [OF assms(1)] by blast
  show ?case
  proof (cases x)
    case (Return r)
    with x show ?thesis using loop_return by blast
  next
    case (Again iter' j st' s')
    with pass_sound [OF x] have j: "st' = st" "k < j" "\<not> ready st (w_env w k s)" by simp_all
    with assms(2) [of k s] have "k < T" by (meson not_less)
    with j have "T - j < T - k" by simp
    from loop_again [OF x [unfolded Again j(1)] less [OF this]] show ?thesis .
  qed
qed

text \<open>A pass that goes to sleep does not go round again when the publishers have stopped.\<close>

lemma pass_silent:
  assumes os: "os_sleeps strategy iter" and "T \<le> k"
    and dead: "\<And>k s. T \<le> k \<Longrightarrow> check_heartbeat (st_config st) (w_clock w k) (w_env w k s) \<noteq> Inr ()"
    and silent: "\<And>k s. T \<le> k \<Longrightarrow> seq_futex st (w_env w k s) = seq_futex st s"
  shows "recv_pass fuel w strategy try_fn iter k st s \<noteq> Some (Again iter' j st' s')"
proof
  assume ag: "recv_pass fuel w strategy try_fn iter k st s = Some (Again iter' j st' s')"
  then have f1: "try_fn st (w_env w k s) = (None, st, w_env w k s)"
    by (cases st "w_env w k s" rule: try_cases) (simp_all add: recv_pass_def)
  define u where "u = w_env w (k + 1) (w_env w k s)"
  define v where "v = w_env w (k + 2) u"
  have f2: "try_fn st v = (None, st, v)"
    using ag os f1 by (cases st v rule: try_cases) (simp_all add: recv_pass_def u_def v_def)
  define x where "x = add_waiters 1 st (w_env w (k + 3) v)"
  have x: "seq_futex st x = seq_futex st u" using assms(2) by (simp add: x_def v_def add_waiters_futex silent)
  from ag os f1 f2 obtain res i y where wt: "wait_until_not fuel w (seq_futex st) (seq_futex st u)
      (from_millis (poll_ms (st_config st))) True (k + 4) x = Some (res, i, y)"
    by (auto simp: recv_pass_def Let_def u_def v_def x_def split: option.splits)
  have "res = Inl ()"
    using wait_park_silent [where T = T, OF silent wt [unfolded wait_skip] _ x] assms(2) by simp
  moreover have "k + 4 < i" using wait_park_sound [OF wt [unfolded wait_skip]] by simp
  ultimately show False using ag os f1 f2 wt dead [of "i + 1"] assms(2)
    by (auto simp: recv_pass_def Let_def u_def v_def x_def split: sum.splits)
qed

lemma loop_dies:
  assumes "time_passes w" "strategy = Adaptive a b"
    and dead: "\<And>k s. T \<le> k \<Longrightarrow> check_heartbeat (st_config st) (w_clock w k) (w_env w k s) \<noteq> Inr ()"
    and silent: "\<And>k s. T \<le> k \<Longrightarrow> seq_futex st (w_env w k s) = seq_futex st s"
  shows "\<exists>fuel r. recv_loop fuel w strategy try_fn iter k st s = Some r"
proof (induction "(T - k) + (unat (saturating_add a b) - unat iter)" arbitrary: iter k s rule: less_induct)
  case less
  obtain fuel x where x: "recv_pass fuel w strategy try_fn iter k st s = Some x" using pass_returns [OF assms(1)] by blast
  show ?case
  proof (cases x)
    case (Return r)
    with x show ?thesis using loop_return by blast
  next
    case (Again iter' j st' s')
    with pass_sound [OF x] have j: "st' = st" "k < j" "iter' = (if os_sleeps strategy iter then iter else saturating_add iter 1)" by simp_all
    have "(T - j) + (unat (saturating_add a b) - unat iter') < (T - k) + (unat (saturating_add a b) - unat iter)"
    proof (cases "os_sleeps strategy iter")
      case True
      then have "\<not> T \<le> k" using pass_silent [where T = T, OF True _ dead silent] x Again by blast
      with True j(2,3) show ?thesis by simp
    next
      case False
      then have "unat iter < unat (saturating_add a b)"
        by (simp add: os_sleeps_def assms(2) word_le_nat_alt)
      moreover from this have "unat iter' = Suc (unat iter)" using False j(3) by (simp add: saturating_add_nat)
      ultimately show ?thesis using j(2) by linarith
    qed
    from loop_again [OF x [unfolded Again j(1)] less [OF this]] show ?thesis .
  qed
qed

text \<open>A spinning receive looks at the heartbeat only while its round counter has room.\<close>

lemma loop_spins:
  assumes spin: "\<And>i. \<not> os_sleeps strategy i" and none: "\<And>k s. \<not> ready st (w_env w k s)"
    and live: "\<And>k s. k < 2 ^ 33 \<Longrightarrow> check_heartbeat (st_config st) (w_clock w k) (w_env w k s) = Inr ()"
  shows "k \<le> 2 * unat iter + 1 \<or> iter = - 1 \<Longrightarrow> recv_loop fuel w strategy try_fn iter k st s = None"
proof (induction fuel arbitrary: iter k s)
  case (Suc fuel)
  define n where "n = saturating_add iter 1"
  have try_none: "try_fn st (w_env w k s) = (None, st, w_env w k s)" by (rule not_ready [OF none])
  show ?case
  proof (cases "iter = - 1")
    case True
    then have "n = - 1" by (simp add: n_def saturating_add_def unsigned_minus_1_eq_mask mask_eq_exp_minus_1)
    then show ?thesis using Suc.IH [of "k + 1" n] try_none by (simp add: recv_pass_def spin n_def [symmetric] Let_def)
  next
    case False
    then have "unat iter \<noteq> unat (- 1 :: u32)" by (simp only: word_unat_eq_iff not_False_eq_True)
    then have "unat iter < 2 ^ 32 - 1"
      using unsigned_less [of iter, where ?'a = nat] by (simp add: unsigned_minus_1_eq_mask mask_eq_exp_minus_1)
    then have k: "unat n = unat iter + 1" "k + 1 < 2 ^ 33" using False Suc.prems by (simp_all add: n_def saturating_add_nat)
    then have "k + 2 \<le> 2 * unat n + 1" using False Suc.prems by simp
    with Suc.IH [of "k + 1" n] Suc.IH [of "k + 2" n] try_none live [of "k + 1"] k(2) show ?thesis
      by (simp add: recv_pass_def spin n_def [symmetric] Let_def)
  qed
qed simp

end

section \<open>The receives of the crate\<close>

definition recv_ready :: "stream \<Rightarrow> shm \<Rightarrow> bool" where
  "recv_ready st s \<longleftrightarrow>
     (let current_seq = te_write_seq (topics s (st_topic_idx st)) in
      last_seq st < current_seq \<and>
      list_ex (\<lambda>q. slot_ready (st_config st) (st_topic_idx st) q s) (seq_range (scan_start st current_seq) current_seq))"

definition typed_ready :: "nat \<Rightarrow> stream \<Rightarrow> shm \<Rightarrow> bool" where
  "typed_ready size_of_T st s \<longleftrightarrow> (type_size st = 0 \<or> unat (type_size st) = size_of_T) \<and> recv_ready st s"

definition pinned_ready :: "stream \<Rightarrow> shm \<Rightarrow> bool" where
  "pinned_ready st s \<longleftrightarrow>
     (let e = topics s (st_topic_idx st) in
      te_pinned_seq e \<noteq> 0 \<and> last_seq st < drop_bit 32 (te_pinned_seq e) \<and> te_pinned_block e \<noteq> NO_BLOCK \<and>
      te_pinned_block e < block_count (st_config st) \<and> te_pinned_readers e \<noteq> PINNED_WRITER_ACTIVE)"

lemma find_list_ex: "find P xs = None \<longleftrightarrow> \<not> list_ex P xs"
  by (induction xs) auto

interpretation sr: polling try_recv recv_ready
proof
  fix st s
  assume "\<not> recv_ready st s"
  then show "try_recv st s = (None, st, s)"
    by (auto simp: recv_ready_def try_recv_def Let_def not_less scan_eq find_list_ex [symmetric])
next
  fix st s
  assume "recv_ready st s"
  then obtain q where "\<not> te_write_seq (topics s (st_topic_idx st)) \<le> last_seq st"
    "find (\<lambda>q. slot_ready (st_config st) (st_topic_idx st) q s)
      (seq_range (scan_start st (te_write_seq (topics s (st_topic_idx st)))) (te_write_seq (topics s (st_topic_idx st)))) = Some q"
    using find_list_ex by (fastforce simp: recv_ready_def Let_def)
  with find_first_Some(1) [OF this(2)] show "\<exists>g st' s'. try_recv st s = (Some g, st', s')"
    by (simp add: try_recv_def scan_eq try_read_slot_eq Let_def)
qed

interpretation tr: polling "try_recv_typed n" "typed_ready n"
proof
  fix st s
  assume "\<not> typed_ready n st s"
  then show "try_recv_typed n st s = (None, st, s)"
    by (auto simp: typed_ready_def recv_ready_def try_recv_typed_def Let_def not_less scan_typed_eq find_list_ex [symmetric])
next
  fix st s
  assume r: "typed_ready n st s"
  then obtain q where "\<not> te_write_seq (topics s (st_topic_idx st)) \<le> last_seq st"
    "find (\<lambda>q. slot_ready (st_config st) (st_topic_idx st) q s)
      (seq_range (scan_start st (te_write_seq (topics s (st_topic_idx st)))) (te_write_seq (topics s (st_topic_idx st)))) = Some q"
    using find_list_ex by (fastforce simp: typed_ready_def recv_ready_def Let_def)
  with r show "\<exists>g st' s'. try_recv_typed n st s = (Some g, st', s')"
    by (simp add: typed_ready_def try_recv_typed_def scan_typed_eq Let_def)
qed

interpretation pr: polling try_recv_pinned pinned_ready
proof
  fix st s
  assume "\<not> pinned_ready st s"
  then show "try_recv_pinned st s = (None, st, s)"
    by (auto simp: pinned_ready_def try_recv_pinned_def Let_def)
next
  fix st s
  assume "pinned_ready st s"
  then show "\<exists>g st' s'. try_recv_pinned st s = (Some g, st', s')"
    by (auto simp: pinned_ready_def try_recv_pinned_def Let_def)
qed

section \<open>Properties\<close>

lemma blocking_sound:
  assumes "recv_with fuel w strategy st s = Some (res, k, st', s')"
  shows "case res of
      Inr m \<Rightarrow> \<exists>i u. try_recv st (w_env w i u) = (Some m, st', s')
    | Inl e \<Rightarrow> st' = st \<and> (\<exists>i u. s' = w_env w i u \<and> check_heartbeat (st_config st) (w_clock w i) s' = Inl e)"
proof (cases st "w_env w 0 s" rule: sr.try_cases)
  case fail
  with assms show ?thesis by (intro sr.loop_sound [of fuel w strategy 0 1 st "w_env w 0 s" res k]) (simp add: recv_with_def blocking_recv_def)
next
  case (got g st2 s2)
  with assms have "res = Inr g" "st' = st2" "s' = s2" by (simp_all add: recv_with_def blocking_recv_def)
  with got(2) show ?thesis by auto
qed

lemma recv_with_loop:
  assumes "recv_loop fuel w strategy try_recv 0 1 st (w_env w 0 s) = Some r"
  shows "\<exists>r. \<forall>fuel' \<ge> fuel. recv_with fuel' w strategy st s = Some r"
proof (cases st "w_env w 0 s" rule: sr.try_cases)
  case fail
  then have "recv_with fuel' w strategy st s = Some r" if "fuel \<le> fuel'" for fuel'
    using sr.loop_mono [OF assms that] by (simp add: recv_with_def blocking_recv_def)
  then show ?thesis by blast
qed (simp add: recv_with_def blocking_recv_def)

text \<open>
  \<^bold>\<open>C24.\<close> A blocking receive returns.  Whatever the other processes do before a moment \<open>T\<close>: if from then on a
  message stays available, or if the strategy is adaptive and from then on no publisher sends or refreshes
  the heartbeat, then enough fuel gives a result, and more fuel the same one.  The result is what \<open>try_recv\<close>
  returned at some moment, or an error of a heartbeat check at some moment.
\<close>

theorem recv_returns:
  assumes "time_passes w"
    and "(\<forall>k \<ge> T. \<forall>s. recv_ready st (w_env w k s)) \<or>
      (\<exists>a b. strategy = Adaptive a b) \<and>
      (\<forall>k \<ge> T. \<forall>s. check_heartbeat (st_config st) (w_clock w k) (w_env w k s) \<noteq> Inr () \<and>
        te_write_seq (topics (w_env w k s) (st_topic_idx st)) = te_write_seq (topics s (st_topic_idx st)))"
  shows "\<exists>fuel res k st' s'. (\<forall>fuel' \<ge> fuel. recv_with fuel' w strategy st s = Some (res, k, st', s')) \<and>
    (case res of
       Inr m \<Rightarrow> \<exists>i u. try_recv st (w_env w i u) = (Some m, st', s')
     | Inl e \<Rightarrow> st' = st \<and> (\<exists>i u. s' = w_env w i u \<and> check_heartbeat (st_config st) (w_clock w i) s' = Inl e))"
proof -
  from assms(2) have "\<exists>fuel r. recv_loop fuel w strategy try_recv 0 1 st (w_env w 0 s) = Some r"
  proof
    assume "\<forall>k \<ge> T. \<forall>s. recv_ready st (w_env w k s)"
    then show ?thesis using sr.loop_gets [OF assms(1), of T st] by blast
  next
    assume "(\<exists>a b. strategy = Adaptive a b) \<and>
      (\<forall>k \<ge> T. \<forall>s. check_heartbeat (st_config st) (w_clock w k) (w_env w k s) \<noteq> Inr () \<and>
        te_write_seq (topics (w_env w k s) (st_topic_idx st)) = te_write_seq (topics s (st_topic_idx st)))"
    then obtain a b where ab: "strategy = Adaptive a b"
      and "\<And>k s. T \<le> k \<Longrightarrow> check_heartbeat (st_config st) (w_clock w k) (w_env w k s) \<noteq> Inr ()"
        "\<And>k s. T \<le> k \<Longrightarrow> seq_futex st (w_env w k s) = seq_futex st s" by (auto simp: seq_futex_def)
    from sr.loop_dies [OF assms(1) ab this(2,3)] show ?thesis by blast
  qed
  then obtain fuel r where "\<forall>fuel' \<ge> fuel. recv_with fuel' w strategy st s = Some r" using recv_with_loop by blast
  moreover obtain res k st' s' where "r = (res, k, st', s')" by (cases r)
  ultimately show ?thesis using blocking_sound [of fuel w strategy st s res k st' s'] by blast
qed

definition demo_rx :: stream where
  "demo_rx = \<lparr>st_config = config_default, st_topic_idx = 0, last_seq = 0, type_size = 0\<rparr>"

text \<open>A world in which a message arrives after some moments, and one in which nothing ever happens.\<close>

definition arrived :: shm where
  "arrived = upd_topic 0 (\<lambda>e. e\<lparr>te_write_seq := 1\<rparr>) (upd_ring 0 1 (\<lambda>e. e\<lparr>re_seq := 1\<rparr>)
     (upd_block 0 (\<lambda>x. x\<lparr>bk_refcount := 1\<rparr>) (zero_shm config_default)))"

definition arriving :: world where
  "arriving = \<lparr>w_env = (\<lambda>k s. if k < 7 then s else arrived), w_clock = (\<lambda>_. Some 0), w_now = id\<rparr>"

definition silent :: world where
  "silent = \<lparr>w_env = (\<lambda>k s. s\<lparr>heartbeat := 0\<rparr>), w_clock = (\<lambda>_. Some 6000000), w_now = id\<rparr>"

lemma demo_time: "time_passes arriving" "time_passes silent"
  by (auto simp: time_passes_def arriving_def silent_def intro: exI [of _ n for n])

lemma demo_timeout: "as_micros (stale_timeout config_default) = 5000000"
  by (simp add: config_default_def as_micros_def from_secs_def)

lemma arrived_ready: "recv_ready demo_rx arrived"
proof -
  have "scan_start demo_rx 1 = 1" by (simp add: scan_start_def demo_rx_def config_default_def as_u64_def)
  then show ?thesis
    by (simp add: recv_ready_def demo_rx_def arrived_def seq_range_def slot_ready_def ring_slot_def config_default_def zero_shm_def zero_topic_def
        as_u64_def as_u32_def NO_BLOCK_def as_usize_def data_capacity_def BLOCK_DATA_OFFSET_def)
qed

theorem recv_returns_witness:
  "(\<exists>fuel r. recv_with fuel arriving BusySpin demo_rx (zero_shm config_default) = Some r) \<and>
   (\<exists>fuel r. recv_with fuel silent (Adaptive 100 10) demo_rx (zero_shm config_default) = Some r)"
proof
  have "\<forall>k \<ge> 7. \<forall>s. recv_ready demo_rx (w_env arriving k s)" by (simp add: arriving_def arrived_ready)
  with recv_returns [OF demo_time(1), of 7 demo_rx BusySpin "zero_shm config_default"]
  show "\<exists>fuel r. recv_with fuel arriving BusySpin demo_rx (zero_shm config_default) = Some r" by blast
  have "\<forall>k \<ge> 0. \<forall>s. check_heartbeat (st_config demo_rx) (w_clock silent k) (w_env silent k s) \<noteq> Inr () \<and>
      te_write_seq (topics (w_env silent k s) (st_topic_idx demo_rx)) = te_write_seq (topics s (st_topic_idx demo_rx))"
    by (simp add: silent_def demo_rx_def check_heartbeat_def now_micros_def saturating_sub_def demo_timeout)
  with recv_returns [OF demo_time(2), of 0 demo_rx "Adaptive 100 10" "zero_shm config_default"]
  show "\<exists>fuel r. recv_with fuel silent (Adaptive 100 10) demo_rx (zero_shm config_default) = Some r" by blast
qed

text \<open>
  \<^bold>\<open>C25.\<close> A spinning receive can miss the death of its publisher.  With \<open>BusySpin\<close>, \<open>YieldSpin\<close> or \<open>BackoffSpin\<close>
  the round counter saturates at \<open>2^32 - 1\<close>, which is not a multiple of 1024, so the heartbeat is not looked at
  any more: when no message comes and the publisher is alive for the first \<open>2^33\<close> moments, the call never
  returns, whatever happens to the heartbeat afterwards.
\<close>

theorem spin_recv_misses_dead_publisher:
  assumes "strategy \<in> {BusySpin, YieldSpin, BackoffSpin}" "\<forall>k s. \<not> recv_ready st (w_env w k s)"
    and "\<forall>k < 2 ^ 33. \<forall>s. check_heartbeat (st_config st) (w_clock w k) (w_env w k s) = Inr ()"
  shows "recv_with fuel w strategy st s = None"
proof -
  have "\<not> os_sleeps strategy i" for i using assms(1) by (auto simp: os_sleeps_def)
  from sr.loop_spins [of strategy st w 1 0, OF this] assms(2,3) sr.not_ready [of st "w_env w 0 s"]
  show ?thesis by (simp add: recv_with_def blocking_recv_def)
qed

definition dying :: world where
  "dying = \<lparr>w_env = (\<lambda>k s. zero_shm config_default), w_clock = (\<lambda>k. Some (if k < 2 ^ 33 then 0 else 6000000)), w_now = id\<rparr>"

theorem spin_recv_misses_dead_publisher_witness:
  "(\<forall>fuel. recv_with fuel dying BusySpin demo_rx (zero_shm config_default) = None) \<and>
   check_heartbeat (st_config demo_rx) (w_clock dying (2 ^ 33)) (w_env dying (2 ^ 33) (zero_shm config_default)) = Inl PublisherDead"
proof -
  have "\<forall>k s. \<not> recv_ready demo_rx (w_env dying k s)"
    by (simp add: recv_ready_def dying_def zero_shm_def zero_topic_def)
  moreover have "\<forall>k < 2 ^ 33. \<forall>s. check_heartbeat (st_config demo_rx) (w_clock dying k) (w_env dying k s) = Inr ()"
    by (simp add: check_heartbeat_def dying_def zero_shm_def now_micros_def saturating_sub_def)
  moreover have "BusySpin \<in> {BusySpin, YieldSpin, BackoffSpin}" by simp
  moreover have "check_heartbeat (st_config demo_rx) (w_clock dying (2 ^ 33)) (w_env dying (2 ^ 33) (zero_shm config_default)) = Inl PublisherDead"
    by (simp add: check_heartbeat_def dying_def zero_shm_def now_micros_def saturating_sub_def demo_rx_def demo_timeout)
  ultimately show ?thesis using spin_recv_misses_dead_publisher [of BusySpin demo_rx dying] by blast
qed

end
