(* ===== verification/Channel.thy ===== *)
theory Channel
  imports Delivery Wait
begin

text \<open>
  The bidirectional channel (\<open>src/platform/channel.rs\<close>): two segments, one per direction.  Each end creates
  its own segment, registers the topic \<open>/ch\<close> there, and polls for the peer's segment, which it reads from the
  first message on.

  Polling takes a list of attempts: what the system answers to each, with the clocks at that moment; \<open>None\<close>
  means that the list ends before the call does.  Leaving a constructor early drops the publisher.

  The lemmas show when polling ends and with what, that sending is a run of the transition system of theory
  \<open>System\<close>, and that a receiver which keeps up gets every message in order, those sent before it connected
  included.
\<close>

section \<open>State\<close>

record channel =
  tx_pub :: publisher
  tx_topic :: topic_handle
  rx :: stream
  rx_sub :: region

record peer_poll =
  pp_open :: os_open
  pp_clock :: clock
  pp_now :: duration

section \<open>Connecting\<close>

definition before_deadline :: "duration option \<Rightarrow> duration \<Rightarrow> bool" where
  "before_deadline deadline now = (case deadline of Some d \<Rightarrow> now < d | None \<Rightarrow> False)"

text \<open>One attempt: connect and subscribe; the last component is the peer's memory afterwards.\<close>

definition try_peer :: "target_os \<Rightarrow> string \<Rightarrow> peer_poll \<Rightarrow> string \<Rightarrow> (region \<times> stream \<times> shm) result" where
  "try_peer os tmp pp region_name =
     (case Segment.connect os tmp (pp_open pp) (pp_clock pp) region_name of
        Inl e \<Rightarrow> Inl e
      | Inr sub \<Rightarrow>
          (case oo_open (pp_open pp) of
             Inl e \<Rightarrow> Inl (open_error os (shm_path os tmp region_name) e)
           | Inr seg \<Rightarrow>
               (case subscribe (rg_config sub) ''/ch'' (sg_shm seg) of
                  (Inl e, s) \<Rightarrow> Inl e
                | (Inr st, s) \<Rightarrow> Inr (sub, st\<lparr>last_seq := 0\<rparr>, s))))"

fun poll_peer :: "target_os \<Rightarrow> string \<Rightarrow> duration option \<Rightarrow> peer_poll list \<Rightarrow> string \<Rightarrow> (region \<times> stream \<times> shm) result option" where
  "poll_peer os tmp deadline [] region_name = None"
| "poll_peer os tmp deadline (pp # pps) region_name =
     (case try_peer os tmp pp region_name of
        Inr x \<Rightarrow> Some (Inr x)
      | Inl e \<Rightarrow> if before_deadline deadline (pp_now pp) then poll_peer os tmp deadline pps region_name else Some (Inl e))"

definition wait_for_peer ::
    "target_os \<Rightarrow> string \<Rightarrow> duration \<Rightarrow> peer_poll list \<Rightarrow> string \<Rightarrow> duration \<Rightarrow> (region \<times> stream \<times> shm) result option" where
  "wait_for_peer os tmp start pps region_name timeout =
     poll_peer os tmp (if timeout = 0 then None else Some (start + timeout)) pps region_name"

text \<open>
  The body that \<open>listen\<close> and \<open>connect\<close> share up to the two names.  The result has the channel and the peer's
  memory, or the error; then the end's own segment file and the registry.  \<open>ino\<close> is the identity of the file
  when the publisher is dropped.
\<close>

definition establish ::
    "target_os \<Rightarrow> string \<Rightarrow> os_create \<Rightarrow> clock \<Rightarrow> nat \<Rightarrow> u32 \<Rightarrow> u64 \<Rightarrow> u64 option \<Rightarrow> duration \<Rightarrow> peer_poll list \<Rightarrow>
     string \<Rightarrow> string \<Rightarrow> config \<Rightarrow> duration \<Rightarrow> segment option \<Rightarrow> registry option \<Rightarrow>
     ((channel \<times> shm) result \<times> segment option \<times> registry option) option" where
  "establish os tmp env clk now pid ident ino start pps own peer c timeout file reg =
     (case create os tmp env clk now pid ident own c file of
        (Inl e, file) \<Rightarrow> Some (Inl e, file, reg)
      | (Inr p, None) \<Rightarrow> None
      | (Inr p, Some seg) \<Rightarrow>
          let left_early = (\<lambda>e s reg.
            let (removed, s, reg) = publisher_drop pid ino p s reg
            in Some (Inl e, if removed then None else Some (seg\<lparr>sg_shm := s\<rparr>), reg)) in
          (case register clk pid ''/ch'' p (sg_shm seg) reg of
             (Inl e, s, reg) \<Rightarrow> left_early e s reg
           | (Inr h, s, reg) \<Rightarrow>
               (case wait_for_peer os tmp start pps peer timeout of
                  None \<Rightarrow> None
                | Some (Inl e) \<Rightarrow> left_early e s reg
                | Some (Inr (sub, st, m)) \<Rightarrow>
                    Some (Inr (\<lparr>tx_pub = p, tx_topic = h, rx = st, rx_sub = sub\<rparr>, m), Some (seg\<lparr>sg_shm := s\<rparr>), reg))))"

definition listen ::
    "target_os \<Rightarrow> string \<Rightarrow> os_create \<Rightarrow> clock \<Rightarrow> nat \<Rightarrow> u32 \<Rightarrow> u64 \<Rightarrow> u64 option \<Rightarrow> duration \<Rightarrow> peer_poll list \<Rightarrow>
     string \<Rightarrow> config \<Rightarrow> duration \<Rightarrow> segment option \<Rightarrow> registry option \<Rightarrow>
     ((channel \<times> shm) result \<times> segment option \<times> registry option) option" where
  "listen os tmp env clk now pid ident ino start pps name c timeout file reg =
     establish os tmp env clk now pid ident ino start pps (name @ ''-srv'') (name @ ''-cli'') c timeout file reg"

definition channel_connect ::
    "target_os \<Rightarrow> string \<Rightarrow> os_create \<Rightarrow> clock \<Rightarrow> nat \<Rightarrow> u32 \<Rightarrow> u64 \<Rightarrow> u64 option \<Rightarrow> duration \<Rightarrow> peer_poll list \<Rightarrow>
     string \<Rightarrow> config \<Rightarrow> duration \<Rightarrow> segment option \<Rightarrow> registry option \<Rightarrow>
     ((channel \<times> shm) result \<times> segment option \<times> registry option) option" where
  "channel_connect os tmp env clk now pid ident ino start pps name c timeout file reg =
     establish os tmp env clk now pid ident ino start pps (name @ ''-cli'') (name @ ''-srv'') c timeout file reg"

section \<open>Sending and receiving\<close>

definition channel_send ::
    "nat \<Rightarrow> clock \<Rightarrow> bool \<Rightarrow> nat \<Rightarrow> bytes \<Rightarrow> channel \<Rightarrow> shm \<Rightarrow> (bool result \<times> channel \<times> shm) option" where
  "channel_send now clk stream align data ch s =
     (case Publisher.loan now clk (tx_topic ch) (tx_pub ch) s of
        (Inl e, p, s) \<Rightarrow> Some (Inl e, ch\<lparr>tx_pub := p\<rparr>, s)
      | (Inr l, p, s) \<Rightarrow>
          (case set_data stream align data l s of
             (Inl e, l, s) \<Rightarrow> Some (Inl e, ch\<lparr>tx_pub := p\<rparr>, loan_drop (pub_config p) l s)
           | (Inr _, l, s) \<Rightarrow>
               (case loan_publish l (pub_region p, s) of
                  None \<Rightarrow> None
                | Some (woke, r, s) \<Rightarrow> Some (Inr woke, ch\<lparr>tx_pub := p\<lparr>pub_region := r\<rparr>\<rparr>, s))))"

definition channel_loan :: "nat \<Rightarrow> clock \<Rightarrow> channel \<Rightarrow> shm \<Rightarrow> loan result \<times> channel \<times> shm" where
  "channel_loan now clk ch s =
     (case Publisher.loan now clk (tx_topic ch) (tx_pub ch) s of (res, p, s) \<Rightarrow> (res, ch\<lparr>tx_pub := p\<rparr>, s))"

definition channel_try_recv :: "channel \<Rightarrow> shm \<Rightarrow> sample option \<times> channel \<times> shm" where
  "channel_try_recv ch s = (case try_recv (rx ch) s of (res, st, s) \<Rightarrow> (res, ch\<lparr>rx := st\<rparr>, s))"

definition channel_recv_with ::
    "nat \<Rightarrow> world \<Rightarrow> wait_strategy \<Rightarrow> channel \<Rightarrow> shm \<Rightarrow> (sample result \<times> nat \<times> channel \<times> shm) option" where
  "channel_recv_with fuel w strategy ch s =
     map_option (\<lambda>(res, k, st, s). (res, k, ch\<lparr>rx := st\<rparr>, s)) (recv_with fuel w strategy (rx ch) s)"

definition channel_recv :: "nat \<Rightarrow> world \<Rightarrow> channel \<Rightarrow> shm \<Rightarrow> (sample result \<times> nat \<times> channel \<times> shm) option" where
  "channel_recv fuel w ch s =
     map_option (\<lambda>(res, k, st, s). (res, k, ch\<lparr>rx := st\<rparr>, s)) (recv fuel w (rx ch) s)"

definition channel_heartbeat :: "nat \<Rightarrow> clock \<Rightarrow> channel \<Rightarrow> shm \<Rightarrow> unit result \<times> channel \<times> shm" where
  "channel_heartbeat now clk ch s =
     (case pub_heartbeat now clk (tx_pub ch) s of (res, p, s) \<Rightarrow> (res, ch\<lparr>tx_pub := p\<rparr>, s))"

text \<open>Several sends and several receives in a row; the receiver looks at each message when it gets it.\<close>

fun send_all :: "nat \<Rightarrow> clock \<Rightarrow> bool \<Rightarrow> nat \<Rightarrow> bytes list \<Rightarrow> channel \<Rightarrow> shm \<Rightarrow> (channel \<times> shm) option" where
  "send_all now clk stream align [] ch s = Some (ch, s)"
| "send_all now clk stream align (m # ms) ch s =
     (case channel_send now clk stream align m ch s of
        Some (Inr _, ch, s) \<Rightarrow> send_all now clk stream align ms ch s
      | _ \<Rightarrow> None)"

fun recv_all :: "nat \<Rightarrow> channel \<Rightarrow> shm \<Rightarrow> bytes list \<times> channel \<times> shm" where
  "recv_all 0 ch s = ([], ch, s)"
| "recv_all (Suc n) ch s =
     (case channel_try_recv ch s of
        (None, ch, s) \<Rightarrow> ([], ch, s)
      | (Some m, ch, s) \<Rightarrow> (case recv_all n ch s of (ms, ch', s') \<Rightarrow> (sample_bytes s m # ms, ch', s')))"

section \<open>Polling\<close>





section \<open>Sending as a run of the system\<close>

lemma set_data_ok:
  assumes "set_data stream align data l s = (Inr u, l', s')" "loan_wf c l" "data_wf c s"
  shows "ln_topic_idx l' = ln_topic_idx l" "ln_len l' = length data" "topics s' = topics s"
    "take (ln_len l') (bk_data (blocks s' (ln_block_idx l'))) = data"
proof -
  have len: "length (bk_data (blocks s (ln_block_idx l))) = ln_capacity l"
    using assms(2,3) by (simp add: loan_wf_def data_wf_def)
  show "ln_topic_idx l' = ln_topic_idx l" "ln_len l' = length data" "topics s' = topics s"
    "take (ln_len l') (bk_data (blocks s' (ln_block_idx l'))) = data"
    using assms(1) len by (auto simp: set_data_def nontemporal_copy_eq overwrite_def split: if_splits)
qed

lemma channel_sendE:
  assumes "channel_send now clk stream align data ch s = Some (Inr woke, ch', s')"
  obtains l p s1 u l2 s2 r where "Publisher.loan now clk (tx_topic ch) (tx_pub ch) s = (Inr l, p, s1)"
    "set_data stream align data l s1 = (Inr u, l2, s2)" "loan_commit True l2 (pub_region p, s2) = Some (woke, r, s')"
    "ch' = ch\<lparr>tx_pub := p\<lparr>pub_region := r\<rparr>\<rparr>"
  using assms by (auto simp: channel_send_def loan_publish_def split: prod.splits sum.splits option.splits)

text \<open>What an end of a channel is in a reachable state of its own segment.\<close>

definition sender_in :: "config \<Rightarrow> system \<Rightarrow> nat \<Rightarrow> channel \<Rightarrow> bool" where
  "sender_in c \<sigma> i ch \<longleftrightarrow> sys_reach c \<sigma> \<and> i < length (sy_parties \<sigma>) \<and>
     sy_parties \<sigma> ! i = \<lparr>pt_pub = tx_pub ch, pt_loan = NoLoan\<rparr> \<and> tx_topic ch \<in> set (sy_handles \<sigma>)"

lemma send_reach:
  assumes snd: "sender_in c \<sigma> i ch" and se: "channel_send now clk stream align data ch (sy_shm \<sigma>) = Some (Inr woke, ch', s')"
    and room: "length (sy_hist \<sigma> (topic_idx (tx_topic ch))) + 2 < 2 ^ 64"
  shows "\<exists>\<sigma>'. sender_in c \<sigma>' i ch' \<and> sy_shm \<sigma>' = s' \<and> tx_topic ch' = tx_topic ch \<and>
    sy_hist \<sigma>' (topic_idx (tx_topic ch)) = sy_hist \<sigma> (topic_idx (tx_topic ch)) @ [Some data] \<and>
    sy_streams \<sigma>' = sy_streams \<sigma> \<and> sy_samples \<sigma>' = sy_samples \<sigma> \<and> sy_typed \<sigma>' = sy_typed \<sigma>"
proof -
  let ?t = "topic_idx (tx_topic ch)"
  have r: "sys_reach c \<sigma>" and i: "i < length (sy_parties \<sigma>)"
    and pt: "sy_parties \<sigma> ! i = \<lparr>pt_pub = tx_pub ch, pt_loan = NoLoan\<rparr>" and h: "tx_topic ch \<in> set (sy_handles \<sigma>)"
    using snd by (simp_all add: sender_in_def)
  note inv = reach_sysinv [OF r]
  from se obtain l p s1 u l2 s2 rg where ln: "Publisher.loan now clk (tx_topic ch) (tx_pub ch) (sy_shm \<sigma>) = (Inr l, p, s1)"
    and sd: "set_data stream align data l s1 = (Inr u, l2, s2)" and cm: "loan_commit True l2 (pub_region p, s2) = Some (woke, rg, s')"
    and ch': "ch' = ch\<lparr>tx_pub := p\<lparr>pub_region := rg\<rparr>\<rparr>" by (rule channel_sendE)
  have "pt_loan (sy_parties \<sigma> ! i) = NoLoan" by (simp add: pt)
  note la = loan_acct [OF ln party_acct [OF inv i refl this, unfolded pt, simplified]]
  define \<sigma>1 where "\<sigma>1 = set_party i \<lparr>pt_pub = p, pt_loan = ALoan l\<rparr> s1 \<sigma>"
  have "sys_step c \<sigma> \<sigma>1"
    using sys_step.do_loan [OF i refl _ h, of now clk "Inr l" p s1 c] ln pt by (simp add: \<sigma>1_def)
  then have r1: "sys_reach c \<sigma>1" by (rule sys_reach.reach_step [OF r])
  note inv1 = reach_sysinv [OF r1]
  have i1: "i < length (sy_parties \<sigma>1)" and pt1: "sy_parties \<sigma>1 ! i = \<lparr>pt_pub = p, pt_loan = ALoan l\<rparr>" and s1: "sy_shm \<sigma>1 = s1"
    using i by (simp_all add: \<sigma>1_def)
  have "loan_wf c l" "data_wf c s1"
    using sysinv_partyD(4) [OF inv1 i1 refl] meminvD(2) [OF sysinvD(2) [OF inv1]] by (simp_all add: pt1 s1)
  note sd' = set_data_ok [OF sd this]
  define \<sigma>2 where "\<sigma>2 = set_party i \<lparr>pt_pub = p, pt_loan = ALoan l2\<rparr> s2 \<sigma>1"
  have "loan_write l (sy_shm \<sigma>1) l2 s2" unfolding s1 by (rule loan_write.w_data [OF sd])
  from sys_step.do_write [OF i1 refl _ this, of c] have "sys_step c \<sigma>1 \<sigma>2" by (simp add: pt1 \<sigma>2_def)
  then have r2: "sys_reach c \<sigma>2" by (rule sys_reach.reach_step [OF r1])
  have i2: "i < length (sy_parties \<sigma>2)" and pt2: "sy_parties \<sigma>2 ! i = \<lparr>pt_pub = p, pt_loan = ALoan l2\<rparr>" and s2: "sy_shm \<sigma>2 = s2"
    using i1 by (simp_all add: \<sigma>2_def)
  have t: "ln_topic_idx l2 = ?t" "topics s2 = topics (sy_shm \<sigma>)" using la sd' by (simp_all add: same_but_pool_def)
  have "?t < max_topics c" using sysinvD(4) [OF inv h] by (simp add: topic_live_def)
  from meminvD(3) [OF sysinvD(2) [OF inv] this] room have "seq_room (sy_shm \<sigma>2) (ln_topic_idx l2)"
    by (simp add: seq_room_def s2 t)
  from sys_step.do_publish [OF i2 refl _ this, of True woke rg s' c] cm
  have "sys_step c \<sigma>2 (record_publication ?t (Some data) (set_party i \<lparr>pt_pub = p\<lparr>pub_region := rg\<rparr>, pt_loan = NoLoan\<rparr> s' \<sigma>2))"
    (is "sys_step c _ ?\<tau>") by (simp add: pt2 s2 t(1) sd'(4))
  then have "sys_reach c ?\<tau>" by (rule sys_reach.reach_step [OF r2])
  then show ?thesis using i h by (intro exI [of _ ?\<tau>]) (simp add: sender_in_def ch' \<sigma>2_def \<sigma>1_def)
qed

lemma send_all_reach:
  assumes "sender_in c \<sigma> i ch" "send_all now clk stream align ms ch (sy_shm \<sigma>) = Some (ch', s')"
    and "length (sy_hist \<sigma> (topic_idx (tx_topic ch))) + length ms + 1 < 2 ^ 64"
  shows "\<exists>\<sigma>'. sender_in c \<sigma>' i ch' \<and> sy_shm \<sigma>' = s' \<and>
    sy_hist \<sigma>' (topic_idx (tx_topic ch)) = sy_hist \<sigma> (topic_idx (tx_topic ch)) @ map Some ms \<and>
    sy_streams \<sigma>' = sy_streams \<sigma> \<and> sy_samples \<sigma>' = sy_samples \<sigma> \<and> sy_typed \<sigma>' = sy_typed \<sigma>"
  using assms
proof (induction ms arbitrary: ch \<sigma>)
  case (Cons m ms)
  from Cons.prems(2) obtain woke ch1 s1 where se: "channel_send now clk stream align m ch (sy_shm \<sigma>) = Some (Inr woke, ch1, s1)"
    and rest: "send_all now clk stream align ms ch1 s1 = Some (ch', s')" by (auto split: option.splits sum.splits)
  obtain \<sigma>1 where s1: "sender_in c \<sigma>1 i ch1" "sy_shm \<sigma>1 = s1" "tx_topic ch1 = tx_topic ch"
    "sy_hist \<sigma>1 (topic_idx (tx_topic ch)) = sy_hist \<sigma> (topic_idx (tx_topic ch)) @ [Some m]"
    "sy_streams \<sigma>1 = sy_streams \<sigma>" "sy_samples \<sigma>1 = sy_samples \<sigma>" "sy_typed \<sigma>1 = sy_typed \<sigma>"
    using send_reach [OF Cons.prems(1) se] Cons.prems(3) by auto
  from Cons.IH [OF s1(1) rest [folded s1(2)]] Cons.prems(3) s1(3-) show ?case by simp
qed auto

section \<open>Receiving in order\<close>

text \<open>A reader that is less than a ring behind finds the next message.\<close>

lemma next_unread_next:
  assumes "l < length ms" "length ms \<le> l + d"
  shows "next_unread d (map Some ms) l = Some (Suc l)"
proof -
  have "[window_start d l (length ms)..<Suc (length ms)] = Suc l # [Suc (Suc l)..<Suc (length ms)]"
    using assms by (simp add: window_start_def upt_conv_Cons)
  then show ?thesis using assms(1) by (simp add: next_unread_def)
qed

lemma next_unread_end: "next_unread d (map Some ms) (length ms) = None"
  by (simp add: next_unread_def window_start_def)

lemma seq_of_hist:
  assumes "sysinv c \<sigma>" "stream_ok c st" "n \<le> length (sy_hist \<sigma> (st_topic_idx st))"
  shows "unat (of_nat n :: u64) = n"
proof -
  have "length (sy_hist \<sigma> (st_topic_idx st)) < 2 ^ 64"
    using meminvD(3) [OF sysinvD(2) [OF assms(1)], of "st_topic_idx st"] assms(2) unat_u64_less by (simp add: stream_ok_def)
  then show ?thesis using assms(3) by (simp add: unat_of_nat)
qed

definition receiver_in :: "config \<Rightarrow> system \<Rightarrow> nat \<Rightarrow> channel \<Rightarrow> bool" where
  "receiver_in c \<sigma> j ch \<longleftrightarrow> sys_reach c \<sigma> \<and> j < length (sy_streams \<sigma>) \<and> rx ch = sy_streams \<sigma> ! j"

lemma recv_one:
  assumes "receiver_in c \<sigma> j ch" and hs: "sy_hist \<sigma> (st_topic_idx (rx ch)) = map Some ms"
    and l: "unat (last_seq (rx ch)) < length ms" "length ms \<le> unat (last_seq (rx ch)) + unat (ring_depth c)"
    and "sample_room \<sigma>"
  shows "\<exists>m ch' \<sigma>'. channel_try_recv ch (sy_shm \<sigma>) = (Some m, ch', sy_shm \<sigma>') \<and>
    sample_bytes (sy_shm \<sigma>') m = ms ! unat (last_seq (rx ch)) \<and> receiver_in c \<sigma>' j ch' \<and>
    st_topic_idx (rx ch') = st_topic_idx (rx ch) \<and> unat (last_seq (rx ch')) = Suc (unat (last_seq (rx ch))) \<and>
    sy_hist \<sigma>' = sy_hist \<sigma> \<and> length (sy_samples \<sigma>') = Suc (length (sy_samples \<sigma>)) \<and> sy_typed \<sigma>' = sy_typed \<sigma>"
proof -
  let ?st = "rx ch" and ?l = "unat (last_seq (rx ch))"
  have r: "sys_reach c \<sigma>" and j: "j < length (sy_streams \<sigma>)" and st: "sy_streams \<sigma> ! j = ?st"
    using assms(1) by (simp_all add: receiver_in_def)
  have mem: "?st \<in> set (sy_streams \<sigma>)" using j st by (metis nth_mem)
  obtain res st' s' where t: "try_recv ?st (sy_shm \<sigma>) = (res, st', s')" by (metis prod_cases3)
  from recv_reads [OF r mem t hs [symmetric]] obtain m where
    m: "res = Some m" "sample_bytes s' m = ms ! ?l" "st' = ?st\<lparr>last_seq := of_nat (Suc ?l)\<rparr>"
    using next_unread_next [OF l] l(1) by auto
  let ?\<sigma>' = "\<sigma>\<lparr>sy_shm := s', sy_streams := (sy_streams \<sigma>)[j := st'], sy_samples := m # sy_samples \<sigma>\<rparr>"
  have "sys_step c \<sigma> ?\<sigma>'" using sys_step.do_recv [OF j assms(5), of res st' s' c] t m(1) st by simp
  then have r': "sys_reach c ?\<sigma>'" by (rule sys_reach.reach_step [OF r])
  have "unat (of_nat (Suc ?l) :: u64) = Suc ?l"
    using seq_of_hist [OF reach_sysinv [OF r] sysinvD(5) [OF reach_sysinv [OF r] mem], of "Suc ?l"] hs l(1) by simp
  then show ?thesis using r' t m j
    by (intro exI [of _ m] exI [of _ "ch\<lparr>rx := st'\<rparr>"] exI [of _ ?\<sigma>'])
      (simp add: channel_try_recv_def receiver_in_def)
qed

lemma recv_none:
  assumes "receiver_in c \<sigma> j ch" "sy_hist \<sigma> (st_topic_idx (rx ch)) = map Some ms" "unat (last_seq (rx ch)) = length ms"
  shows "fst (channel_try_recv ch (sy_shm \<sigma>)) = None"
proof -
  have "rx ch \<in> set (sy_streams \<sigma>)" using assms(1) nth_mem [of j "sy_streams \<sigma>"] by (simp add: receiver_in_def)
  moreover obtain res st' s' where "try_recv (rx ch) (sy_shm \<sigma>) = (res, st', s')" by (metis prod_cases3)
  ultimately show ?thesis
    using recv_reads [of c \<sigma> "rx ch" res st' s' "map Some ms"] assms next_unread_end [of "unat (ring_depth c)" ms]
    by (simp add: channel_try_recv_def receiver_in_def)
qed

lemma recv_all_reads:
  assumes "receiver_in c \<sigma> j ch" "sy_hist \<sigma> (st_topic_idx (rx ch)) = map Some ms"
    and "unat (last_seq (rx ch)) + n = length ms" "n \<le> unat (ring_depth c)"
    and "length (sy_samples \<sigma>) + length (sy_typed \<sigma>) + n + 2 < 2 ^ 32"
  shows "\<exists>ch' s'. recv_all n ch (sy_shm \<sigma>) = (drop (unat (last_seq (rx ch))) ms, ch', s') \<and> fst (channel_try_recv ch' s') = None"
  using assms
proof (induction n arbitrary: ch \<sigma>)
  case 0
  then show ?case using recv_none [of c \<sigma> j ch ms] by simp
next
  case (Suc n)
  let ?l = "unat (last_seq (rx ch))"
  have l: "?l < length ms" "length ms \<le> ?l + unat (ring_depth c)" using Suc.prems(3,4) by simp_all
  have "sample_room \<sigma>" using Suc.prems(5) by (simp add: sample_room_def)
  then obtain m ch1 \<sigma>1 where s1: "channel_try_recv ch (sy_shm \<sigma>) = (Some m, ch1, sy_shm \<sigma>1)"
    "sample_bytes (sy_shm \<sigma>1) m = ms ! ?l" "receiver_in c \<sigma>1 j ch1" "st_topic_idx (rx ch1) = st_topic_idx (rx ch)"
    "unat (last_seq (rx ch1)) = Suc ?l" "sy_hist \<sigma>1 = sy_hist \<sigma>" "length (sy_samples \<sigma>1) = Suc (length (sy_samples \<sigma>))"
    "sy_typed \<sigma>1 = sy_typed \<sigma>" using recv_one [OF Suc.prems(1,2) l] by blast
  obtain ch' s' where "recv_all n ch1 (sy_shm \<sigma>1) = (drop (Suc ?l) ms, ch', s')" "fst (channel_try_recv ch' s') = None"
    using Suc.IH [OF s1(3)] Suc.prems(2-) s1(4-) by auto
  then show ?case using s1(1,2) l(1) by (simp add: Cons_nth_drop_Suc)
qed

section \<open>Properties\<close>



text \<open>
  \<^bold>\<open>C28.\<close> Messages arrive complete and in order.  Let one end of a channel have sent the messages \<open>old\<close>, of which the
  other end has received the first ones, possibly none because it connected later, and let it send \<open>ms\<close>.  As
  long as no more messages are outstanding than the ring has slots, the other end receives exactly the
  outstanding messages in the order they were sent, and nothing more.
\<close>

theorem channel_delivers:
  assumes "sender_in c \<sigma> i a" "receiver_in c \<sigma> j b" "st_topic_idx (rx b) = topic_idx (tx_topic a)"
    and "sy_hist \<sigma> (topic_idx (tx_topic a)) = map Some old" "unat (last_seq (rx b)) \<le> length old"
    and "send_all now clk stream align ms a (sy_shm \<sigma>) = Some (a', s')"
    and "n = length old + length ms - unat (last_seq (rx b))" "n \<le> unat (ring_depth c)"
    and "length old + length ms + 1 < 2 ^ 64" "length (sy_samples \<sigma>) + length (sy_typed \<sigma>) + n + 2 < 2 ^ 32"
  shows "\<exists>b' s''. recv_all n b s' = (drop (unat (last_seq (rx b))) old @ ms, b', s'') \<and> fst (channel_try_recv b' s'') = None"
proof -
  obtain \<sigma>' where s: "sender_in c \<sigma>' i a'" "sy_shm \<sigma>' = s'"
    "sy_hist \<sigma>' (topic_idx (tx_topic a)) = map Some (old @ ms)"
    "sy_streams \<sigma>' = sy_streams \<sigma>" "sy_samples \<sigma>' = sy_samples \<sigma>" "sy_typed \<sigma>' = sy_typed \<sigma>"
    using send_all_reach [OF assms(1,6)] assms(4,9) by auto
  have "receiver_in c \<sigma>' j b" using assms(2) s(1,4) by (simp add: receiver_in_def sender_in_def)
  from recv_all_reads [OF this, of "old @ ms" n] show ?thesis using assms s by simp
qed

definition demo_end :: channel where
  "demo_end = \<lparr>tx_pub = demo_pub, tx_topic = demo_handle, rx = demo_stream, rx_sub = from_raw (opened_config demo_config)\<rparr>"

lemma demo_send:
  "\<exists>\<sigma> a' s'. sender_in demo_config \<sigma> 0 demo_end \<and> receiver_in demo_config \<sigma> 0 demo_end \<and> sy_hist \<sigma> 0 = [] \<and>
     sy_samples \<sigma> = [] \<and> sy_typed \<sigma> = [] \<and> send_all 0 (Some 7) False 0 [[1, 2, 3]] demo_end (sy_shm \<sigma>) = Some (a', s')"
proof -
  obtain \<sigma> where r: "sys_reach demo_config \<sigma>" and \<sigma>: "sy_parties \<sigma> = [\<lparr>pt_pub = demo_pub, pt_loan = NoLoan\<rparr>]"
    "sy_handles \<sigma> = [demo_handle]" "sy_streams \<sigma> = [demo_stream]" "sy_samples \<sigma> = []" "sy_typed \<sigma> = []"
    "sy_hist \<sigma> = (\<lambda>_. [])" using demo_subscribed by blast
  obtain res p s where ln: "Publisher.loan 0 (Some 7) demo_handle demo_pub (sy_shm \<sigma>) = (res, p, s)" by (metis prod_cases3)
  have ac: "acct demo_config (sy_shm \<sigma>) ({#} + held demo_pub) {#}"
    using sysinvD(1) [OF reach_sysinv [OF r]] \<sigma> by (simp add: idle_def Exclusion.refs_def party_blocks_def new_publisher_wf)
  have "\<exists>l. res = Inr l"
    by (rule loan_or_exhausted [OF ln new_publisher_wf(1) ac]) (simp_all add: demo_handle_def new_publisher_def pinned_def)
  then obtain l where l: "res = Inr l" by blast
  have "loan_wf demo_config l" using loan_acct [OF ln new_publisher_wf(1) ac] by (simp add: l)
  then have cap: "ln_capacity l = 16" using data_capacity_nat(1) [of demo_config] by (simp add: loan_wf_def)
  then have "\<exists>a' s'. send_all 0 (Some 7) False 0 [[1, 2, 3]] demo_end (sy_shm \<sigma>) = Some (a', s')"
    using ln l by (simp add: channel_send_def demo_end_def set_data_def loan_publish_def loan_commit_def
        unsigned_minus_1_eq_mask mask_eq_exp_minus_1 split: prod.split)
  then show ?thesis using r \<sigma> by (auto simp: sender_in_def receiver_in_def demo_end_def)
qed

theorem channel_delivers_witness:
  "\<exists>\<sigma> a' b' s' s''. sys_reach demo_config \<sigma> \<and> send_all 0 (Some 7) False 0 [[1, 2, 3]] demo_end (sy_shm \<sigma>) = Some (a', s') \<and>
     recv_all 1 demo_end s' = ([[1, 2, 3]], b', s'') \<and> fst (channel_try_recv b' s'') = None"
proof -
  obtain \<sigma> a' s' where d: "sender_in demo_config \<sigma> 0 demo_end" "receiver_in demo_config \<sigma> 0 demo_end" "sy_hist \<sigma> 0 = []"
    "sy_samples \<sigma> = []" "sy_typed \<sigma> = []" "send_all 0 (Some 7) False 0 [[1, 2, 3]] demo_end (sy_shm \<sigma>) = Some (a', s')"
    using demo_send by blast
  have "st_topic_idx (rx demo_end) = topic_idx (tx_topic demo_end)" "unat (last_seq (rx demo_end)) = 0" "topic_idx (tx_topic demo_end) = 0"
    by (simp_all add: demo_end_def demo_stream_def demo_handle_def)
  with channel_delivers [OF d(1,2) _ _ _ d(6), of "[]" 1] d show ?thesis by (auto simp: sender_in_def)
qed

end
