(* ===== verification/Ffi.thy ===== *)
theory Ffi
  imports Channel Registry
begin

text \<open>
  The C interface (\<open>src/ffi.rs\<close>): every exported function with its null checks, string decoding, ownership
  transfer through \<open>Box::into_raw\<close> and \<open>Box::from_raw\<close>, and error values.

  A process has a heap of boxed Rust objects at nonzero addresses, some memory of the C caller, and the segments
  it has mapped.  A call returns, waits, panics, or has undefined behaviour: dereferencing or freeing an
  address that holds no box of the right type, reading past the caller's buffer, or using a topic handle
  whose index is outside the table.  What the operating system answers is in a record of type \<open>c_world\<close>.

  The lemmas show that calls whose pointers are null or live handles of the right type have defined behaviour
  and keep all other handles alive.
\<close>

section \<open>Processes\<close>

datatype c_obj =
    CPub nat publisher
  | CSub nat region
  | CStream nat stream
  | CSample nat config sample
  | CChan nat nat channel

record process =
  boxes :: "nat \<Rightarrow> c_obj option"
  next_box :: nat
  caller_mem :: "nat \<Rightarrow> c_obj option"
  maps :: "nat \<Rightarrow> shm"
  c_reg :: "registry option"

datatype 'a c_result = Ret 'a process | Undefined | Panicked | Waiting


abbreviation NULL :: nat where "NULL \<equiv> 0"


abbreviation unbox :: "nat \<Rightarrow> process \<Rightarrow> process" where
  "unbox a \<sigma> \<equiv> \<sigma>\<lparr>boxes := (boxes \<sigma>)(a := None)\<rparr>"

abbreviation put_box :: "nat \<Rightarrow> c_obj \<Rightarrow> process \<Rightarrow> process" where
  "put_box a x \<sigma> \<equiv> \<sigma>\<lparr>boxes := (boxes \<sigma>)(a := Some x)\<rparr>"

abbreviation put_map :: "nat \<Rightarrow> shm \<Rightarrow> process \<Rightarrow> process" where
  "put_map g s \<sigma> \<equiv> \<sigma>\<lparr>maps := (maps \<sigma>)(g := s)\<rparr>"


section \<open>Configuration\<close>

record crossbar_config =
  cc_max_topics :: u32
  cc_block_count :: u32
  cc_block_size :: u32
  cc_ring_depth :: u32
  cc_heartbeat_ms :: u64
  cc_stale_timeout_ms :: u64

definition config_from :: "crossbar_config \<Rightarrow> config" where
  "config_from c =
     \<lparr>max_topics = cc_max_topics c, block_count = cc_block_count c, block_size = cc_block_size c,
      ring_depth = cc_ring_depth c, heartbeat_interval = from_millis (unat (cc_heartbeat_ms c)),
      stale_timeout = from_millis (unat (cc_stale_timeout_ms c))\<rparr>"

definition crossbar_config_default :: crossbar_config where
  "crossbar_config_default =
     (let d = config_default in
      \<lparr>cc_max_topics = max_topics d, cc_block_count = block_count d, cc_block_size = block_size d,
       cc_ring_depth = ring_depth d, cc_heartbeat_ms = of_nat (as_millis (heartbeat_interval d)),
       cc_stale_timeout_ms = of_nat (as_millis (stale_timeout d))\<rparr>)"


text \<open>The default configuration of the C interface is the one of the crate.\<close>

lemma config_from_default: "config_from crossbar_config_default = config_default"
  by (simp add: config_from_def crossbar_config_default_def config_default_def from_millis_def from_secs_def as_millis_def)

section \<open>Publisher\<close>










section \<open>Subscriber\<close>





section \<open>Samples\<close>



definition crossbar_try_recv_into :: "nat \<Rightarrow> nat \<Rightarrow> process \<Rightarrow> int c_result" where
  "crossbar_try_recv_into stream out \<sigma> =
     (if stream = NULL \<or> out = NULL then Ret (- 1) \<sigma>
      else case boxes \<sigma> stream of
        Some (CStream g st) \<Rightarrow>
          (case try_recv st (maps \<sigma> g) of
             (Some guard, st, s) \<Rightarrow>
               let \<sigma> = put_box stream (CStream g st) (put_map g s \<sigma>)
               in Ret 1 (\<sigma>\<lparr>caller_mem := (caller_mem \<sigma>)(out := Some (CSample g (st_config st) guard))\<rparr>)
           | (None, st, s) \<Rightarrow> Ret 0 (put_box stream (CStream g st) (put_map g s \<sigma>)))
      | _ \<Rightarrow> Undefined)"





definition c_sample_drop :: "config \<Rightarrow> sample \<Rightarrow> shm \<Rightarrow> shm" where
  "c_sample_drop c m s = release_block c (sm_block_idx m) s"

definition crossbar_sample_free :: "nat \<Rightarrow> process \<Rightarrow> unit c_result" where
  "crossbar_sample_free sample \<sigma> =
     (if sample = NULL then Ret () \<sigma>
      else case boxes \<sigma> sample of
        Some (CSample g c m) \<Rightarrow> Ret () (unbox sample (put_map g (c_sample_drop c m (maps \<sigma> g)) \<sigma>))
      | _ \<Rightarrow> Undefined)"

section \<open>Channels\<close>








section \<open>Calls and their types\<close>


datatype c_value =
    VUnit | VPtr nat | VInt int | VLen nat | VCount u32 | VTopic topic_handle | VData "(nat \<times> usize) option"



datatype c_type = TPub | TSub | TStream | TSample | TChan

fun type_of :: "c_obj \<Rightarrow> c_type" where
  "type_of (CPub _ _) = TPub"
| "type_of (CSub _ _) = TSub"
| "type_of (CStream _ _) = TStream"
| "type_of (CSample _ _ _) = TSample"
| "type_of (CChan _ _ _) = TChan"

lemma type_of_simps [simp]:
  "type_of x = TPub \<longleftrightarrow> (\<exists>g p. x = CPub g p)" "type_of x = TSub \<longleftrightarrow> (\<exists>g r. x = CSub g r)"
  "type_of x = TStream \<longleftrightarrow> (\<exists>g st. x = CStream g st)" "type_of x = TSample \<longleftrightarrow> (\<exists>g c m. x = CSample g c m)"
  "type_of x = TChan \<longleftrightarrow> (\<exists>g h ch. x = CChan g h ch)"
  by (cases x; simp)+

text \<open>The type an address has in a process: that of the box there.\<close>

definition typing :: "process \<Rightarrow> nat \<Rightarrow> c_type option" where
  "typing \<sigma> a = map_option type_of (boxes \<sigma> a)"


definition heap_wf :: "process \<Rightarrow> bool" where
  "heap_wf \<sigma> \<longleftrightarrow> 0 < next_box \<sigma> \<and> (\<forall>a. typing \<sigma> a \<noteq> None \<longrightarrow> 0 < a \<and> a < next_box \<sigma>)"






section \<open>Type safety\<close>

text \<open>
  An outcome respects types: it is not undefined; afterwards the heap has the old types without the freed
  address, plus at most the one new box whose address is returned.
\<close>

definition keeps_types :: "process \<Rightarrow> nat \<Rightarrow> c_type \<Rightarrow> c_value c_result \<Rightarrow> bool" where
  "keeps_types \<sigma> freed t r \<longleftrightarrow>
     (case r of
        Undefined \<Rightarrow> False
      | Ret v \<sigma>' \<Rightarrow>
          heap_wf \<sigma>' \<and>
          (case v of
             VPtr a \<Rightarrow> (if a = NULL then typing \<sigma>' = (typing \<sigma>)(freed := None)
               else typing \<sigma> a = None \<and> typing \<sigma>' = (typing \<sigma>)(freed := None, a := Some t))
           | _ \<Rightarrow> typing \<sigma>' = (typing \<sigma>)(freed := None))
      | _ \<Rightarrow> True)"

lemma keeps_types_simps [simp]:
  "keeps_types \<sigma> freed t Panicked" "keeps_types \<sigma> freed t Waiting" "\<not> keeps_types \<sigma> freed t Undefined"
  by (simp_all add: keeps_types_def)






lemma typing_simps [simp]:
  "typing (\<sigma>\<lparr>maps := m\<rparr>) = typing \<sigma>" "typing (\<sigma>\<lparr>c_reg := r\<rparr>) = typing \<sigma>" "typing (\<sigma>\<lparr>caller_mem := c\<rparr>) = typing \<sigma>"
  by (rule ext, simp add: typing_def)+

lemma typing_put [simp]:
  assumes "boxes \<sigma> a = Some x" "type_of y = type_of x"
  shows "typing (\<sigma>\<lparr>maps := m, boxes := (boxes \<sigma>)(a := Some y)\<rparr>) = typing \<sigma>"
    "typing (\<sigma>\<lparr>maps := m, boxes := (boxes \<sigma>)(a := Some y), caller_mem := c\<rparr>) = typing \<sigma>"
  using assms by (auto simp: typing_def fun_eq_iff)










section \<open>Properties\<close>


text \<open>A process with one subscription on a segment that holds a message.\<close>

definition demo_process :: process where
  "demo_process = \<lparr>boxes = [1 \<mapsto> CStream 0 demo_rx], next_box = 2, caller_mem = (\<lambda>_. None), maps = (\<lambda>_. arrived), c_reg = None\<rparr>"


lemma demo_message: "\<exists>m st s. try_recv demo_rx arrived = (Some m, st, s)"
  by (rule sr.is_ready [OF arrived_ready])


text \<open>
  \<^bold>\<open>C40.\<close> A sample received into caller-provided memory cannot be given back.  The documentation of
  \<open>crossbar_try_recv_into\<close> asks the caller to call \<open>crossbar_sample_free\<close> on it, but that function turns the
  pointer into a box and frees it: after every successful receive into memory that is not itself a box, the
  call it asks for has undefined behaviour.
\<close>

theorem recv_into_cannot_be_freed:
  assumes "boxes \<sigma> out = None" "crossbar_try_recv_into stream out \<sigma> = Ret 1 \<sigma>'"
  shows "(\<exists>g c m. caller_mem \<sigma>' out = Some (CSample g c m)) \<and> crossbar_sample_free out \<sigma>' = Undefined"
  using assms
  by (auto simp: crossbar_try_recv_into_def crossbar_sample_free_def Let_def split: if_splits option.splits c_obj.splits prod.splits)

theorem recv_into_cannot_be_freed_witness:
  "\<exists>\<sigma>. crossbar_try_recv_into 1 100 demo_process = Ret 1 \<sigma> \<and> crossbar_sample_free 100 \<sigma> = Undefined"
proof -
  obtain m st s where m: "try_recv demo_rx arrived = (Some m, st, s)" using demo_message by blast
  then obtain \<sigma> where "crossbar_try_recv_into 1 100 demo_process = Ret 1 \<sigma>"
    by (simp add: crossbar_try_recv_into_def demo_process_def Let_def)
  with recv_into_cannot_be_freed [of demo_process 100 1 \<sigma>] show ?thesis by (simp add: demo_process_def)
qed

end
