(* ===== verification/PodBus.thy ===== *)
theory PodBus
  imports Segment
begin

unbundle bit_operations_syntax

text \<open>
  The broadcast ring for plain values (\<open>src/platform/pod_bus.rs\<close>): one publisher, any number of
  subscribers, and in bounded mode a table of 64 subscriber slots that holds the publisher back.
  A bus file is the record of its header fields, its subscriber slots and its ring; a value of the
  type parameter \<open>T\<close> is its byte image, with \<open>size_of::<T>()\<close> and \<open>align_of::<T>()\<close> as arguments.
  \<open>alive\<close> is the operating system's answer to whether a process exists.  A failing assertion is
  the outer \<open>None\<close>.

  The operations are whole calls here; the interleaving of a write with a read of the same slot
  is the subject of theory \<open>Seqlock\<close>, for which \<open>recv_slot\<close> takes the loaded values as arguments.
\<close>

section \<open>Constants and layout\<close>

definition POD_BUS_MAGIC :: bytes where
  "POD_BUS_MAGIC = map of_char (''XPOD_ZC'' @ [CHR 0x00])"
definition POD_BUS_VERSION_V1 :: u32 where "POD_BUS_VERSION_V1 = 1"
definition POD_BUS_VERSION_V2 :: u32 where "POD_BUS_VERSION_V2 = 2"
definition POD_BUS_VERSION_V3 :: u32 where "POD_BUS_VERSION_V3 = 3"
definition POD_BUS_HEADER_SIZE :: nat where "POD_BUS_HEADER_SIZE = 64"
definition MAX_SUBSCRIBER_SLOTS :: nat where "MAX_SUBSCRIBER_SLOTS = 64"
definition SUBSCRIBER_SLOT_SIZE :: nat where "SUBSCRIBER_SLOT_SIZE = 16"
definition SUBSCRIBER_SLOTS_SECTION_SIZE :: nat where
  "SUBSCRIBER_SLOTS_SECTION_SIZE = MAX_SUBSCRIBER_SLOTS * SUBSCRIBER_SLOT_SIZE"
definition HEARTBEAT_STALE_US :: u64 where "HEARTBEAT_STALE_US = 5000000"
definition MAX_POD_ALIGN :: nat where "MAX_POD_ALIGN = 8"

definition STATE_FREE :: u64 where "STATE_FREE = 0"
definition STATE_ACTIVE :: u64 where "STATE_ACTIVE = push_bit 62 1"
definition STATE_CLAIMING :: u64 where "STATE_CLAIMING = push_bit 62 2"
definition VALUE_MASK :: u64 where "VALUE_MASK = push_bit 62 1 - 1"

definition check_alignment :: "nat \<Rightarrow> unit result" where
  "check_alignment align =
     (if align > MAX_POD_ALIGN then Inl (AlignmentError (of_nat align) (of_nat MAX_POD_ALIGN)) else Inr ())"

text \<open>The size of \<open>#[repr(C, align(64))] { stamp: u64, data: T }\<close> for \<open>T\<close> of alignment at most 8.\<close>

definition slot_size :: "nat \<Rightarrow> nat" where
  "slot_size size_of_T = (8 + size_of_T + 63) div 64 * 64"

definition region_size_for_version :: "nat \<Rightarrow> nat \<Rightarrow> u32 \<Rightarrow> nat" where
  "region_size_for_version size_of_T ring_size version =
     (let header_total = if version \<ge> POD_BUS_VERSION_V3
        then POD_BUS_HEADER_SIZE + SUBSCRIBER_SLOTS_SECTION_SIZE else POD_BUS_HEADER_SIZE
      in header_total + ring_size * slot_size size_of_T)"

section \<open>State\<close>

record bus_slot =
  stamp :: u64
  slot_data :: bytes

record sub_slot =
  ss_pid :: u32
  ss_state_cursor :: u64

record bus_shm =
  bh_magic :: bytes
  bh_version :: u32
  bh_ring_size :: u32
  bh_value_size :: u32
  bh_value_align :: u32
  bh_heartbeat :: u64
  bh_write_seq :: u64
  bh_pid :: u64
  bh_watermark :: u32
  sub_slots :: "nat \<Rightarrow> sub_slot"
  bus_ring :: "nat \<Rightarrow> bus_slot"
  bus_len :: nat

record pod_bus =
  bus_mask :: u64
  bus_ring_size :: usize
  bus_name :: string
  bus_created_ino :: "u64 option"
  bus_bounded :: bool
  watermark :: "u64 option"
  cached_slowest :: u64

record bus_subscriber =
  bs_mask :: u64
  bs_ring_size :: usize
  cursor :: u64
  total_lagged :: u64
  slot_index :: "nat option"

abbreviation upd_sub_slot :: "nat \<Rightarrow> (sub_slot \<Rightarrow> sub_slot) \<Rightarrow> bus_shm \<Rightarrow> bus_shm" where
  "upd_sub_slot i f m \<equiv> m\<lparr>sub_slots := (sub_slots m)(i := f (sub_slots m i))\<rparr>"

abbreviation upd_bus_slot :: "nat \<Rightarrow> (bus_slot \<Rightarrow> bus_slot) \<Rightarrow> bus_shm \<Rightarrow> bus_shm" where
  "upd_bus_slot i f m \<equiv> m\<lparr>bus_ring := (bus_ring m)(i := f (bus_ring m i))\<rparr>"

text \<open>A file of \<open>len\<close> zero bytes.\<close>

definition zero_bus :: "nat \<Rightarrow> nat \<Rightarrow> bus_shm" where
  "zero_bus size_of_T len =
     \<lparr>bh_magic = replicate 8 0, bh_version = 0, bh_ring_size = 0, bh_value_size = 0, bh_value_align = 0,
      bh_heartbeat = 0, bh_write_seq = 0, bh_pid = 0, bh_watermark = 0,
      sub_slots = (\<lambda>_. \<lparr>ss_pid = 0, ss_state_cursor = 0\<rparr>),
      bus_ring = (\<lambda>_. \<lparr>stamp = 0, slot_data = replicate size_of_T 0\<rparr>), bus_len = len\<rparr>"

section \<open>Creating a bus\<close>

definition write_bus_header :: "nat \<Rightarrow> nat \<Rightarrow> u32 \<Rightarrow> usize \<Rightarrow> u64 option \<Rightarrow> u32 \<Rightarrow> bus_shm \<Rightarrow> bus_shm" where
  "write_bus_header size_of_T align_of_T version ring_size wm pid m =
     m\<lparr>bh_magic := POD_BUS_MAGIC, bh_version := version, bh_ring_size := as_u32 ring_size,
       bh_value_size := of_nat size_of_T, bh_value_align := of_nat align_of_T, bh_write_seq := 0,
       bh_pid := as_u64 pid, bh_watermark := as_u32 (case wm of Some w \<Rightarrow> w | None \<Rightarrow> 0)\<rparr>"

definition init_sub_slots :: "bus_shm \<Rightarrow> bus_shm" where
  "init_sub_slots m =
     fold (\<lambda>i. upd_sub_slot i (\<lambda>s. s\<lparr>ss_pid := 0, ss_state_cursor := STATE_FREE\<rparr>)) [0..<MAX_SUBSCRIBER_SLOTS] m"

definition init_stamps :: "nat \<Rightarrow> bus_shm \<Rightarrow> bus_shm" where
  "init_stamps ring_size m = fold (\<lambda>i. upd_bus_slot i (\<lambda>s. s\<lparr>stamp := 0\<rparr>)) [0..<ring_size] m"

text \<open>The part of \<open>create_inner\<close> after the file is mapped.\<close>

definition init_bus ::
    "nat \<Rightarrow> nat \<Rightarrow> os_create \<Rightarrow> clock \<Rightarrow> u32 \<Rightarrow> string \<Rightarrow> usize \<Rightarrow> u64 option \<Rightarrow> bus_shm \<Rightarrow> pod_bus result \<times> bus_shm" where
  "init_bus size_of_T align_of_T env clk pid name ring_size wm m =
     (let bounded = wm \<noteq> None;
        version = (if bounded then POD_BUS_VERSION_V3 else POD_BUS_VERSION_V1);
        m = write_bus_header size_of_T align_of_T version ring_size wm pid m;
        m = (if bounded then init_sub_slots m else m);
        m = init_stamps (unat ring_size) m in
      case now_micros clk of
        Inl e \<Rightarrow> (Inl e, m)
      | Inr now \<Rightarrow>
          let m = m\<lparr>bh_heartbeat := now\<rparr> in
          (case shared_lock (oc_lock_sh env) name of
             Inl e \<Rightarrow> (Inl e, m)
           | Inr _ \<Rightarrow>
               (Inr \<lparr>bus_mask = ring_size - 1, bus_ring_size = ring_size, bus_name = name, bus_created_ino = oc_ino env,
                  bus_bounded = bounded, watermark = wm, cached_slowest = 0\<rparr>, m)))"

definition create_inner ::
    "nat \<Rightarrow> nat \<Rightarrow> os_create \<Rightarrow> clock \<Rightarrow> u32 \<Rightarrow> string \<Rightarrow> usize \<Rightarrow> u64 option \<Rightarrow> bus_shm option \<Rightarrow>
     (pod_bus result \<times> bus_shm option) option" where
  "create_inner size_of_T align_of_T env clk pid name ring_size wm file =
     (if \<not> (ring_size > 0 \<and> is_power_of_two ring_size) then None
      else Some (case validate_name name of
        Inl e \<Rightarrow> (Inl e, file)
      | Inr _ \<Rightarrow>
      (case check_alignment align_of_T of
        Inl e \<Rightarrow> (Inl e, file)
      | Inr _ \<Rightarrow>
        let version = (if wm \<noteq> None then POD_BUS_VERSION_V3 else POD_BUS_VERSION_V1);
          sz = region_size_for_version size_of_T (unat ring_size) version in
      (case oc_lock_open env of
        Some e \<Rightarrow> (Inl (Io e), file)
      | None \<Rightarrow>
      (case exclusive_lock (oc_lock_ex env) name of
        Inl e \<Rightarrow> (Inl e, file)
      | Inr _ \<Rightarrow>
        let file = (if oc_remove env then None else file) in
      (case oc_open env of
        Some e \<Rightarrow> (Inl (Io (os_text e)), file)
      | None \<Rightarrow>
      (case oc_set_len env of
        Some e \<Rightarrow> (Inl (Io e), Some (zero_bus size_of_T 0))
      | None \<Rightarrow>
      (case from_file_with_len (oc_map env) sz of
        Inl e \<Rightarrow> (Inl e, Some (zero_bus size_of_T sz))
      | Inr _ \<Rightarrow>
          map_prod id Some (init_bus size_of_T align_of_T env clk pid name ring_size wm (zero_bus size_of_T sz))))))))))"

definition bus_create ::
    "nat \<Rightarrow> nat \<Rightarrow> os_create \<Rightarrow> clock \<Rightarrow> u32 \<Rightarrow> string \<Rightarrow> usize \<Rightarrow> bus_shm option \<Rightarrow> (pod_bus result \<times> bus_shm option) option" where
  "bus_create size_of_T align_of_T env clk pid name ring_size file =
     create_inner size_of_T align_of_T env clk pid name ring_size None file"

definition create_bounded ::
    "nat \<Rightarrow> nat \<Rightarrow> os_create \<Rightarrow> clock \<Rightarrow> u32 \<Rightarrow> string \<Rightarrow> usize \<Rightarrow> usize \<Rightarrow> bus_shm option \<Rightarrow>
     (pod_bus result \<times> bus_shm option) option" where
  "create_bounded size_of_T align_of_T env clk pid name ring_size wm file =
     (if \<not> wm < ring_size then None
      else create_inner size_of_T align_of_T env clk pid name ring_size (Some wm) file)"

section \<open>Publishing\<close>

definition publish_unchecked :: "clock \<Rightarrow> bytes \<Rightarrow> pod_bus \<Rightarrow> bus_shm \<Rightarrow> bus_shm" where
  "publish_unchecked clk value b m =
     (let write_seq = bh_write_seq m;
        m = (if write_seq AND 0x3FF = 0
             then (case now_micros clk of Inr now \<Rightarrow> m\<lparr>bh_heartbeat := now\<rparr> | Inl _ \<Rightarrow> m) else m);
        idx = unat (write_seq AND bus_mask b);
        m = upd_bus_slot idx (\<lambda>s. s\<lparr>stamp := write_seq * 2 + 1\<rparr>) m;
        m = upd_bus_slot idx (\<lambda>s. s\<lparr>slot_data := value\<rparr>) m;
        m = upd_bus_slot idx (\<lambda>s. s\<lparr>stamp := write_seq * 2 + 2\<rparr>) m
      in m\<lparr>bh_write_seq := write_seq + 1\<rparr>)"

text \<open>\<open>kill(pid, 0)\<close> returned \<open>ret\<close> with error \<open>errno\<close>; \<open>EPERM\<close> is 1.\<close>

definition is_pid_alive :: "int \<Rightarrow> int \<Rightarrow> bool" where
  "is_pid_alive ret errno = (if ret = 0 then True else errno = 1)"

fun scan_sub_slots :: "(u32 \<Rightarrow> bool) \<Rightarrow> clock \<Rightarrow> nat list \<Rightarrow> u64 \<Rightarrow> bool \<Rightarrow> bus_shm \<Rightarrow> u64 \<times> bool \<times> bus_shm" where
  "scan_sub_slots alive clk [] min_cursor has_active m = (min_cursor, has_active, m)"
| "scan_sub_slots alive clk (i # is) min_cursor has_active m =
     (let packed = ss_state_cursor (sub_slots m i);
        state = packed AND NOT VALUE_MASK; value = packed AND VALUE_MASK in
      if state = STATE_CLAIMING then
        (case now_micros clk of
           Inr now \<Rightarrow>
             if saturating_sub now value > 5000000
             then scan_sub_slots alive clk is min_cursor has_active
               (upd_sub_slot i (\<lambda>s. s\<lparr>ss_state_cursor := STATE_FREE, ss_pid := 0\<rparr>) m)
             else scan_sub_slots alive clk is min_cursor has_active m
         | Inl _ \<Rightarrow> scan_sub_slots alive clk is min_cursor has_active m)
      else if state = STATE_ACTIVE then
        let pid = ss_pid (sub_slots m i) in
        if pid \<noteq> 0 \<and> \<not> alive pid
        then scan_sub_slots alive clk is min_cursor has_active
          (upd_sub_slot i (\<lambda>s. s\<lparr>ss_state_cursor := STATE_FREE, ss_pid := 0\<rparr>) m)
        else scan_sub_slots alive clk is (if value < min_cursor then value else min_cursor) True m
      else scan_sub_slots alive clk is min_cursor has_active m)"

definition slowest_subscriber_cursor :: "(u32 \<Rightarrow> bool) \<Rightarrow> clock \<Rightarrow> pod_bus \<Rightarrow> bus_shm \<Rightarrow> u64 option \<times> bus_shm" where
  "slowest_subscriber_cursor alive clk b m =
     (if \<not> bus_bounded b then (None, m)
      else let (min_cursor, has_active, m') = scan_sub_slots alive clk [0..<MAX_SUBSCRIBER_SLOTS] (- 1) False m
        in (if has_active then Some min_cursor else None, m'))"

definition try_publish ::
    "(u32 \<Rightarrow> bool) \<Rightarrow> clock \<Rightarrow> bytes \<Rightarrow> pod_bus \<Rightarrow> bus_shm \<Rightarrow> unit result \<times> pod_bus \<times> bus_shm" where
  "try_publish alive clk value b m =
     (case watermark b of
        None \<Rightarrow> (Inr (), b, publish_unchecked clk value b m)
      | Some wm \<Rightarrow>
          let write_seq = bh_write_seq m; effective = bus_ring_size b - wm in
          if write_seq \<ge> cached_slowest b + effective then
            (case slowest_subscriber_cursor alive clk b m of
               (Some slowest, m') \<Rightarrow>
                 let b' = b\<lparr>cached_slowest := slowest\<rparr> in
                 if write_seq \<ge> slowest + effective then (Inl Full, b', m')
                 else (Inr (), b', publish_unchecked clk value b' m')
             | (None, m') \<Rightarrow> (Inr (), b, publish_unchecked clk value b m'))
          else (Inr (), b, publish_unchecked clk value b m))"

text \<open>
  The spin loop of \<open>publish\<close>: the list says what other processes do to the memory before each
  retry; \<open>None\<close> when the list runs out before there is room.
\<close>

fun publish_spin ::
    "(u32 \<Rightarrow> bool) \<Rightarrow> clock \<Rightarrow> bytes \<Rightarrow> (bus_shm \<Rightarrow> bus_shm) list \<Rightarrow> u32 \<Rightarrow> pod_bus \<Rightarrow> bus_shm \<Rightarrow> (pod_bus \<times> bus_shm) option" where
  "publish_spin alive clk value envs spins b m =
     (case try_publish alive clk value b m of
        (Inr _, b', m') \<Rightarrow> Some (b', m')
      | (Inl _, b', m') \<Rightarrow>
          (case envs of
             [] \<Rightarrow> None
           | e # es \<Rightarrow>
               let spins = spins + 1;
                 m' = (if spins AND 0x3FF = 0
                       then (case now_micros clk of Inr now \<Rightarrow> m'\<lparr>bh_heartbeat := now\<rparr> | Inl _ \<Rightarrow> m') else m')
               in publish_spin alive clk value es spins b' (e m')))"

declare publish_spin.simps [simp del]

definition bus_publish ::
    "(u32 \<Rightarrow> bool) \<Rightarrow> clock \<Rightarrow> bytes \<Rightarrow> (bus_shm \<Rightarrow> bus_shm) list \<Rightarrow> pod_bus \<Rightarrow> bus_shm \<Rightarrow> (pod_bus \<times> bus_shm) option" where
  "bus_publish alive clk value envs b m =
     (if watermark b \<noteq> None then publish_spin alive clk value envs 0 b m
      else Some (b, publish_unchecked clk value b m))"

definition bus_heartbeat :: "clock \<Rightarrow> bus_shm \<Rightarrow> unit result \<times> bus_shm" where
  "bus_heartbeat clk m =
     (case now_micros clk of Inl e \<Rightarrow> (Inl e, m) | Inr now \<Rightarrow> (Inr (), m\<lparr>bh_heartbeat := now\<rparr>))"

text \<open>Whether dropping the bus removes the segment file (the lock file is always removed).\<close>

definition bus_drop :: "u64 option \<Rightarrow> pod_bus \<Rightarrow> bool" where
  "bus_drop current b \<longleftrightarrow> (case (bus_created_ino b, current) of (Some created, Some cur) \<Rightarrow> created = cur | _ \<Rightarrow> False)"

section \<open>Subscribing\<close>

fun claim_slot_from :: "clock \<Rightarrow> nat list \<Rightarrow> u64 \<Rightarrow> u32 \<Rightarrow> bus_shm \<Rightarrow> nat result \<times> bus_shm" where
  "claim_slot_from clk [] initial_cursor pid m = (Inl PoolExhausted, m)"
| "claim_slot_from clk (i # is) initial_cursor pid m =
     (let ts = (case now_micros clk of Inr now \<Rightarrow> now | Inl _ \<Rightarrow> 0) AND VALUE_MASK;
        claiming = STATE_CLAIMING OR ts in
      if ss_state_cursor (sub_slots m i) = STATE_FREE then
        let m = upd_sub_slot i (\<lambda>s. s\<lparr>ss_state_cursor := claiming\<rparr>) m;
          m = upd_sub_slot i (\<lambda>s. s\<lparr>ss_pid := pid\<rparr>) m;
          m = upd_sub_slot i (\<lambda>s. s\<lparr>ss_state_cursor := STATE_ACTIVE OR (initial_cursor AND VALUE_MASK)\<rparr>) m
        in (Inr i, m)
      else claim_slot_from clk is initial_cursor pid m)"

definition claim_subscriber_slot :: "clock \<Rightarrow> u64 \<Rightarrow> u32 \<Rightarrow> bus_shm \<Rightarrow> nat result \<times> bus_shm" where
  "claim_subscriber_slot clk initial_cursor pid m =
     claim_slot_from clk [0..<MAX_SUBSCRIBER_SLOTS] initial_cursor pid m"

text \<open>The checks \<open>connect\<close> makes of a mapped file of \<open>len\<close> bytes.\<close>

definition check_bus_header :: "nat \<Rightarrow> nat \<Rightarrow> clock \<Rightarrow> nat \<Rightarrow> bus_shm \<Rightarrow> unit result" where
  "check_bus_header size_of_T align_of_T clk len m =
     (if len < POD_BUS_HEADER_SIZE then Inl (InvalidRegion ''PodBus region too small for header'')
      else if bh_magic m \<noteq> POD_BUS_MAGIC then Inl (InvalidRegion ''invalid PodBus magic (expected XPOD_ZC)'')
      else if bh_version m = POD_BUS_VERSION_V2
      then Inl (InvalidRegion (''PodBus v2 is no longer supported (split-atomic race window); '' @
        ''publisher must be upgraded to v3''))
      else if bh_version m \<noteq> POD_BUS_VERSION_V1 \<and> bh_version m \<noteq> POD_BUS_VERSION_V3
      then Inl (InvalidRegion (''unsupported PodBus version '' @ show_u32 (bh_version m) @ '', expected '' @
        show_u32 POD_BUS_VERSION_V1 @ '' or '' @ show_u32 POD_BUS_VERSION_V3))
      else if bh_ring_size m = 0 \<or> \<not> is_power_of_two (as_usize (bh_ring_size m))
      then Inl (InvalidRegion (''PodBus ring_size '' @ show_u32 (bh_ring_size m) @ '' is not a power of two''))
      else if unat (bh_value_size m) \<noteq> size_of_T
      then Inl (InvalidRegion (''PodBus value_size mismatch: file has '' @ show_u32 (bh_value_size m) @
        '', type needs '' @ dec size_of_T))
      else if unat (bh_value_align m) \<noteq> align_of_T
      then Inl (InvalidRegion (''PodBus value_align mismatch: file has '' @ show_u32 (bh_value_align m) @
        '', type needs '' @ dec align_of_T))
      else
        let expected_size = region_size_for_version size_of_T (unat (bh_ring_size m)) (bh_version m) in
        if len < expected_size
        then Inl (InvalidRegion (''PodBus region size '' @ dec len @ '' < expected '' @ dec expected_size))
        else (case now_micros clk of
            Inl e \<Rightarrow> Inl e
          | Inr now \<Rightarrow>
              if saturating_sub now (bh_heartbeat m) > HEARTBEAT_STALE_US then Inl PublisherDead else Inr ()))"

text \<open>\<open>lock_err\<close>, \<open>open_err\<close>, \<open>meta\<close> and \<open>map_err\<close> are the system's answers; the claim of a slot changes the memory.\<close>

definition bus_connect ::
    "nat \<Rightarrow> nat \<Rightarrow> string option \<Rightarrow> bool \<Rightarrow> string option \<Rightarrow> string option \<Rightarrow> string option \<Rightarrow> clock \<Rightarrow> u32 \<Rightarrow> string \<Rightarrow>
     bus_shm \<Rightarrow> bus_subscriber result \<times> bus_shm" where
  "bus_connect size_of_T align_of_T lock_err lock_ok open_err meta map_err clk pid name m =
     (case validate_name name of
        Inl e \<Rightarrow> (Inl e, m)
      | Inr _ \<Rightarrow>
      (case check_alignment align_of_T of
        Inl e \<Rightarrow> (Inl e, m)
      | Inr _ \<Rightarrow>
      (case lock_err of
        Some e \<Rightarrow> (Inl (Io e), m)
      | None \<Rightarrow>
      (case shared_lock lock_ok name of
        Inl e \<Rightarrow> (Inl e, m)
      | Inr _ \<Rightarrow>
      (case open_err of
        Some e \<Rightarrow> (Inl (Io e), m)
      | None \<Rightarrow>
      (case from_file meta map_err (bus_len m) of
        Inl e \<Rightarrow> (Inl e, m)
      | Inr len \<Rightarrow>
      (case check_bus_header size_of_T align_of_T clk len m of
        Inl e \<Rightarrow> (Inl e, m)
      | Inr _ \<Rightarrow>
        let ring_size = as_usize (bh_ring_size m); cur = bh_write_seq m;
          sub = \<lparr>bs_mask = ring_size - 1, bs_ring_size = ring_size, cursor = cur, total_lagged = 0, slot_index = None\<rparr> in
        if bh_version m = POD_BUS_VERSION_V3 then
          (case claim_subscriber_slot clk cur pid m of
             (Inl e, m') \<Rightarrow> (Inl e, m')
           | (Inr i, m') \<Rightarrow> (Inr (sub\<lparr>slot_index := Some i\<rparr>), m'))
        else (Inr sub, m))))))))"

text \<open>A subscriber of the publisher's own process, and the accessors.\<close>

definition bus_subscribe ::
    "nat \<Rightarrow> nat \<Rightarrow> string option \<Rightarrow> bool \<Rightarrow> string option \<Rightarrow> string option \<Rightarrow> string option \<Rightarrow> clock \<Rightarrow> u32 \<Rightarrow> pod_bus \<Rightarrow>
     bus_shm \<Rightarrow> bus_subscriber result \<times> bus_shm" where
  "bus_subscribe size_of_T align_of_T lock_err lock_ok open_err meta map_err clk pid b m =
     bus_connect size_of_T align_of_T lock_err lock_ok open_err meta map_err clk pid (bus_name b) m"

definition published_count :: "bus_shm \<Rightarrow> u64" where
  "published_count m = bh_write_seq m"

definition is_bounded :: "pod_bus \<Rightarrow> bool" where
  "is_bounded b \<longleftrightarrow> watermark b \<noteq> None"

section \<open>Receiving\<close>

definition update_shm_cursor :: "u64 \<Rightarrow> bus_subscriber \<Rightarrow> bus_shm \<Rightarrow> bus_shm" where
  "update_shm_cursor new_cursor sub m =
     (case slot_index sub of
        Some i \<Rightarrow> upd_sub_slot i (\<lambda>s. s\<lparr>ss_state_cursor := STATE_ACTIVE OR (new_cursor AND VALUE_MASK)\<rparr>) m
      | None \<Rightarrow> m)"

text \<open>The skip of a reader more than a ring behind the head it loaded.\<close>

definition skip_ahead :: "u64 \<Rightarrow> bus_subscriber \<Rightarrow> bus_subscriber" where
  "skip_ahead head sub =
     (if head - cursor sub > bs_ring_size sub
      then sub\<lparr>total_lagged := total_lagged sub + (head - bs_ring_size sub - cursor sub), cursor := head - bs_ring_size sub\<rparr>
      else sub)"

text \<open>The rest of \<open>try_recv\<close>, on the two loads of the stamp and the value read between them.\<close>

definition recv_slot :: "u64 \<Rightarrow> bytes \<Rightarrow> u64 \<Rightarrow> bus_subscriber \<Rightarrow> bytes option \<times> bus_subscriber" where
  "recv_slot stamp_before value stamp_after sub =
     (if stamp_before AND 1 \<noteq> 0 then (None, sub)
      else if stamp_before = 0 then (None, sub)
      else if stamp_after \<noteq> stamp_before then (None, sub)
      else if stamp_before \<noteq> cursor sub * 2 + 2 then
        let written_seq = stamp_before div 2 - 1; skipped = written_seq + 1 - cursor sub in
        (None, sub\<lparr>total_lagged := total_lagged sub + skipped, cursor := written_seq + 1\<rparr>)
      else (Some value, sub\<lparr>cursor := cursor sub + 1\<rparr>))"

definition bus_try_recv :: "bus_subscriber \<Rightarrow> bus_shm \<Rightarrow> bytes option \<times> bus_subscriber \<times> bus_shm" where
  "bus_try_recv sub m =
     (let head = bh_write_seq m in
      if cursor sub \<ge> head then (None, sub, m)
      else
        let sub = skip_ahead head sub;
          slot = bus_ring m (unat (cursor sub AND bs_mask sub)) in
        (case recv_slot (stamp slot) (slot_data slot) (stamp slot) sub of
           (None, sub') \<Rightarrow> (None, sub', m)
         | (Some v, sub') \<Rightarrow> (Some v, sub', update_shm_cursor (cursor sub') sub' m)))"

definition bus_subscriber_drop :: "bus_subscriber \<Rightarrow> bus_shm \<Rightarrow> bus_shm" where
  "bus_subscriber_drop sub m =
     (case slot_index sub of
        Some i \<Rightarrow> upd_sub_slot i (\<lambda>s. s\<lparr>ss_state_cursor := STATE_FREE, ss_pid := 0\<rparr>) m
      | None \<Rightarrow> m)"

end
