(* ===== verification/Lossless.thy ===== *)
theory Lossless
  imports PodBus
begin

unbundle bit_operations_syntax

text \<open>
  The broadcast ring as a transition system: one publisher and any number of subscribers that
  connect, receive, drop and crash in any order.  \<open>by_hist\<close> is a ghost, the values published so
  far.  The invariant \<open>businv\<close> ties every ring slot to the history and, on a bounded bus, every
  attached subscriber to its slot in the table; from it a receive returns exactly the next value,
  and on a bounded bus no value is ever lost.
\<close>

section \<open>Steps\<close>

record bus_system =
  by_bus :: pod_bus
  by_shm :: bus_shm
  by_subs :: "(u32 \<times> bus_subscriber) list"
  by_hist :: "bytes list"

text \<open>Fewer than \<open>2^62\<close> values are published, so that a cursor fits its 62 bits.\<close>

definition bus_room :: "bus_shm \<Rightarrow> bool" where
  "bus_room m \<longleftrightarrow> unat (bh_write_seq m) + 1 < 2 ^ 62"

inductive bus_step :: "nat \<Rightarrow> nat \<Rightarrow> bus_system \<Rightarrow> bus_system \<Rightarrow> bool" for sz al where
  b_publish: "try_publish alive clk value (by_bus \<beta>) (by_shm \<beta>) = (Inr u, b', m') \<Longrightarrow> bus_room (by_shm \<beta>) \<Longrightarrow>
    \<forall>(pid, _) \<in> set (by_subs \<beta>). alive pid \<Longrightarrow>
    bus_step sz al \<beta> (\<beta>\<lparr>by_bus := b', by_shm := m', by_hist := by_hist \<beta> @ [value]\<rparr>)"
| b_full: "try_publish alive clk value (by_bus \<beta>) (by_shm \<beta>) = (Inl e, b', m') \<Longrightarrow>
    \<forall>(pid, _) \<in> set (by_subs \<beta>). alive pid \<Longrightarrow>
    bus_step sz al \<beta> (\<beta>\<lparr>by_bus := b', by_shm := m'\<rparr>)"
| b_heartbeat: "bus_heartbeat clk (by_shm \<beta>) = (res, m') \<Longrightarrow> bus_step sz al \<beta> (\<beta>\<lparr>by_shm := m'\<rparr>)"
| b_connect: "bus_connect sz al lock_err lock_ok open_err meta map_err clk pid name (by_shm \<beta>) = (Inr sub, m') \<Longrightarrow>
    bus_step sz al \<beta> (\<beta>\<lparr>by_shm := m', by_subs := by_subs \<beta> @ [(pid, sub)]\<rparr>)"
| b_recv: "by_subs \<beta> = xs @ (pid, sub) # ys \<Longrightarrow> bus_try_recv sub (by_shm \<beta>) = (res, sub', m') \<Longrightarrow>
    bus_step sz al \<beta> (\<beta>\<lparr>by_shm := m', by_subs := xs @ (pid, sub') # ys\<rparr>)"
| b_drop: "by_subs \<beta> = xs @ (pid, sub) # ys \<Longrightarrow>
    bus_step sz al \<beta> (\<beta>\<lparr>by_shm := bus_subscriber_drop sub (by_shm \<beta>), by_subs := xs @ ys\<rparr>)"
| b_crash: "by_subs \<beta> = xs @ (pid, sub) # ys \<Longrightarrow> bus_step sz al \<beta> (\<beta>\<lparr>by_subs := xs @ ys\<rparr>)"

inductive bus_reach :: "nat \<Rightarrow> nat \<Rightarrow> bus_system \<Rightarrow> bool" for sz al where
  bus_init: "bus_create sz al env clk pid name n file = Some (Inr b, Some m) \<Longrightarrow>
    bus_reach sz al \<lparr>by_bus = b, by_shm = m, by_subs = [], by_hist = []\<rparr>"
| bus_init_bounded: "create_bounded sz al env clk pid name n wm file = Some (Inr b, Some m) \<Longrightarrow>
    bus_reach sz al \<lparr>by_bus = b, by_shm = m, by_subs = [], by_hist = []\<rparr>"
| bus_next: "bus_reach sz al \<beta> \<Longrightarrow> bus_step sz al \<beta> \<beta>' \<Longrightarrow> bus_reach sz al \<beta>'"

section \<open>The packed slot word\<close>

lemma VALUE_MASK_eq: "VALUE_MASK = mask 62"
  by (simp add: VALUE_MASK_def mask_eq_exp_minus_1 push_bit_eq_mult)

lemma and_VALUE_MASK: "unat c < 2 ^ 62 \<Longrightarrow> c AND VALUE_MASK = c"
  by (simp add: VALUE_MASK_eq word_unat_eq_iff unsigned_take_bit_eq take_bit_nat_eq_self flip: take_bit_eq_mask)

lemma bit_STATE_ACTIVE: "bit STATE_ACTIVE n \<longleftrightarrow> n = 62"
  unfolding STATE_ACTIVE_def bit_push_bit_iff bit_1_iff by auto

lemma active_state:
  "(STATE_ACTIVE OR (c AND VALUE_MASK)) AND NOT VALUE_MASK = STATE_ACTIVE"
  "(STATE_ACTIVE OR (c AND VALUE_MASK)) AND VALUE_MASK = c AND VALUE_MASK"
  by (rule bit_word_eqI; auto simp: VALUE_MASK_eq bit_STATE_ACTIVE bit_and_iff bit_or_iff bit_not_iff bit_mask_iff)+

lemma states_distinct: "STATE_ACTIVE \<noteq> STATE_CLAIMING" "STATE_ACTIVE \<noteq> STATE_FREE" "STATE_CLAIMING \<noteq> STATE_FREE"
  by (simp_all add: STATE_ACTIVE_def STATE_CLAIMING_def STATE_FREE_def push_bit_eq_mult)

definition slot_live :: "(u32 \<Rightarrow> bool) \<Rightarrow> sub_slot \<Rightarrow> bool" where
  "slot_live alive s \<longleftrightarrow> ss_state_cursor s AND NOT VALUE_MASK = STATE_ACTIVE \<and> (ss_pid s = 0 \<or> alive (ss_pid s))"

abbreviation slot_value :: "sub_slot \<Rightarrow> u64" where
  "slot_value s \<equiv> ss_state_cursor s AND VALUE_MASK"

text \<open>The scan finds a lower bound of the cursors of all live slots, keeps those slots, and changes nothing else.\<close>

lemma scan_sub_slots_spec:
  assumes "scan_sub_slots alive clk is mn ha m = (mn', ha', m')" "distinct is"
  shows "m' = m\<lparr>sub_slots := sub_slots m'\<rparr> \<and> mn' \<le> mn \<and> (ha \<longrightarrow> ha') \<and>
    (\<forall>i. i \<notin> set is \<or> slot_live alive (sub_slots m i) \<longrightarrow> sub_slots m' i = sub_slots m i) \<and>
    (\<forall>i \<in> set is. slot_live alive (sub_slots m i) \<longrightarrow> ha' \<and> mn' \<le> slot_value (sub_slots m i)) \<and>
    (mn' = mn \<or> (\<exists>i \<in> set is. slot_live alive (sub_slots m i) \<and> mn' = slot_value (sub_slots m i)))"
  using assms
proof (induction "is" arbitrary: mn ha m)
  case (Cons i "is")
  let ?packed = "ss_state_cursor (sub_slots m i)"
  let ?state = "?packed AND NOT VALUE_MASK" and ?pid = "ss_pid (sub_slots m i)"
  let ?freed = "upd_sub_slot i (\<lambda>s. s\<lparr>ss_state_cursor := STATE_FREE, ss_pid := 0\<rparr>) m"
  have d: "distinct is" "i \<notin> set is" using Cons.prems(2) by auto
  consider (live) "slot_live alive (sub_slots m i)"
      "scan_sub_slots alive clk is (if slot_value (sub_slots m i) < mn then slot_value (sub_slots m i) else mn) True m = (mn', ha', m')"
    | (keep) "\<not> slot_live alive (sub_slots m i)" "scan_sub_slots alive clk is mn ha m = (mn', ha', m')"
    | (prune) "\<not> slot_live alive (sub_slots m i)" "scan_sub_slots alive clk is mn ha ?freed = (mn', ha', m')"
    using Cons.prems(1) states_distinct(1)
    by (auto simp: slot_live_def Let_def split: if_splits sum.splits)
  then show ?case
  proof cases
    case live
    from Cons.IH [OF live(2) d(1)] live(1) d(2) show ?thesis by (auto simp: not_less split: if_splits)
  next
    case keep
    from Cons.IH [OF keep(2) d(1)] keep(1) show ?thesis by auto
  next
    case prune
    have same: "sub_slots ?freed j = sub_slots m j" if "j \<noteq> i" for j using that by simp
    from Cons.IH [OF prune(2) d(1)] prune(1) d(2) same show ?thesis by (auto split: if_splits)
  qed
qed simp

text \<open>A slot the scan changes is pruned, and the flag is set only by a live slot.\<close>

lemma scan_sub_slots_free:
  "scan_sub_slots alive clk is mn ha m = (mn', ha', m') \<Longrightarrow>
     sub_slots m' i = sub_slots m i \<or> ss_state_cursor (sub_slots m' i) = STATE_FREE"
proof (induction "is" arbitrary: mn ha m)
  case (Cons j "is")
  let ?freed = "upd_sub_slot j (\<lambda>s. s\<lparr>ss_state_cursor := STATE_FREE, ss_pid := 0\<rparr>) m"
  from Cons.prems obtain mn1 ha1 m1 where "scan_sub_slots alive clk is mn1 ha1 m1 = (mn', ha', m')" "m1 = m \<or> m1 = ?freed"
    by (simp only: scan_sub_slots.simps Let_def split: if_splits sum.splits) blast+
  from Cons.IH [OF this(1)] this(2) show ?case by (cases "i = j") auto
qed simp

lemma scan_sub_slots_active:
  "scan_sub_slots alive clk is mn ha m = (mn', ha', m') \<Longrightarrow> distinct is \<Longrightarrow> ha' \<Longrightarrow>
     ha \<or> (\<exists>i \<in> set is. slot_live alive (sub_slots m i))"
proof (induction "is" arbitrary: mn ha m)
  case (Cons j "is")
  let ?freed = "upd_sub_slot j (\<lambda>s. s\<lparr>ss_state_cursor := STATE_FREE, ss_pid := 0\<rparr>) m"
  show ?case
  proof (cases "slot_live alive (sub_slots m j)")
    case False
    then obtain m1 where m1: "scan_sub_slots alive clk is mn ha m1 = (mn', ha', m')" "m1 = m \<or> m1 = ?freed"
      using Cons.prems(1) by (auto simp: slot_live_def Let_def split: if_splits sum.splits)
    have "sub_slots m1 i = sub_slots m i" if "i \<in> set is" for i using that m1(2) Cons.prems(2) by auto
    with Cons.IH [OF m1(1) _ Cons.prems(3)] Cons.prems(2) show ?thesis by auto
  qed simp
qed simp

section \<open>The invariant\<close>

definition bus_ok :: "pod_bus \<Rightarrow> bus_shm \<Rightarrow> bool" where
  "bus_ok b m \<longleftrightarrow> is_power_of_two (bus_ring_size b) \<and> bus_mask b = bus_ring_size b - 1 \<and>
     bus_bounded b = (watermark b \<noteq> None) \<and> (\<forall>w. watermark b = Some w \<longrightarrow> w < bus_ring_size b) \<and>
     bh_version m = (if bus_bounded b then POD_BUS_VERSION_V3 else POD_BUS_VERSION_V1) \<and>
     bh_ring_size m = as_u32 (bus_ring_size b) \<and> cached_slowest b \<le> bh_write_seq m"

text \<open>The last \<open>n\<close> values of the history are in the ring.\<close>

definition ring_holds :: "nat \<Rightarrow> bus_shm \<Rightarrow> bytes list \<Rightarrow> bool" where
  "ring_holds n m hist \<longleftrightarrow> length hist = unat (bh_write_seq m) \<and> unat (bh_write_seq m) < 2 ^ 62 \<and>
     (\<forall>q < length hist. length hist \<le> q + n \<longrightarrow>
        bus_ring m (q mod n) = \<lparr>stamp = of_nat (2 * q + 2), slot_data = hist ! q\<rparr>)"

definition table_ok :: "bus_shm \<Rightarrow> bool" where
  "table_ok m \<longleftrightarrow> (\<forall>i < MAX_SUBSCRIBER_SLOTS. ss_state_cursor (sub_slots m i) = STATE_FREE \<or>
     (\<exists>c \<le> bh_write_seq m. ss_state_cursor (sub_slots m i) = STATE_ACTIVE OR (c AND VALUE_MASK)))"

definition capacity :: "pod_bus \<Rightarrow> nat" where
  "capacity b = unat (bus_ring_size b - the (watermark b))"

definition sub_ok :: "pod_bus \<Rightarrow> bus_shm \<Rightarrow> u32 \<times> bus_subscriber \<Rightarrow> bool" where
  "sub_ok b m ps \<longleftrightarrow> (let (pid, sub) = ps in
     bs_ring_size sub = bus_ring_size b \<and> bs_mask sub = bus_mask b \<and> cursor sub \<le> bh_write_seq m \<and>
     (case slot_index sub of
        None \<Rightarrow> \<not> bus_bounded b
      | Some i \<Rightarrow> bus_bounded b \<and> i < MAX_SUBSCRIBER_SLOTS \<and>
          sub_slots m i = \<lparr>ss_pid = pid, ss_state_cursor = STATE_ACTIVE OR (cursor sub AND VALUE_MASK)\<rparr> \<and>
          cached_slowest b \<le> cursor sub \<and> total_lagged sub = 0 \<and>
          unat (bh_write_seq m) \<le> unat (cursor sub) + capacity b))"

definition slots_apart :: "(u32 \<times> bus_subscriber) list \<Rightarrow> bool" where
  "slots_apart subs \<longleftrightarrow> distinct (List.map_filter (slot_index \<circ> snd) subs)"

definition businv :: "bus_system \<Rightarrow> bool" where
  "businv \<beta> \<longleftrightarrow> bus_ok (by_bus \<beta>) (by_shm \<beta>) \<and> ring_holds (unat (bus_ring_size (by_bus \<beta>))) (by_shm \<beta>) (by_hist \<beta>) \<and>
     table_ok (by_shm \<beta>) \<and> (\<forall>ps \<in> set (by_subs \<beta>). sub_ok (by_bus \<beta>) (by_shm \<beta>) ps) \<and> slots_apart (by_subs \<beta>)"

section \<open>Publishing keeps it\<close>

lemma bus_slot_written [simp]: "(s :: bus_slot)\<lparr>slot_data := v, stamp := x\<rparr> = \<lparr>stamp = x, slot_data = v\<rparr>"
  by (cases s) simp

lemma publish_unchecked_frame:
  fixes m b clk v
  defines "m' \<equiv> publish_unchecked clk v b m"
  shows "bus_ring m' = (bus_ring m)(unat (bh_write_seq m AND bus_mask b) := \<lparr>stamp = bh_write_seq m * 2 + 2, slot_data = v\<rparr>)"
    "bh_write_seq m' = bh_write_seq m + 1" "sub_slots m' = sub_slots m" "bh_version m' = bh_version m"
    "bh_ring_size m' = bh_ring_size m"
  by (simp_all add: m'_def publish_unchecked_def Let_def now_micros_def split: sum.splits option.splits)

lemma ring_holds_publish:
  assumes "ring_holds n m hist" "0 < n" "unat (bh_write_seq m) + 1 < 2 ^ 62"
    and "bus_ring m' = (bus_ring m)(unat (bh_write_seq m) mod n := \<lparr>stamp = bh_write_seq m * 2 + 2, slot_data = v\<rparr>)"
    and "bh_write_seq m' = bh_write_seq m + 1"
  shows "ring_holds n m' (hist @ [v])"
proof -
  let ?w = "bh_write_seq m"
  have w: "unat (?w + 1) = unat ?w + 1" using assms(3) by (simp add: unat_word_ariths)
  have l: "length hist = unat ?w" using assms(1) by (simp add: ring_holds_def)
  have st: "?w * 2 + 2 = of_nat (2 * unat ?w + 2)" by (simp add: mult.commute)
  have "bus_ring m' (q mod n) = \<lparr>stamp = of_nat (2 * q + 2), slot_data = (hist @ [v]) ! q\<rparr>"
    if q: "q < length (hist @ [v])" "length (hist @ [v]) \<le> q + n" for q
  proof (cases "q = unat ?w")
    case True
    then show ?thesis using l st by (simp add: assms(4) nth_append)
  next
    case False
    then have q': "q < length hist" "length hist \<le> q + n" using q l by simp_all
    have "q mod n \<noteq> unat ?w mod n" using mod_apart [of q "unat ?w" n] q' q(2) l by simp
    with assms(1) q' show ?thesis by (simp add: assms(4) ring_holds_def nth_append)
  qed
  then show ?thesis using l w assms(3) by (simp add: ring_holds_def assms(5))
qed

text \<open>A rescan, or no rescan: the table keeps its live slots, and the cached cursor bounds them from below.\<close>

lemma table_slot:
  assumes "table_ok m" "i < MAX_SUBSCRIBER_SLOTS" "unat (bh_write_seq m) < 2 ^ 62" "slot_live alive (sub_slots m i)"
  shows "slot_value (sub_slots m i) \<le> bh_write_seq m"
proof -
  have "ss_state_cursor (sub_slots m i) \<noteq> STATE_FREE"
    using assms(4) states_distinct(2) by (auto simp: slot_live_def STATE_FREE_def)
  with assms(1,2) obtain c where c: "c \<le> bh_write_seq m" "ss_state_cursor (sub_slots m i) = STATE_ACTIVE OR (c AND VALUE_MASK)"
    unfolding table_ok_def by blast
  have "unat c < 2 ^ 62" using c(1) assms(3) by (simp add: word_le_nat_alt)
  then show ?thesis unfolding c(2) active_state(2) by (simp only: and_VALUE_MASK c(1))
qed

lemma slowest_spec:
  assumes sl: "slowest_subscriber_cursor alive clk b m = (res, m')" and b: "bus_bounded b"
    and tab: "table_ok m" "unat (bh_write_seq m) < 2 ^ 62"
  shows "m' = m\<lparr>sub_slots := sub_slots m'\<rparr> \<and> table_ok m' \<and>
    (\<forall>i. slot_live alive (sub_slots m i) \<longrightarrow> sub_slots m' i = sub_slots m i) \<and>
    (case res of
       None \<Rightarrow> \<forall>i < MAX_SUBSCRIBER_SLOTS. \<not> slot_live alive (sub_slots m i)
     | Some s \<Rightarrow> s \<le> bh_write_seq m \<and>
        (\<exists>i < MAX_SUBSCRIBER_SLOTS. slot_live alive (sub_slots m i) \<and> s = slot_value (sub_slots m i)) \<and>
        (\<forall>i < MAX_SUBSCRIBER_SLOTS. slot_live alive (sub_slots m i) \<longrightarrow> s \<le> slot_value (sub_slots m i)))"
proof -
  obtain mn ha m1 where sc: "scan_sub_slots alive clk [0..<MAX_SUBSCRIBER_SLOTS] (- 1) False m = (mn, ha, m1)"
    by (metis prod_cases3)
  have res: "res = (if ha then Some mn else None)" and m1: "m' = m1"
    using sl b by (auto simp: slowest_subscriber_cursor_def sc)
  note S = scan_sub_slots_spec [OF sc distinct_upt, folded m1, simplified]
    and F = scan_sub_slots_free [OF sc, folded m1] and A = scan_sub_slots_active [OF sc distinct_upt, simplified]
  have "bh_write_seq m' = bh_write_seq m" using S by (metis bus_shm.select_convs(7) bus_shm.surjective bus_shm.update_convs(10))
  then have "table_ok m'" using F tab(1) unfolding table_ok_def by metis
  moreover have "\<exists>i < MAX_SUBSCRIBER_SLOTS. slot_live alive (sub_slots m i) \<and> mn = slot_value (sub_slots m i)" if ha
  proof -
    from A that obtain i where i: "i < MAX_SUBSCRIBER_SLOTS" "slot_live alive (sub_slots m i)" by auto
    have "mn \<le> slot_value (sub_slots m i)" using S i by (metis atLeastLessThan_iff le0)
    also have "\<dots> \<le> bh_write_seq m" by (rule table_slot [OF tab(1) i(1) tab(2) i(2)])
    finally have "mn \<le> bh_write_seq m" .
    then have "mn \<noteq> - 1" using tab(2) by (auto simp: word_le_nat_alt unsigned_minus_1_eq_mask mask_eq_exp_minus_1)
    then show ?thesis using S by auto
  qed
  ultimately show ?thesis using S table_slot [OF tab(1) _ tab(2)] by (auto simp: res)
qed

lemma unat_add_le: "unat (a + b) \<le> unat a + unat (b :: u64)"
  by (simp add: unat_word_ariths)

text \<open>
  What \<open>try_publish\<close> does, in two parts: a possible rescan, which leaves \<open>m\<^sub>1\<close> and a new lower bound
  \<open>c\<close> of the cursors, and then the write or the refusal.
\<close>

definition rescanned :: "(u32 \<Rightarrow> bool) \<Rightarrow> pod_bus \<Rightarrow> bus_shm \<Rightarrow> bus_shm \<Rightarrow> u64 \<Rightarrow> bool" where
  "rescanned alive b m m1 c \<longleftrightarrow> m1 = m\<lparr>sub_slots := sub_slots m1\<rparr> \<and> table_ok m1 \<and>
     (\<forall>i. slot_live alive (sub_slots m i) \<longrightarrow> sub_slots m1 i = sub_slots m i) \<and> c \<le> bh_write_seq m \<and>
     (c = cached_slowest b \<or> (\<forall>i < MAX_SUBSCRIBER_SLOTS. slot_live alive (sub_slots m i) \<longrightarrow> c \<le> slot_value (sub_slots m i)))"

lemma try_publish_spec:
  assumes tp: "try_publish alive clk v b m = (res, b', m')"
    and ok: "bus_ok b m" "table_ok m" "unat (bh_write_seq m) < 2 ^ 62"
  shows "\<exists>m1 c. rescanned alive b m m1 c \<and> b' = b\<lparr>cached_slowest := c\<rparr> \<and>
    (case res of
       Inr _ \<Rightarrow> m' = publish_unchecked clk v b' m1 \<and>
         (watermark b = None \<or> (\<forall>i < MAX_SUBSCRIBER_SLOTS. slot_live alive (sub_slots m i) \<longrightarrow>
            cached_slowest b \<le> slot_value (sub_slots m i) \<longrightarrow>
            unat (bh_write_seq m) < unat (slot_value (sub_slots m i)) + capacity b))
     | Inl e \<Rightarrow> m' = m1 \<and> e = Full \<and> (\<exists>i < MAX_SUBSCRIBER_SLOTS. slot_live alive (sub_slots m i) \<and>
         slot_value (sub_slots m i) + (bus_ring_size b - the (watermark b)) \<le> bh_write_seq m))"
proof -
  let ?w = "bh_write_seq m" and ?eff = "bus_ring_size b - the (watermark b)"
  have same: "rescanned alive b m m (cached_slowest b)" using ok by (simp add: rescanned_def bus_ok_def)
  have room: "unat ?w < unat x + capacity b" if "s \<le> x" "?w < s + ?eff" for s x
  proof -
    have "unat ?w < unat s + unat ?eff" using that(2) unat_add_le [of s ?eff] by (simp add: word_less_nat_alt)
    also have "\<dots> \<le> unat x + capacity b" using that(1) by (simp add: word_le_nat_alt capacity_def)
    finally show ?thesis .
  qed
  show ?thesis
  proof (cases "watermark b = None \<or> ?w < cached_slowest b + ?eff")
    case True
    then have "watermark b = None \<or> \<not> cached_slowest b + ?eff \<le> ?w" by (simp add: not_le)
    then have "res = Inr ()" "b' = b" "m' = publish_unchecked clk v b m"
      using tp by (auto simp: try_publish_def Let_def split: option.splits)
    with same True room [of "cached_slowest b"] show ?thesis by (intro exI [of _ m] exI [of _ "cached_slowest b"]) auto
  next
    case False
    then obtain wm where wm: "watermark b = Some wm" by auto
    have bd: "bus_bounded b" using ok(1) wm by (simp add: bus_ok_def)
    obtain sl m1 where s: "slowest_subscriber_cursor alive clk b m = (sl, m1)"
      by (cases "slowest_subscriber_cursor alive clk b m")
    note S = slowest_spec [OF s bd ok(2,3)]
    have tp': "try_publish alive clk v b m =
        (case sl of
           Some slowest \<Rightarrow> let b' = b\<lparr>cached_slowest := slowest\<rparr> in
             if ?w \<ge> slowest + ?eff then (Inl Full, b', m1) else (Inr (), b', publish_unchecked clk v b' m1)
         | None \<Rightarrow> (Inr (), b, publish_unchecked clk v b m1))"
      using False s by (simp add: try_publish_def wm Let_def not_less split: option.split)
    show ?thesis
    proof (cases sl)
      case None
      then have "res = Inr ()" "b' = b" "m' = publish_unchecked clk v b m1" using tp tp' by auto
      moreover have "rescanned alive b m m1 (cached_slowest b)" using S same by (auto simp: rescanned_def)
      ultimately show ?thesis using S None by (intro exI [of _ m1] exI [of _ "cached_slowest b"]) auto
    next
      case (Some slowest)
      have re: "rescanned alive b m m1 slowest" using S Some by (auto simp: rescanned_def)
      show ?thesis
      proof (cases "?w \<ge> slowest + ?eff")
        case True
        then have "res = Inl Full" "b' = b\<lparr>cached_slowest := slowest\<rparr>" "m' = m1" using tp tp' Some by simp_all
        with re S Some True show ?thesis by (intro exI [of _ m1] exI [of _ slowest]) auto
      next
        case False
        then have "res = Inr ()" "b' = b\<lparr>cached_slowest := slowest\<rparr>" "m' = publish_unchecked clk v b' m1"
          using tp tp' Some by (auto simp: Let_def)
        with re S Some False room [of slowest] show ?thesis
          by (intro exI [of _ m1] exI [of _ slowest]) (auto simp: not_le)
      qed
    qed
  qed
qed

lemma rescanned_fields:
  assumes "rescanned alive b m m1 c"
  shows "bh_write_seq m1 = bh_write_seq m" "bus_ring m1 = bus_ring m" "bh_version m1 = bh_version m"
    "bh_ring_size m1 = bh_ring_size m"
proof -
  obtain ss where "m1 = m\<lparr>sub_slots := ss\<rparr>" using assms unfolding rescanned_def by blast
  then show "bh_write_seq m1 = bh_write_seq m" "bus_ring m1 = bus_ring m" "bh_version m1 = bh_version m"
    "bh_ring_size m1 = bh_ring_size m" by simp_all
qed

lemma attached_live:
  assumes "sub_ok b m (pid, sub)" "alive pid" "slot_index sub = Some i" "unat (bh_write_seq m) < 2 ^ 62"
  shows "i < MAX_SUBSCRIBER_SLOTS" "slot_live alive (sub_slots m i)" "slot_value (sub_slots m i) = cursor sub"
proof -
  have c: "unat (cursor sub) < 2 ^ 62" using assms(1,4) by (simp add: sub_ok_def word_le_nat_alt)
  have s: "sub_slots m i = \<lparr>ss_pid = pid, ss_state_cursor = STATE_ACTIVE OR (cursor sub AND VALUE_MASK)\<rparr>"
    and "i < MAX_SUBSCRIBER_SLOTS" using assms(1,3) by (simp_all add: sub_ok_def)
  then show "i < MAX_SUBSCRIBER_SLOTS" by simp
  show "slot_live alive (sub_slots m i)" using assms(2) unfolding s slot_live_def sub_slot.select_convs active_state by simp
  show "slot_value (sub_slots m i) = cursor sub"
    unfolding s sub_slot.select_convs active_state by (rule and_VALUE_MASK [OF c])
qed

lemma rescanned_sub_ok:
  assumes "sub_ok b m (pid, sub)" "alive pid" "rescanned alive b m m1 c" "unat (bh_write_seq m) < 2 ^ 62"
  shows "sub_ok (b\<lparr>cached_slowest := c\<rparr>) m1 (pid, sub)"
proof (cases "slot_index sub")
  case None
  then show ?thesis using assms(1) by (simp add: sub_ok_def rescanned_fields [OF assms(3)])
next
  case (Some i)
  note live = attached_live [where alive = alive, OF assms(1,2) Some assms(4)]
  have "sub_slots m1 i = sub_slots m i" "c \<le> cursor sub"
    using assms(1,3) live Some unfolding rescanned_def by (auto simp: sub_ok_def)
  then show ?thesis using assms(1) Some by (simp add: sub_ok_def rescanned_fields [OF assms(3)] capacity_def)
qed

lemma sub_ok_publish:
  assumes "sub_ok b m ps" "unat (bh_write_seq m) + 1 < 2 ^ 62"
    and "slot_index (snd ps) \<noteq> None \<Longrightarrow> unat (bh_write_seq m) < unat (cursor (snd ps)) + capacity b"
  shows "sub_ok b (publish_unchecked clk v b m) ps"
proof -
  have "unat (bh_write_seq m + 1) = unat (bh_write_seq m) + 1" using assms(2) by (simp add: unat_word_ariths)
  with assms show ?thesis
    by (cases ps) (auto simp: sub_ok_def publish_unchecked_frame word_le_nat_alt split: option.splits)
qed

lemma bus_ok_rescanned: "bus_ok b m \<Longrightarrow> rescanned alive b m m1 c \<Longrightarrow> bus_ok (b\<lparr>cached_slowest := c\<rparr>) m1"
  using rescanned_fields [of alive b m m1 c] by (simp add: bus_ok_def rescanned_def)

lemma ring_holds_rescanned: "ring_holds n m hist \<Longrightarrow> rescanned alive b m m1 c \<Longrightarrow> ring_holds n m1 hist"
  using rescanned_fields [of alive b m m1 c] by (simp add: ring_holds_def)

lemma businvD:
  assumes "businv \<beta>"
  shows "bus_ok (by_bus \<beta>) (by_shm \<beta>)" "ring_holds (unat (bus_ring_size (by_bus \<beta>))) (by_shm \<beta>) (by_hist \<beta>)"
    "table_ok (by_shm \<beta>)" "\<And>ps. ps \<in> set (by_subs \<beta>) \<Longrightarrow> sub_ok (by_bus \<beta>) (by_shm \<beta>) ps" "slots_apart (by_subs \<beta>)"
    "unat (bh_write_seq (by_shm \<beta>)) < 2 ^ 62" "length (by_hist \<beta>) = unat (bh_write_seq (by_shm \<beta>))"
  using assms by (auto simp: businv_def ring_holds_def)

lemma publish_unchecked_inv:
  assumes b: "bus_ok b m" and r: "ring_holds (unat (bus_ring_size b)) m h" and t: "table_ok m"
    and room: "unat (bh_write_seq m) + 1 < 2 ^ 62"
  shows "bus_ok b (publish_unchecked clk v b m) \<and>
    ring_holds (unat (bus_ring_size b)) (publish_unchecked clk v b m) (h @ [v]) \<and> table_ok (publish_unchecked clk v b m)"
proof -
  let ?m = "publish_unchecked clk v b m"
  have pow: "is_power_of_two (bus_ring_size b)" "bus_mask b = bus_ring_size b - 1" using b by (simp_all add: bus_ok_def)
  have w: "bh_write_seq m \<le> bh_write_seq m + 1" using room by (simp add: word_le_nat_alt unat_word_ariths)
  have "ring_holds (unat (bus_ring_size b)) ?m (h @ [v])"
    using ring_holds_publish [OF r _ room, of ?m v] is_power_of_two_pos [OF pow(1)]
    by (simp add: publish_unchecked_frame pow(2) unat_and_mask [OF pow(1)] word_less_nat_alt)
  moreover have "table_ok ?m" using t w unfolding table_ok_def publish_unchecked_frame by (meson order_trans)
  moreover have "bus_ok b ?m" using b w by (auto simp: bus_ok_def publish_unchecked_frame)
  ultimately show ?thesis by simp
qed

lemma try_publish_businv:
  assumes inv: "businv \<beta>" and tp: "try_publish alive clk v (by_bus \<beta>) (by_shm \<beta>) = (res, b', m')"
    and al: "\<forall>(pid, _) \<in> set (by_subs \<beta>). alive pid" and room: "res = Inr () \<Longrightarrow> bus_room (by_shm \<beta>)"
  shows "businv (\<beta>\<lparr>by_bus := b', by_shm := m', by_hist := by_hist \<beta> @ (if res = Inr () then [v] else [])\<rparr>)"
proof -
  let ?b = "by_bus \<beta>" and ?m = "by_shm \<beta>"
  note I = businvD [OF inv]
  obtain m1 c where re: "rescanned alive ?b ?m m1 c" and b': "b' = ?b\<lparr>cached_slowest := c\<rparr>"
    and res: "case res of
       Inr _ \<Rightarrow> m' = publish_unchecked clk v b' m1 \<and>
         (watermark ?b = None \<or> (\<forall>i < MAX_SUBSCRIBER_SLOTS. slot_live alive (sub_slots ?m i) \<longrightarrow>
            cached_slowest ?b \<le> slot_value (sub_slots ?m i) \<longrightarrow>
            unat (bh_write_seq ?m) < unat (slot_value (sub_slots ?m i)) + capacity ?b))
     | Inl e \<Rightarrow> m' = m1 \<and> e = Full \<and> (\<exists>i < MAX_SUBSCRIBER_SLOTS. slot_live alive (sub_slots ?m i) \<and>
         slot_value (sub_slots ?m i) + (bus_ring_size ?b - the (watermark ?b)) \<le> bh_write_seq ?m)"
    using try_publish_spec [OF tp I(1,3,6)] by blast
  have b1: "bus_ok b' m1" unfolding b' by (rule bus_ok_rescanned [OF I(1) re])
  have r1: "ring_holds (unat (bus_ring_size b')) m1 (by_hist \<beta>)" using ring_holds_rescanned [OF I(2) re] by (simp add: b')
  have t1: "table_ok m1" using re by (simp add: rescanned_def)
  have s1: "sub_ok b' m1 (pid, sub)" if "(pid, sub) \<in> set (by_subs \<beta>)" for pid sub
    unfolding b' using rescanned_sub_ok [where alive = alive, OF I(4) _ re I(6)] that al by auto
  note w1 = rescanned_fields(1) [OF re]
  have cap: "capacity b' = capacity ?b" by (simp add: b' capacity_def)
  show ?thesis
  proof (cases res)
    case (Inl e)
    then have "m' = m1" using res by simp
    with b1 r1 t1 s1 I(5) Inl show ?thesis by (auto simp: businv_def)
  next
    case (Inr u)
    have rm: "unat (bh_write_seq m1) + 1 < 2 ^ 62" using room Inr by (simp add: bus_room_def w1)
    have m': "m' = publish_unchecked clk v b' m1" using res Inr by simp
    have "sub_ok b' m' (pid, sub)" if sub: "(pid, sub) \<in> set (by_subs \<beta>)" for pid sub
      unfolding m'
    proof (rule sub_ok_publish [OF s1 [OF sub] rm])
      assume "slot_index (snd (pid, sub)) \<noteq> None"
      then obtain i where i: "slot_index sub = Some i" by auto
      have "alive pid" using al sub by auto
      note live = attached_live [where alive = alive, OF I(4) [OF sub] this i I(6)]
      have "cached_slowest ?b \<le> cursor sub" "watermark ?b \<noteq> None"
        using I(4) [OF sub] I(1) i by (simp_all add: sub_ok_def bus_ok_def)
      then show "unat (bh_write_seq m1) < unat (cursor (snd (pid, sub))) + capacity b'"
        using res Inr live by (auto simp: w1 cap)
    qed
    with publish_unchecked_inv [OF b1 r1 t1 rm, of clk v] I(5) Inr show ?thesis by (auto simp: businv_def m')
  qed
qed

section \<open>Receiving keeps it\<close>

text \<open>The first value a receive may return: the next one, or the oldest one still in the ring.\<close>

definition next_value :: "nat \<Rightarrow> bus_shm \<Rightarrow> bus_subscriber \<Rightarrow> nat" where
  "next_value n m sub = max (unat (cursor sub)) (unat (bh_write_seq m) - n)"

lemma skip_ahead_eq:
  assumes "cursor sub \<le> bh_write_seq m" "unat (bs_ring_size sub) = n"
  shows "skip_ahead (bh_write_seq m) sub = sub\<lparr>cursor := of_nat (next_value n m sub),
    total_lagged := total_lagged sub + of_nat (next_value n m sub - unat (cursor sub))\<rparr>"
proof -
  let ?w = "bh_write_seq m" and ?c = "cursor sub" and ?r = "bs_ring_size sub"
  have d: "unat (?w - ?c) = unat ?w - unat ?c" using assms(1) by (rule unat_sub)
  show ?thesis
  proof (cases "?w - ?c > ?r")
    case True
    then have gt: "unat ?w - unat ?c > n" using assms(2) d by (simp add: word_less_nat_alt)
    then have "?r \<le> ?w" using assms(2) by (simp add: word_le_nat_alt)
    then have wr: "unat (?w - ?r) = unat ?w - n" using assms(2) by (simp add: unat_sub)
    then have nv: "next_value n m sub = unat (?w - ?r)" using gt by (simp add: next_value_def)
    have "?c \<le> ?w - ?r" using gt by (simp add: word_le_nat_alt wr)
    then have "of_nat (unat (?w - ?r) - unat ?c) = ?w - ?r - ?c" by (simp flip: unat_sub)
    with True nv show ?thesis by (simp add: skip_ahead_def)
  next
    case False
    then have "next_value n m sub = unat ?c" using assms(2) d by (simp add: next_value_def word_less_nat_alt)
    with False show ?thesis by (simp add: skip_ahead_def)
  qed
qed

lemma bus_try_recv_eq:
  fixes b m sub
  defines "n \<equiv> unat (bus_ring_size b)"
  defines "q \<equiv> next_value n m sub"
  assumes b: "bus_ok b m" and r: "ring_holds n m h" and s: "sub_ok b m (pid, sub)"
  shows "bus_try_recv sub m =
    (if cursor sub < bh_write_seq m
     then (Some (h ! q), sub\<lparr>cursor := of_nat (q + 1), total_lagged := total_lagged sub + of_nat (q - unat (cursor sub))\<rparr>,
       update_shm_cursor (of_nat (q + 1)) sub m)
     else (None, sub, m))"
proof (cases "cursor sub < bh_write_seq m")
  case True
  have pow: "is_power_of_two (bus_ring_size b)" "bs_mask sub = bus_ring_size b - 1"
    and rs: "unat (bs_ring_size sub) = n" and le: "cursor sub \<le> bh_write_seq m"
    using b s by (simp_all add: bus_ok_def sub_ok_def n_def)
  have n0: "0 < n" using is_power_of_two_pos [OF pow(1)] by (simp add: n_def word_less_nat_alt)
  have w: "length h = unat (bh_write_seq m)" "unat (bh_write_seq m) < 2 ^ 62" using r by (simp_all add: ring_holds_def)
  have q: "q < length h" "length h \<le> q + n" using True n0 w(1) by (auto simp: q_def next_value_def word_less_nat_alt)
  then have uq: "unat (of_nat q :: u64) = q" using w by (simp add: unsigned_of_nat take_bit_nat_eq_self)
  have ix: "unat (of_nat q AND bs_mask sub) = q mod n" by (simp add: pow(2) unat_and_mask [OF pow(1)] uq n_def)
  have slot: "bus_ring m (q mod n) = \<lparr>stamp = of_nat (2 * q + 2), slot_data = h ! q\<rparr>" using r q by (simp add: ring_holds_def)
  have "unat (of_nat (2 * q + 2) :: u64) = 2 * q + 2" unfolding unat_of_nat using q w by simp
  then have "of_nat (2 * q + 2) \<noteq> (0 :: u64)" by (auto simp del: of_nat_add)
  moreover have "of_nat (2 * q + 2) AND (1 :: u64) = 0" by (simp add: and_one_eq mod_2_eq_odd)
  moreover have "of_nat (2 * q + 2) = (of_nat q * 2 + 2 :: u64)" by simp
  ultimately have rcv: "recv_slot (of_nat (2 * q + 2)) v (of_nat (2 * q + 2)) (sub\<lparr>cursor := of_nat q, total_lagged := l\<rparr>) =
      (Some v, sub\<lparr>cursor := of_nat (q + 1), total_lagged := l\<rparr>)" for v l
    by (simp only: recv_slot_def if_False bus_subscriber.simps not_True_eq_False simp_thms) (simp add: add.commute)
  have shm: "update_shm_cursor c (sub\<lparr>cursor := x, total_lagged := l\<rparr>) m = update_shm_cursor c sub m" for c x l
    by (simp add: update_shm_cursor_def)
  have fld: "cursor (sub\<lparr>cursor := x, total_lagged := l\<rparr>) = x" "bs_mask (sub\<lparr>cursor := x, total_lagged := l\<rparr>) = bs_mask sub"
    for x l by simp_all
  have "\<not> bh_write_seq m \<le> cursor sub" using True by simp
  then have "bus_try_recv sub m = (Some (h ! q), sub\<lparr>cursor := of_nat (q + 1),
      total_lagged := total_lagged sub + of_nat (q - unat (cursor sub))\<rparr>, update_shm_cursor (of_nat (q + 1)) sub m)"
    unfolding bus_try_recv_def Let_def skip_ahead_eq [OF le rs] q_def [symmetric]
    by (simp only: if_False fld ix slot bus_slot.select_convs rcv prod.case option.case shm)
  then show ?thesis using True by simp
qed (simp add: bus_try_recv_def not_less)

lemma sub_ok_frame:
  assumes "sub_ok b m (pid, sub)" "bh_write_seq m' = bh_write_seq m"
    "\<And>i. slot_index sub = Some i \<Longrightarrow> sub_slots m' i = sub_slots m i"
  shows "sub_ok b m' (pid, sub)"
  using assms by (cases "slot_index sub") (simp_all add: sub_ok_def)

lemma slots_apart_split:
  "slots_apart (xs @ (pid, sub) # ys) \<longleftrightarrow> slots_apart (xs @ ys) \<and>
     (\<forall>i. slot_index sub = Some i \<longrightarrow> (\<forall>(_, s) \<in> set (xs @ ys). slot_index s \<noteq> Some i))"
proof -
  have mem: "i \<in> set (List.map_filter (slot_index \<circ> snd) zs) \<longleftrightarrow> (\<exists>(_, s) \<in> set zs. slot_index s = Some i)"
    for i and zs :: "(u32 \<times> bus_subscriber) list"
    by (force simp: List.map_filter_def)
  have app: "List.map_filter (slot_index \<circ> snd) (us @ zs) =
      List.map_filter (slot_index \<circ> snd) us @ List.map_filter (slot_index \<circ> snd) zs"
    for us zs :: "(u32 \<times> bus_subscriber) list"
    by (simp add: List.map_filter_def)
  show ?thesis
    by (cases "slot_index sub") (auto simp: slots_apart_def app map_filter_simps mem)
qed

lemma capacity_le: "bus_ok b m \<Longrightarrow> bus_bounded b \<Longrightarrow> capacity b \<le> unat (bus_ring_size b)"
  by (auto simp: bus_ok_def capacity_def unat_sub)

text \<open>On a bounded bus the reader never has to skip.\<close>

lemma bounded_next:
  assumes "bus_ok b m" "sub_ok b m (pid, sub)" "bus_bounded b"
  shows "next_value (unat (bus_ring_size b)) m sub = unat (cursor sub)" "total_lagged sub = 0"
    "unat (bh_write_seq m) \<le> unat (cursor sub) + capacity b"
  using assms(2,3) capacity_le [OF assms(1,3)]
  by (auto simp: sub_ok_def next_value_def split: option.splits)

lemma next_value_bounds:
  assumes "ring_holds (unat (bus_ring_size b)) m h" "bus_ok b m" "cursor sub < bh_write_seq m"
  defines "q \<equiv> next_value (unat (bus_ring_size b)) m sub"
  shows "q < length h" "unat (of_nat (q + 1) :: u64) = q + 1" "unat (cursor sub) \<le> q"
proof -
  have "0 < unat (bus_ring_size b)"
    using is_power_of_two_pos [of "bus_ring_size b"] assms(2) by (simp add: bus_ok_def word_less_nat_alt)
  then show q: "q < length h" using assms(1,3) by (auto simp: q_def next_value_def ring_holds_def word_less_nat_alt)
  then show "unat (of_nat (q + 1) :: u64) = q + 1" unfolding unat_of_nat using assms(1) by (simp add: ring_holds_def)
  show "unat (cursor sub) \<le> q" by (simp add: q_def next_value_def)
qed

lemma recv_keeps:
  assumes b: "bus_ok b m" and r: "ring_holds (unat (bus_ring_size b)) m h" and t: "table_ok m"
    and s: "sub_ok b m (pid, sub)" and rc: "bus_try_recv sub m = (res, sub', m')"
  shows "m' = m\<lparr>sub_slots := sub_slots m'\<rparr> \<and> table_ok m' \<and> slot_index sub' = slot_index sub \<and>
    (\<forall>i. slot_index sub \<noteq> Some i \<longrightarrow> sub_slots m' i = sub_slots m i) \<and> sub_ok b m' (pid, sub')"
proof (cases "cursor sub < bh_write_seq m")
  case False
  then show ?thesis using rc t s by (simp add: bus_try_recv_eq [OF b r s])
next
  case True
  let ?q = "next_value (unat (bus_ring_size b)) m sub"
  note N = next_value_bounds [OF r b True]
  have le: "of_nat (?q + 1) \<le> bh_write_seq m" using N(1,2) r by (simp add: word_le_nat_alt ring_holds_def del: of_nat_add)
  have m': "m' = update_shm_cursor (of_nat (?q + 1)) sub m"
    and sub': "sub' = sub\<lparr>cursor := of_nat (?q + 1), total_lagged := total_lagged sub + of_nat (?q - unat (cursor sub))\<rparr>"
    using rc True unfolding bus_try_recv_eq [OF b r s] by simp_all
  show ?thesis
  proof (cases "slot_index sub")
    case None
    then show ?thesis using s t le by (simp add: m' sub' update_shm_cursor_def sub_ok_def)
  next
    case (Some i)
    have bd: "bus_bounded b" "i < MAX_SUBSCRIBER_SLOTS" using s Some by (simp_all add: sub_ok_def)
    note B = bounded_next [OF b s bd(1)]
    have ct: "cached_slowest b \<le> of_nat (?q + 1)"
      using s Some N(2) by (simp add: sub_ok_def word_le_nat_alt B(1) del: of_nat_add)
    have tab: "table_ok m'"
      unfolding table_ok_def
    proof (intro allI impI)
      fix j assume "j < MAX_SUBSCRIBER_SLOTS"
      then show "ss_state_cursor (sub_slots m' j) = STATE_FREE \<or>
          (\<exists>c \<le> bh_write_seq m'. ss_state_cursor (sub_slots m' j) = STATE_ACTIVE OR (c AND VALUE_MASK))"
        using t le Some by (cases "j = i") (auto simp: m' update_shm_cursor_def table_ok_def)
    qed
    have w: "unat (bh_write_seq m) \<le> unat (of_nat (?q + 1) :: u64) + capacity b" unfolding N(2) using B by simp
    have new: "sub_ok b m' (pid, sub')"
      using s Some le bd ct w B(1,2) by (simp add: m' sub' update_shm_cursor_def sub_ok_def)
    have "m' = m\<lparr>sub_slots := sub_slots m'\<rparr>" "\<forall>i'. slot_index sub \<noteq> Some i' \<longrightarrow> sub_slots m' i' = sub_slots m i'"
      using Some by (simp_all add: m' update_shm_cursor_def)
    with tab new show ?thesis by (simp add: sub')
  qed
qed

lemma split_set: "ps \<in> set (xs @ x # ys) \<longleftrightarrow> ps = x \<or> ps \<in> set (xs @ ys)"
  by auto

lemma recv_businv:
  assumes inv: "businv \<beta>" and subs: "by_subs \<beta> = xs @ (pid, sub) # ys"
    and rc: "bus_try_recv sub (by_shm \<beta>) = (res, sub', m')"
  shows "businv (\<beta>\<lparr>by_shm := m', by_subs := xs @ (pid, sub') # ys\<rparr>)"
proof -
  note I = businvD [OF inv]
  have s: "sub_ok (by_bus \<beta>) (by_shm \<beta>) (pid, sub)" using I(4) subs by simp
  note K = recv_keeps [OF I(1,2,3) s rc]
  obtain ss where m': "m' = (by_shm \<beta>)\<lparr>sub_slots := ss\<rparr>" using K by blast
  have ap: "slots_apart (xs @ (pid, sub) # ys)" using I(5) subs by simp
  have others: "sub_ok (by_bus \<beta>) m' (p, u)" if "(p, u) \<in> set (xs @ ys)" for p u
  proof (rule sub_ok_frame [where m = "by_shm \<beta>"])
    show "sub_ok (by_bus \<beta>) (by_shm \<beta>) (p, u)" using I(4) subs that by auto
    show "sub_slots m' i = sub_slots (by_shm \<beta>) i" if "slot_index u = Some i" for i
      using K ap \<open>(p, u) \<in> set (xs @ ys)\<close> that unfolding slots_apart_split by blast
  qed (simp add: m')
  have "\<forall>ps \<in> set (xs @ (pid, sub') # ys). sub_ok (by_bus \<beta>) m' ps"
    unfolding split_set using K others by auto
  moreover have "slots_apart (xs @ (pid, sub') # ys)" using ap K by (simp add: slots_apart_split)
  moreover have "bus_ok (by_bus \<beta>) m'" using I(1) by (simp add: m' bus_ok_def)
  moreover have "ring_holds (unat (bus_ring_size (by_bus \<beta>))) m' (by_hist \<beta>)" using I(2) by (simp add: m' ring_holds_def)
  ultimately show ?thesis using K by (simp add: businv_def)
qed

section \<open>Attaching and leaving keep it\<close>

lemma claim_slot_spec:
  "claim_slot_from clk is c pid m = (res, m') \<Longrightarrow>
   (case res of
      Inr i \<Rightarrow> i \<in> set is \<and> ss_state_cursor (sub_slots m i) = STATE_FREE \<and>
        m' = m\<lparr>sub_slots := (sub_slots m)(i := \<lparr>ss_pid = pid, ss_state_cursor = STATE_ACTIVE OR (c AND VALUE_MASK)\<rparr>)\<rparr>
    | Inl e \<Rightarrow> e = PoolExhausted \<and> m' = m \<and> (\<forall>i \<in> set is. ss_state_cursor (sub_slots m i) \<noteq> STATE_FREE))"
proof (induction "is")
  case (Cons i "is")
  show ?case
  proof (cases "ss_state_cursor (sub_slots m i) = STATE_FREE")
    case True
    then show ?thesis using Cons.prems by (cases "sub_slots m i") (auto simp: Let_def)
  next
    case False
    then have "claim_slot_from clk is c pid m = (res, m')" using Cons.prems by simp
    with Cons.IH False show ?thesis by (cases res) simp_all
  qed
qed auto

lemma power_of_two_u32:
  assumes "is_power_of_two (r :: u64)" "as_u32 r \<noteq> 0"
  shows "as_usize (as_u32 r) = r"
proof -
  from assms(1) obtain k where k: "k < LENGTH(64)" "r = 2 ^ k" by (rule is_power_of_twoE)
  have ur: "unat r = 2 ^ k" using k by (simp add: unat_two_power)
  have "k < 32"
  proof (rule ccontr)
    assume "\<not> k < 32"
    then have "(2 :: nat) ^ 32 dvd 2 ^ k" by (intro le_imp_power_dvd) simp
    then have "unat (as_u32 r) = 0" by (simp add: unat_as_u32 ur)
    with assms(2) show False by (simp add: unat_eq_0)
  qed
  then have "(2 :: nat) ^ k < 2 ^ 32" by (rule power_strict_increasing) simp
  then show ?thesis by (simp add: word_unat_eq_iff unat_as_u32 ur)
qed

lemma check_bus_header_ring: "check_bus_header sz al clk len m = Inr u \<Longrightarrow> bh_ring_size m \<noteq> 0"
  by (auto simp: check_bus_header_def split: if_splits)

lemma bus_connect_success:
  assumes "bus_connect sz al lock_err lock_ok open_err meta map_err clk pid name m = (Inr sub, m')"
  shows "\<exists>u len. check_bus_header sz al clk len m = Inr u \<and>
    (let s = \<lparr>bs_mask = as_usize (bh_ring_size m) - 1, bs_ring_size = as_usize (bh_ring_size m), cursor = bh_write_seq m,
        total_lagged = 0, slot_index = None\<rparr> in
     if bh_version m = POD_BUS_VERSION_V3
     then \<exists>i. claim_subscriber_slot clk (bh_write_seq m) pid m = (Inr i, m') \<and> sub = s\<lparr>slot_index := Some i\<rparr>
     else sub = s \<and> m' = m)"
  using assms unfolding bus_connect_def by (auto simp: Let_def split: sum.splits option.splits if_splits prod.splits)

lemma table_ok_upd:
  assumes "table_ok m" "s = STATE_FREE \<or> (\<exists>c \<le> bh_write_seq m. s = STATE_ACTIVE OR (c AND VALUE_MASK))"
  shows "table_ok (m\<lparr>sub_slots := (sub_slots m)(i := \<lparr>ss_pid = p, ss_state_cursor = s\<rparr>)\<rparr>)"
  using assms by (simp add: table_ok_def)

lemma claim_keeps:
  assumes "sub_ok b m (p, u)" "ss_state_cursor (sub_slots m i) = STATE_FREE"
  shows "slot_index u \<noteq> Some i"
proof
  assume "slot_index u = Some i"
  then have "STATE_ACTIVE OR (cursor u AND VALUE_MASK) = STATE_FREE" using assms by (simp add: sub_ok_def)
  then show False using active_state(1) [of "cursor u"] states_distinct(2) by (simp add: STATE_FREE_def)
qed

lemma connect_businv:
  assumes inv: "businv \<beta>"
    and con: "bus_connect sz al lock_err lock_ok open_err meta map_err clk pid name (by_shm \<beta>) = (Inr sub, m')"
  shows "businv (\<beta>\<lparr>by_shm := m', by_subs := by_subs \<beta> @ [(pid, sub)]\<rparr>)"
proof -
  let ?b = "by_bus \<beta>" and ?m = "by_shm \<beta>"
  note I = businvD [OF inv]
  from bus_connect_success [OF con] obtain u len where ck: "check_bus_header sz al clk len ?m = Inr u"
    and sub: "let s = \<lparr>bs_mask = as_usize (bh_ring_size ?m) - 1, bs_ring_size = as_usize (bh_ring_size ?m),
        cursor = bh_write_seq ?m, total_lagged = 0, slot_index = None\<rparr> in
     if bh_version ?m = POD_BUS_VERSION_V3
     then \<exists>i. claim_subscriber_slot clk (bh_write_seq ?m) pid ?m = (Inr i, m') \<and> sub = s\<lparr>slot_index := Some i\<rparr>
     else sub = s \<and> m' = ?m" by blast
  have rs: "as_usize (bh_ring_size ?m) = bus_ring_size ?b"
    using power_of_two_u32 [of "bus_ring_size ?b"] check_bus_header_ring [OF ck] I(1) by (simp add: bus_ok_def)
  have geo: "bus_mask ?b = bus_ring_size ?b - 1" "cached_slowest ?b \<le> bh_write_seq ?m" using I(1) by (simp_all add: bus_ok_def)
  show ?thesis
  proof (cases "bus_bounded ?b")
    case False
    then have "bh_version ?m \<noteq> POD_BUS_VERSION_V3" using I(1) by (simp add: bus_ok_def POD_BUS_VERSION_V1_def POD_BUS_VERSION_V3_def)
    then have "m' = ?m" "sub_ok ?b m' (pid, sub)" "slot_index sub = None"
      using sub False by (simp_all add: rs geo sub_ok_def Let_def)
    with I show ?thesis by (auto simp: businv_def slots_apart_split [where ys = "[]", simplified])
  next
    case True
    then have "bh_version ?m = POD_BUS_VERSION_V3" using I(1) by (simp add: bus_ok_def)
    with sub obtain i where cl: "claim_subscriber_slot clk (bh_write_seq ?m) pid ?m = (Inr i, m')"
      and sb: "sub = \<lparr>bs_mask = bus_ring_size ?b - 1, bs_ring_size = bus_ring_size ?b, cursor = bh_write_seq ?m,
        total_lagged = 0, slot_index = Some i\<rparr>" by (auto simp: rs Let_def)
    from claim_slot_spec [OF cl [unfolded claim_subscriber_slot_def]]
    have i: "i < MAX_SUBSCRIBER_SLOTS" "ss_state_cursor (sub_slots ?m i) = STATE_FREE"
      and m': "m' = ?m\<lparr>sub_slots := (sub_slots ?m)(i := \<lparr>ss_pid = pid, ss_state_cursor = STATE_ACTIVE OR (bh_write_seq ?m AND VALUE_MASK)\<rparr>)\<rparr>"
      by simp_all
    have free: "slot_index s \<noteq> Some i" if "(p, s) \<in> set (by_subs \<beta>)" for p s
      by (rule claim_keeps [OF I(4) [OF that] i(2)])
    have "sub_ok ?b m' (p, s)" if "(p, s) \<in> set (by_subs \<beta>)" for p s
      by (rule sub_ok_frame [OF I(4) [OF that]]) (use free [OF that] in \<open>auto simp: m'\<close>)
    moreover have "sub_ok ?b m' (pid, sub)" using True i geo by (simp add: sub_ok_def sb m')
    moreover have "slots_apart (by_subs \<beta> @ [(pid, sub)])"
      using I(5) free by (auto simp: slots_apart_split [where ys = "[]", simplified] sb)
    moreover have "table_ok m'" unfolding m' by (rule table_ok_upd [OF I(3)]) auto
    moreover have "bus_ok ?b m'" using I(1) by (simp add: m' bus_ok_def)
    moreover have "ring_holds (unat (bus_ring_size ?b)) m' (by_hist \<beta>)" using I(2) by (simp add: m' ring_holds_def)
    ultimately show ?thesis by (auto simp: businv_def)
  qed
qed

lemma leave_businv:
  assumes inv: "businv \<beta>" and subs: "by_subs \<beta> = xs @ (pid, sub) # ys"
  shows "businv (\<beta>\<lparr>by_shm := bus_subscriber_drop sub (by_shm \<beta>), by_subs := xs @ ys\<rparr>)"
    "businv (\<beta>\<lparr>by_subs := xs @ ys\<rparr>)"
proof -
  let ?b = "by_bus \<beta>" and ?m = "by_shm \<beta>"
  let ?m' = "bus_subscriber_drop sub ?m"
  note I = businvD [OF inv]
  have ap: "slots_apart (xs @ (pid, sub) # ys)" using I(5) subs by simp
  have ok: "sub_ok ?b ?m (p, u)" if "(p, u) \<in> set (xs @ ys)" for p u using I(4) subs that by auto
  have fld: "bh_write_seq ?m' = bh_write_seq ?m" "bus_ring ?m' = bus_ring ?m" "bh_version ?m' = bh_version ?m"
    "bh_ring_size ?m' = bh_ring_size ?m"
    by (simp_all add: bus_subscriber_drop_def split: option.split)
  have "sub_ok ?b ?m' (p, u)" if "(p, u) \<in> set (xs @ ys)" for p u
  proof (rule sub_ok_frame [OF ok [OF that] fld(1)])
    fix i assume "slot_index u = Some i"
    with ap that have "slot_index sub \<noteq> Some i" unfolding slots_apart_split by blast
    then show "sub_slots ?m' i = sub_slots ?m i" by (auto simp: bus_subscriber_drop_def split: option.split)
  qed
  moreover have "table_ok ?m'" using I(3) by (simp add: bus_subscriber_drop_def table_ok_def split: option.split)
  moreover have "bus_ok ?b ?m'" using I(1) by (simp add: bus_ok_def fld)
  moreover have "ring_holds (unat (bus_ring_size ?b)) ?m' (by_hist \<beta>)" using I(2) by (simp add: ring_holds_def fld)
  ultimately show "businv (\<beta>\<lparr>by_shm := ?m', by_subs := xs @ ys\<rparr>)"
    using ap by (auto simp: businv_def slots_apart_split)
  show "businv (\<beta>\<lparr>by_subs := xs @ ys\<rparr>)" using I ap ok by (auto simp: businv_def slots_apart_split)
qed

lemma heartbeat_businv:
  assumes "businv \<beta>" "bus_heartbeat clk (by_shm \<beta>) = (res, m')"
  shows "businv (\<beta>\<lparr>by_shm := m'\<rparr>)"
proof -
  obtain h where "m' = (by_shm \<beta>)\<lparr>bh_heartbeat := h\<rparr>"
    using assms(2) by (cases "now_micros clk") (auto simp: bus_heartbeat_def intro: that [of "bh_heartbeat (by_shm \<beta>)"])
  with assms(1) show ?thesis
    by (auto simp: businv_def bus_ok_def ring_holds_def table_ok_def intro: sub_ok_frame)
qed

section \<open>Reachable states\<close>

lemma step_businv: "bus_step sz al \<beta> \<beta>' \<Longrightarrow> businv \<beta> \<Longrightarrow> businv \<beta>'"
proof (induction rule: bus_step.induct)
  case (b_publish alive clk v \<beta> u b' m')
  then show ?case using try_publish_businv [of \<beta> alive clk v "Inr ()" b' m'] by simp
next
  case (b_full alive clk v \<beta> e b' m')
  then show ?case using try_publish_businv [of \<beta> alive clk v "Inl e" b' m'] by simp
qed (auto intro: heartbeat_businv connect_businv recv_businv leave_businv)

lemma fold_sub_slots:
  "fold (\<lambda>i. upd_sub_slot i (\<lambda>s. s\<lparr>ss_pid := 0, ss_state_cursor := x\<rparr>)) [0..<k] m =
     m\<lparr>sub_slots := (\<lambda>i. if i < k then (sub_slots m i)\<lparr>ss_pid := 0, ss_state_cursor := x\<rparr> else sub_slots m i)\<rparr>"
  by (induction k) (auto simp: fun_eq_iff intro!: arg_cong [where f = "\<lambda>x. m\<lparr>sub_slots := x\<rparr>"])

lemma init_sub_slots_fields:
  "bh_write_seq (init_sub_slots m) = bh_write_seq m" "bh_version (init_sub_slots m) = bh_version m"
  "bh_ring_size (init_sub_slots m) = bh_ring_size m"
  "i < MAX_SUBSCRIBER_SLOTS \<Longrightarrow> ss_state_cursor (sub_slots (init_sub_slots m) i) = STATE_FREE"
  unfolding init_sub_slots_def fold_sub_slots by simp_all

lemma init_stamps_fields:
  "bh_write_seq (init_stamps n m) = bh_write_seq m" "bh_version (init_stamps n m) = bh_version m"
  "bh_ring_size (init_stamps n m) = bh_ring_size m" "sub_slots (init_stamps n m) = sub_slots m"
  unfolding init_stamps_def by (induction n) simp_all

lemma init_bus_ok:
  assumes "init_bus sz al env clk pid name n wm (zero_bus sz len) = (Inr b, m)" "is_power_of_two n" "\<forall>w. wm = Some w \<longrightarrow> w < n"
  shows "bus_ok b m \<and> ring_holds (unat (bus_ring_size b)) m [] \<and> table_ok m"
  using assms
  by (auto simp: init_bus_def Let_def write_bus_header_def init_stamps_fields init_sub_slots_fields zero_bus_def
      bus_ok_def ring_holds_def table_ok_def STATE_FREE_def split: sum.splits if_splits)

lemma create_inner_businv:
  assumes "create_inner sz al env clk pid name n wm file = Some (Inr b, Some m)" "\<forall>w. wm = Some w \<longrightarrow> w < n"
  shows "businv \<lparr>by_bus = b, by_shm = m, by_subs = [], by_hist = []\<rparr>"
proof -
  have "is_power_of_two n" "\<exists>len. init_bus sz al env clk pid name n wm (zero_bus sz len) = (Inr b, m)"
    using assms(1) unfolding create_inner_def
    by (auto simp: Let_def map_prod_def split: if_splits sum.splits option.splits prod.splits)
  with init_bus_ok [OF _ _ assms(2)] show ?thesis by (auto simp: businv_def slots_apart_def map_filter_simps)
qed

lemma reach_businv: "bus_reach sz al \<beta> \<Longrightarrow> businv \<beta>"
proof (induction rule: bus_reach.induct)
  case (bus_init env clk pid name n fl b m)
  then show ?case by (intro create_inner_businv) (auto simp: bus_create_def)
next
  case (bus_init_bounded env clk pid name n wm fl b m)
  then show ?case
    by (intro create_inner_businv [where wm = "Some wm" and n = n]) (auto simp: create_bounded_def split: if_splits)
qed (rule step_businv)

end
