(* ===== verification/Broadcast.thy ===== *)
theory Broadcast
  imports Lossless
begin

text \<open>
  What the broadcast ring of \<open>src/platform/pod_bus.rs\<close> promises its users, from the invariant
  \<open>businv\<close>: a receive reads the history at the reader's cursor, a reader that drains the ring gets
  every value that is still there in order, a bounded bus loses nothing, \<open>try_publish\<close> refuses exactly
  when a reader is a full capacity behind, \<open>publish\<close> returns once there is room, and the subscriber
  table gives each attached reader a slot of its own.
\<close>

section \<open>Lemmas\<close>

text \<open>A consumer that calls \<open>try_recv\<close> until it returns nothing, at most \<open>k\<close> times.\<close>

fun drain :: "nat \<Rightarrow> bus_subscriber \<Rightarrow> bus_shm \<Rightarrow> bytes list \<times> bus_subscriber \<times> bus_shm" where
  "drain 0 sub m = ([], sub, m)"
| "drain (Suc k) sub m =
     (case bus_try_recv sub m of
        (None, sub', m') \<Rightarrow> ([], sub', m')
      | (Some v, sub', m') \<Rightarrow> map_prod (Cons v) id (drain k sub' m'))"

lemma attached_recv:
  assumes "businv \<beta>" "(pid, sub) \<in> set (by_subs \<beta>)"
  defines "q \<equiv> next_value (unat (bus_ring_size (by_bus \<beta>))) (by_shm \<beta>) sub"
  shows "bus_try_recv sub (by_shm \<beta>) =
    (if unat (cursor sub) < length (by_hist \<beta>)
     then (Some (by_hist \<beta> ! q),
       sub\<lparr>cursor := of_nat (q + 1), total_lagged := total_lagged sub + of_nat (q - unat (cursor sub))\<rparr>,
       update_shm_cursor (of_nat (q + 1)) sub (by_shm \<beta>))
     else (None, sub, by_shm \<beta>))"
  using bus_try_recv_eq [OF businvD(1,2,4) [OF assms(1)], OF assms(2)] businvD(7) [OF assms(1)]
  by (simp add: q_def word_less_nat_alt)

lemma write_seq_update_shm_cursor [simp]: "bh_write_seq (update_shm_cursor c sub m) = bh_write_seq m"
  by (simp add: update_shm_cursor_def split: option.split)

lemma drain_businv:
  assumes "businv \<beta>" "by_subs \<beta> = xs @ (pid, sub) # ys" "length (by_hist \<beta>) \<le> unat (cursor sub) + k"
  shows "fst (drain k sub (by_shm \<beta>)) =
    drop (next_value (unat (bus_ring_size (by_bus \<beta>))) (by_shm \<beta>) sub) (by_hist \<beta>)"
  using assms
proof (induction k arbitrary: \<beta> sub)
  case 0
  then show ?case by (simp add: next_value_def)
next
  case (Suc k)
  let ?n = "unat (bus_ring_size (by_bus \<beta>))" and ?h = "by_hist \<beta>"
  let ?q = "next_value ?n (by_shm \<beta>) sub"
  have mem: "(pid, sub) \<in> set (by_subs \<beta>)" using Suc.prems(2) by simp
  note I = businvD [OF Suc.prems(1)] and R = attached_recv [OF Suc.prems(1) mem]
  show ?case
  proof (cases "unat (cursor sub) < length ?h")
    case False
    then show ?thesis by (simp add: R next_value_def)
  next
    case True
    define sub' where "sub' = sub\<lparr>cursor := of_nat (?q + 1), total_lagged := total_lagged sub + of_nat (?q - unat (cursor sub))\<rparr>"
    define m' where "m' = update_shm_cursor (of_nat (?q + 1)) sub (by_shm \<beta>)"
    have rc: "bus_try_recv sub (by_shm \<beta>) = (Some (?h ! ?q), sub', m')" using R True by (simp add: sub'_def m'_def)
    have lt: "cursor sub < bh_write_seq (by_shm \<beta>)" using True I(7) by (simp add: word_less_nat_alt)
    note N = next_value_bounds [OF I(2,1) lt]
    have c': "unat (cursor sub') = ?q + 1" using N(2) by (simp add: sub'_def del: of_nat_add)
    have nv: "next_value ?n m' sub' = ?q + 1" unfolding next_value_def c' by (simp add: m'_def next_value_def)
    have "fst (drain k sub' m') = drop (?q + 1) ?h"
      using Suc.IH [OF recv_businv [OF Suc.prems(1,2) rc]] Suc.prems(3) c' N(3) nv by simp
    then show ?thesis using N(1) by (simp add: rc Cons_nth_drop_Suc)
  qed
qed

lemma full_slot_behind:
  assumes "bus_ok b m" "bus_bounded b" "unat (bh_write_seq m) < 2 ^ 62" "s \<le> bh_write_seq m"
    and "s + (bus_ring_size b - the (watermark b)) \<le> bh_write_seq m"
  shows "unat s + capacity b \<le> unat (bh_write_seq m)"
proof -
  from assms(1) obtain k where "k < LENGTH(64)" "bus_ring_size b = 2 ^ k"
    unfolding bus_ok_def by (metis is_power_of_twoE)
  moreover from this have "(2 :: nat) ^ k \<le> 2 ^ 63" by (intro power_increasing) simp_all
  ultimately have "unat (bus_ring_size b) \<le> 2 ^ 63" by (simp add: unat_two_power)
  then have "capacity b \<le> 2 ^ 63" using capacity_le [OF assms(1,2)] by simp
  then have "unat (s + (bus_ring_size b - the (watermark b))) = unat s + capacity b"
    using assms(3,4) by (simp add: unat_word_ariths(1) word_le_nat_alt capacity_def)
  then show ?thesis using assms(5) by (simp add: word_le_nat_alt)
qed

text \<open>
  What other processes may do to the memory while the publisher spins: they change the subscriber
  table and keep it well formed.  An action makes room when it leaves no live slot a capacity behind.
\<close>

definition reader_action :: "(bus_shm \<Rightarrow> bus_shm) \<Rightarrow> bool" where
  "reader_action e \<longleftrightarrow> (\<forall>m. (\<exists>ss. e m = m\<lparr>sub_slots := ss\<rparr>) \<and> (table_ok m \<longrightarrow> table_ok (e m)))"

definition makes_room :: "(u32 \<Rightarrow> bool) \<Rightarrow> pod_bus \<Rightarrow> u64 \<Rightarrow> (bus_shm \<Rightarrow> bus_shm) \<Rightarrow> bool" where
  "makes_room alive b w e \<longleftrightarrow> (\<forall>m i. bh_write_seq m = w \<longrightarrow> table_ok m \<longrightarrow> i < MAX_SUBSCRIBER_SLOTS \<longrightarrow>
     slot_live alive (sub_slots (e m) i) \<longrightarrow> unat w < unat (slot_value (sub_slots (e m) i)) + capacity b)"

definition published :: "bytes \<Rightarrow> pod_bus \<Rightarrow> bus_shm \<Rightarrow> bus_shm \<Rightarrow> bool" where
  "published v b m m' \<longleftrightarrow> bh_write_seq m' = bh_write_seq m + 1 \<and>
     bus_ring m' (unat (bh_write_seq m AND bus_mask b)) = \<lparr>stamp = bh_write_seq m * 2 + 2, slot_data = v\<rparr>"

lemma try_publish_published:
  assumes "try_publish alive clk v b m = (Inr u, b', m')" "bus_ok b m" "table_ok m" "unat (bh_write_seq m) < 2 ^ 62"
  shows "published v b m m'"
proof -
  obtain m1 c where re: "rescanned alive b m m1 c" and "b' = b\<lparr>cached_slowest := c\<rparr>" "m' = publish_unchecked clk v b' m1"
    using try_publish_spec [OF assms] by auto
  then show ?thesis by (simp add: published_def publish_unchecked_frame rescanned_fields [OF re])
qed

lemma try_publish_room:
  assumes "bus_ok b m" "table_ok m" "unat (bh_write_seq m) < 2 ^ 62" "bus_bounded b"
    "\<And>i. i < MAX_SUBSCRIBER_SLOTS \<Longrightarrow> slot_live alive (sub_slots m i) \<Longrightarrow>
      unat (bh_write_seq m) < unat (slot_value (sub_slots m i)) + capacity b"
  shows "\<exists>b' m'. try_publish alive clk v b m = (Inr (), b', m')"
proof -
  obtain res b' m' where tp: "try_publish alive clk v b m = (res, b', m')" by (metis prod_cases3)
  show ?thesis
  proof (cases res)
    case (Inl e)
    from try_publish_spec [OF tp assms(1-3)] Inl obtain i where i: "i < MAX_SUBSCRIBER_SLOTS" "slot_live alive (sub_slots m i)"
      and le: "slot_value (sub_slots m i) + (bus_ring_size b - the (watermark b)) \<le> bh_write_seq m" by auto
    have "unat (slot_value (sub_slots m i)) + capacity b \<le> unat (bh_write_seq m)"
      by (rule full_slot_behind [OF assms(1,4,3) table_slot [OF assms(2) i(1) assms(3) i(2)] le])
    with assms(5) [OF i] show ?thesis by simp
  qed (use tp in auto)
qed

lemma heartbeat_tick:
  "\<exists>h. (if P then (case x of Inr now \<Rightarrow> m\<lparr>bh_heartbeat := now\<rparr> | Inl _ \<Rightarrow> m) else m) = (m :: bus_shm)\<lparr>bh_heartbeat := h\<rparr>"
proof (cases "P \<and> \<not> isl x")
  case True
  then show ?thesis by (intro exI [of _ "projr x"]) (auto split: sum.split)
next
  case False
  then show ?thesis by (intro exI [of _ "bh_heartbeat m"]) (auto split: sum.split)
qed

lemma publish_spin_retry:
  assumes "try_publish alive clk v b m = (Inl err, b', m1)"
  shows "\<exists>h. publish_spin alive clk v (e # es) spins b m =
    publish_spin alive clk v es (spins + 1) b' (e (m1\<lparr>bh_heartbeat := h\<rparr>))"
proof -
  obtain h where "(if (spins + 1) AND 0x3FF = 0
      then (case now_micros clk of Inr now \<Rightarrow> m1\<lparr>bh_heartbeat := now\<rparr> | Inl _ \<Rightarrow> m1) else m1) = m1\<lparr>bh_heartbeat := h\<rparr>"
    using heartbeat_tick [where P = "(spins + 1) AND 0x3FF = 0" and x = "now_micros clk" and m = m1] by blast
  with assms show ?thesis
    by (intro exI [of _ h]) (simp add: publish_spin.simps [of alive clk v "e # es"] Let_def)
qed

lemma publish_spin_returns:
  assumes "bus_ok b m" "table_ok m" "unat (bh_write_seq m) < 2 ^ 62" "bus_bounded b" "\<forall>e \<in> set envs. reader_action e"
    "(\<forall>i < MAX_SUBSCRIBER_SLOTS. slot_live alive (sub_slots m i) \<longrightarrow>
        unat (bh_write_seq m) < unat (slot_value (sub_slots m i)) + capacity b) \<or>
     (\<exists>e \<in> set envs. makes_room alive b (bh_write_seq m) e)"
  shows "\<exists>b' m'. publish_spin alive clk v envs spins b m = Some (b', m') \<and> published v b m m'"
  using assms
proof (induction envs arbitrary: spins b m)
  case Nil
  then obtain b' m' where "try_publish alive clk v b m = (Inr (), b', m')" using try_publish_room [of b m alive clk v] by auto
  with try_publish_published Nil.prems(1-3) show ?case by (auto simp: publish_spin.simps)
next
  case (Cons e es)
  obtain res b' m1 where tp: "try_publish alive clk v b m = (res, b', m1)" by (metis prod_cases3)
  show ?case
  proof (cases res)
    case (Inr u)
    with tp try_publish_published Cons.prems(1-3) show ?thesis by (auto simp: publish_spin.simps)
  next
    case (Inl err)
    from try_publish_spec [OF tp Cons.prems(1-3)] Inl obtain c
      where re: "rescanned alive b m m1 c" and b': "b' = b\<lparr>cached_slowest := c\<rparr>" by auto
    note fld = rescanned_fields [OF re]
    obtain h where h: "publish_spin alive clk v (e # es) spins b m =
        publish_spin alive clk v es (spins + 1) b' (e (m1\<lparr>bh_heartbeat := h\<rparr>))"
      using publish_spin_retry tp Inl by blast
    let ?m = "e (m1\<lparr>bh_heartbeat := h\<rparr>)"
    have ra: "reader_action e" using Cons.prems(5) by simp
    then obtain ss where ss: "?m = m1\<lparr>bh_heartbeat := h, sub_slots := ss\<rparr>" unfolding reader_action_def by blast
    have "table_ok m1" using re by (simp add: rescanned_def)
    then have th: "table_ok (m1\<lparr>bh_heartbeat := h\<rparr>)" by (simp add: table_ok_def)
    with ra have t: "table_ok ?m" unfolding reader_action_def by blast
    have "bus_ok b' m1" unfolding b' by (rule bus_ok_rescanned [OF Cons.prems(1) re])
    then have bo: "bus_ok b' ?m" by (simp add: ss bus_ok_def)
    have w: "bh_write_seq ?m = bh_write_seq m" "bus_mask b' = bus_mask b" "capacity b' = capacity b"
      by (simp_all add: ss fld b' capacity_def)
    have mr: "makes_room alive b' x a = makes_room alive b x a" for x a by (simp add: makes_room_def w)
    have "\<exists>a \<in> set (e # es). makes_room alive b (bh_write_seq m) a"
      using Cons.prems(6) try_publish_room [OF Cons.prems(1-4), of alive clk v] tp Inl by auto
    then have room: "makes_room alive b (bh_write_seq m) e \<or> (\<exists>a \<in> set es. makes_room alive b (bh_write_seq m) a)" by simp
    have now_room: "unat (bh_write_seq m) < unat (slot_value (sub_slots ?m i)) + capacity b"
      if "makes_room alive b (bh_write_seq m) e" "i < MAX_SUBSCRIBER_SLOTS" "slot_live alive (sub_slots ?m i)" for i
      using that th fld(1) unfolding makes_room_def by simp
    have "\<exists>b'' m''. publish_spin alive clk v es (spins + 1) b' ?m = Some (b'', m'') \<and> published v b' ?m m''"
    proof (rule Cons.IH [OF bo t])
      show "(\<forall>i < MAX_SUBSCRIBER_SLOTS. slot_live alive (sub_slots ?m i) \<longrightarrow>
          unat (bh_write_seq ?m) < unat (slot_value (sub_slots ?m i)) + capacity b') \<or>
        (\<exists>e \<in> set es. makes_room alive b' (bh_write_seq ?m) e)"
        unfolding w mr using room now_room by blast
    qed (use Cons.prems(3,4,5) in \<open>auto simp: w b'\<close>)
    then show ?thesis unfolding h published_def by (simp add: w)
  qed
qed


section \<open>A concrete run\<close>

text \<open>A bounded bus of two eight-byte slots with one slot of headroom, and one subscriber.\<close>

definition demo_bus :: pod_bus where
  "demo_bus = \<lparr>bus_mask = 1, bus_ring_size = 2, bus_name = ''ticks'', bus_created_ino = Some 42, bus_bounded = True,
     watermark = Some 1, cached_slowest = 0\<rparr>"

definition demo_bus_shm :: "u64 \<Rightarrow> (nat \<Rightarrow> sub_slot) \<Rightarrow> (nat \<Rightarrow> bus_slot) \<Rightarrow> bus_shm" where
  "demo_bus_shm w ss ring = \<lparr>bh_magic = POD_BUS_MAGIC, bh_version = POD_BUS_VERSION_V3, bh_ring_size = 2, bh_value_size = 8,
     bh_value_align = 8, bh_heartbeat = 10, bh_write_seq = w, bh_pid = 7, bh_watermark = 1, sub_slots = ss,
     bus_ring = ring, bus_len = 1216\<rparr>"

definition demo_reader :: "u64 \<Rightarrow> bus_subscriber" where
  "demo_reader c = \<lparr>bs_mask = 1, bs_ring_size = 2, cursor = c, total_lagged = 0, slot_index = Some 0\<rparr>"

definition demo_table :: "u64 \<Rightarrow> nat \<Rightarrow> sub_slot" where
  "demo_table c = (\<lambda>_. \<lparr>ss_pid = 0, ss_state_cursor = 0\<rparr>)(0 := \<lparr>ss_pid = 9, ss_state_cursor = STATE_ACTIVE OR (c AND VALUE_MASK)\<rparr>)"

abbreviation demo_empty :: "nat \<Rightarrow> bus_slot" where
  "demo_empty \<equiv> \<lambda>_. \<lparr>stamp = 0, slot_data = replicate 8 0\<rparr>"

abbreviation demo_tick :: bytes where
  "demo_tick \<equiv> [1, 2, 3, 4, 5, 6, 7, 8]"

definition demo_full :: bus_system where
  "demo_full = \<lparr>by_bus = demo_bus, by_shm = demo_bus_shm 1 (demo_table 0) (demo_empty(0 := \<lparr>stamp = 2, slot_data = demo_tick\<rparr>)),
     by_subs = [(9, demo_reader 0)], by_hist = [demo_tick]\<rparr>"

lemma demo_fields [simp]:
  "bh_version (demo_bus_shm w ss ring) = POD_BUS_VERSION_V3" "bh_ring_size (demo_bus_shm w ss ring) = 2"
  "bh_write_seq (demo_bus_shm w ss ring) = w" "bus_len (demo_bus_shm w ss ring) = 1216" "sub_slots (demo_bus_shm w ss ring) = ss"
  by (simp_all add: demo_bus_shm_def)

lemma two_is_power: "is_power_of_two (2 :: u64)"
  by (simp add: is_power_of_two_def count_ones_def upt_conv_Cons)

lemma fold_stamps:
  "fold (\<lambda>i. upd_bus_slot i (\<lambda>s. s\<lparr>stamp := 0\<rparr>)) [0..<k] m =
     m\<lparr>bus_ring := (\<lambda>i. if i < k then (bus_ring m i)\<lparr>stamp := 0\<rparr> else bus_ring m i)\<rparr>"
  by (induction k) (auto simp: fun_eq_iff intro!: arg_cong [where f = "\<lambda>x. m\<lparr>bus_ring := x\<rparr>"])

lemma demo_created:
  "create_bounded 8 8 os_all_ok (Some 10) 7 ''ticks'' 2 1 None =
     Some (Inr demo_bus, Some (demo_bus_shm 0 (\<lambda>_. \<lparr>ss_pid = 0, ss_state_cursor = 0\<rparr>) demo_empty))"
proof -
  have z: "region_size_for_version 8 2 POD_BUS_VERSION_V3 = 1216"
    by (simp add: region_size_for_version_def POD_BUS_VERSION_V3_def POD_BUS_HEADER_SIZE_def slot_size_def
        SUBSCRIBER_SLOTS_SECTION_SIZE_def MAX_SUBSCRIBER_SLOTS_def SUBSCRIBER_SLOT_SIZE_def)
  have "init_bus 8 8 os_all_ok (Some 10) 7 ''ticks'' 2 (Some 1) (zero_bus 8 1216) =
      (Inr demo_bus, demo_bus_shm 0 (\<lambda>_. \<lparr>ss_pid = 0, ss_state_cursor = 0\<rparr>) demo_empty)"
    by (simp add: init_bus_def write_bus_header_def init_sub_slots_def init_stamps_def fold_sub_slots fold_stamps zero_bus_def
        now_micros_def shared_lock_def os_all_ok_def demo_bus_def demo_bus_shm_def STATE_FREE_def as_u32_def as_u64_def Let_def
        fun_eq_iff cong: if_cong)
  then show ?thesis
    by (simp add: create_bounded_def create_inner_def two_is_power validate_name_def is_valid_segment_name_def check_alignment_def
        MAX_POD_ALIGN_def exclusive_lock_def from_file_with_len_def z os_all_ok_def)
qed

lemma demo_connected:
  "bus_connect 8 8 None True None None None (Some 10) 9 ''ticks'' (demo_bus_shm 0 (\<lambda>_. \<lparr>ss_pid = 0, ss_state_cursor = 0\<rparr>) demo_empty) =
     (Inr (demo_reader 0), demo_bus_shm 0 (demo_table 0) demo_empty)"
proof -
  have ck: "check_bus_header 8 8 (Some 10) 1216 (demo_bus_shm 0 (\<lambda>_. \<lparr>ss_pid = 0, ss_state_cursor = 0\<rparr>) demo_empty) = Inr ()"
    by (simp add: check_bus_header_def demo_bus_shm_def POD_BUS_HEADER_SIZE_def POD_BUS_VERSION_V3_def POD_BUS_VERSION_V2_def
        as_usize_def two_is_power region_size_for_version_def slot_size_def SUBSCRIBER_SLOTS_SECTION_SIZE_def
        MAX_SUBSCRIBER_SLOTS_def SUBSCRIBER_SLOT_SIZE_def now_micros_def saturating_sub_def HEARTBEAT_STALE_US_def)
  have "claim_subscriber_slot (Some 10) 0 9 (demo_bus_shm 0 (\<lambda>_. \<lparr>ss_pid = 0, ss_state_cursor = 0\<rparr>) demo_empty) =
      (Inr 0, demo_bus_shm 0 (demo_table 0) demo_empty)"
    by (simp add: claim_subscriber_slot_def MAX_SUBSCRIBER_SLOTS_def upt_conv_Cons demo_bus_shm_def demo_table_def STATE_FREE_def Let_def)
  with ck show ?thesis
    by (simp add: bus_connect_def validate_name_def is_valid_segment_name_def check_alignment_def MAX_POD_ALIGN_def
        shared_lock_def from_file_def from_file_with_len_def demo_reader_def as_usize_def Let_def)
qed

lemma demo_publishes:
  "try_publish (\<lambda>_. True) (Some 10) demo_tick demo_bus (demo_bus_shm 0 (demo_table 0) demo_empty) =
     (Inr (), demo_bus, by_shm demo_full)"
  by (simp add: try_publish_def demo_bus_def demo_bus_shm_def publish_unchecked_def demo_full_def now_micros_def)

lemma demo_full_reach: "bus_reach 8 8 demo_full"
proof -
  note r0 = bus_init_bounded [OF demo_created]
  note r1 = bus_next [OF r0 b_connect, simplified, OF demo_connected]
  have "bus_step 8 8 \<lparr>by_bus = demo_bus, by_shm = demo_bus_shm 0 (demo_table 0) demo_empty, by_subs = [(9, demo_reader 0)], by_hist = []\<rparr>
      demo_full"
    using b_publish [of "\<lambda>_. True" "Some 10" demo_tick "\<lparr>by_bus = demo_bus, by_shm = demo_bus_shm 0 (demo_table 0) demo_empty,
      by_subs = [(9, demo_reader 0)], by_hist = []\<rparr>", simplified, OF demo_publishes]
    by (simp add: demo_full_def bus_room_def)
  with r1 show ?thesis by (rule bus_next)
qed

lemma demo_attached: "(9, demo_reader 0) \<in> set (by_subs demo_full)" "by_hist demo_full = [demo_tick]" "by_bus demo_full = demo_bus"
  by (simp_all add: demo_full_def)

section \<open>Properties\<close>

text \<open>
  \<^bold>\<open>C35.\<close> In every reachable state of a bus, whether bounded or not, \<open>try_recv\<close> of an attached subscriber reads
  the history at its cursor: it returns nothing and changes nothing when the subscriber has seen every
  value, and otherwise it returns the value at the cursor, or, when that one has left the ring, the
  oldest value still there; the cursor moves just past the value returned, \<open>total_lagged\<close> grows by exactly the
  number of values skipped, and on a bounded bus the new cursor is stored in the subscriber's slot.
\<close>

theorem bus_recv_reads_history:
  assumes "bus_reach sz al \<beta>" "(pid, sub) \<in> set (by_subs \<beta>)"
  defines "q \<equiv> max (unat (cursor sub)) (length (by_hist \<beta>) - unat (bus_ring_size (by_bus \<beta>)))"
  shows "bus_try_recv sub (by_shm \<beta>) =
    (if unat (cursor sub) < length (by_hist \<beta>)
     then (Some (by_hist \<beta> ! q),
       sub\<lparr>cursor := of_nat (q + 1), total_lagged := total_lagged sub + of_nat (q - unat (cursor sub))\<rparr>,
       update_shm_cursor (of_nat (q + 1)) sub (by_shm \<beta>))
     else (None, sub, by_shm \<beta>))"
  using attached_recv [OF reach_businv [OF assms(1)] assms(2)] businvD(7) [OF reach_businv [OF assms(1)]]
  unfolding q_def next_value_def by simp

theorem bus_recv_reads_history_witness:
  "bus_reach 8 8 demo_full \<and> (9, demo_reader 0) \<in> set (by_subs demo_full) \<and>
   fst (bus_try_recv (demo_reader 0) (by_shm demo_full)) = Some demo_tick"
  using bus_recv_reads_history [OF demo_full_reach demo_attached(1)] demo_full_reach demo_attached
  by (simp add: demo_reader_def demo_bus_def)

text \<open>
  A subscriber that calls \<open>try_recv\<close> until it returns nothing receives, in publication order and each
  once, exactly the values from its cursor on that are still in the ring: the whole rest of the history
  when it is at most a ring behind, and the last \<open>ring_size\<close> values otherwise.
\<close>

theorem drain_reads_ring:
  assumes "bus_reach sz al \<beta>" "(pid, sub) \<in> set (by_subs \<beta>)" "length (by_hist \<beta>) \<le> unat (cursor sub) + k"
  shows "fst (drain k sub (by_shm \<beta>)) =
    drop (max (unat (cursor sub)) (length (by_hist \<beta>) - unat (bus_ring_size (by_bus \<beta>)))) (by_hist \<beta>)"
proof -
  note inv = reach_businv [OF assms(1)]
  obtain xs ys where "by_subs \<beta> = xs @ (pid, sub) # ys" using assms(2) by (meson split_list)
  from drain_businv [OF inv this assms(3)] businvD(7) [OF inv] show ?thesis by (simp add: next_value_def)
qed

theorem drain_reads_ring_witness:
  "bus_reach 8 8 demo_full \<and> (9, demo_reader 0) \<in> set (by_subs demo_full) \<and>
   fst (drain 1 (demo_reader 0) (by_shm demo_full)) = [demo_tick]"
  using drain_reads_ring [OF demo_full_reach demo_attached(1), of 1] demo_full_reach demo_attached
  by (simp add: demo_reader_def demo_bus_def)





text \<open>
  \<^bold>\<open>C37.\<close> \<open>publish\<close> returns: on an unbounded bus at once, and on a bounded bus as soon as, between two of its
  retries, the readers have moved on so that no live slot is a whole capacity behind (by receiving, by
  leaving, or by being found dead).  When it returns, the value is in the ring under the next sequence number.
\<close>

theorem publish_returns:
  assumes "bus_reach sz al \<beta>" "\<forall>e \<in> set envs. reader_action e"
    and "watermark (by_bus \<beta>) \<noteq> None \<longrightarrow>
      (\<exists>e \<in> set envs. makes_room alive (by_bus \<beta>) (bh_write_seq (by_shm \<beta>)) e)"
  shows "\<exists>b' m'. bus_publish alive clk v envs (by_bus \<beta>) (by_shm \<beta>) = Some (b', m') \<and>
    bh_write_seq m' = bh_write_seq (by_shm \<beta>) + 1 \<and>
    bus_ring m' (length (by_hist \<beta>) mod unat (bus_ring_size (by_bus \<beta>))) =
      \<lparr>stamp = 2 * of_nat (length (by_hist \<beta>)) + 2, slot_data = v\<rparr>"
proof -
  let ?b = "by_bus \<beta>" and ?m = "by_shm \<beta>"
  note I = businvD [OF reach_businv [OF assms(1)]]
  have pow: "is_power_of_two (bus_ring_size ?b)" "bus_mask ?b = bus_ring_size ?b - 1" using I(1) by (simp_all add: bus_ok_def)
  have ix: "unat (bh_write_seq ?m AND bus_mask ?b) = length (by_hist \<beta>) mod unat (bus_ring_size ?b)"
    by (simp add: pow(2) unat_and_mask [OF pow(1)] I(7))
  have "\<exists>b' m'. bus_publish alive clk v envs ?b ?m = Some (b', m') \<and> published v ?b ?m m'"
  proof (cases "watermark ?b")
    case None
    then show ?thesis by (simp add: bus_publish_def published_def publish_unchecked_frame)
  next
    case (Some wm)
    then have "bus_bounded ?b" using I(1) by (simp add: bus_ok_def)
    with publish_spin_returns [OF I(1,3,6) this assms(2)] assms(3) Some show ?thesis by (simp add: bus_publish_def)
  qed
  then show ?thesis unfolding published_def ix I(7) by (simp add: mult.commute)
qed

definition demo_catch_up :: "bus_shm \<Rightarrow> bus_shm" where
  "demo_catch_up m = m\<lparr>sub_slots := (\<lambda>i. if ss_state_cursor (sub_slots m i) = STATE_FREE then sub_slots m i
     else (sub_slots m i)\<lparr>ss_state_cursor := STATE_ACTIVE OR (bh_write_seq m AND VALUE_MASK)\<rparr>)\<rparr>"

lemma reader_action_id: "reader_action id"
proof -
  have "m = m\<lparr>sub_slots := sub_slots m\<rparr>" for m :: bus_shm by simp
  then show ?thesis unfolding reader_action_def id_def by blast
qed

lemma demo_catch_up_ok: "reader_action demo_catch_up" "makes_room (\<lambda>_. True) demo_bus 1 demo_catch_up"
proof -
  show "reader_action demo_catch_up" by (auto simp: reader_action_def demo_catch_up_def table_ok_def)
  have "(1 :: u64) AND VALUE_MASK = 1" by (simp add: and_VALUE_MASK)
  moreover from this have "(STATE_ACTIVE OR 1) AND VALUE_MASK = 1" using active_state(2) [of 1] by simp
  moreover have "(0 :: u64) AND NOT VALUE_MASK \<noteq> STATE_ACTIVE" using states_distinct(2) by (simp add: STATE_FREE_def)
  ultimately show "makes_room (\<lambda>_. True) demo_bus 1 demo_catch_up"
    by (auto simp: makes_room_def demo_catch_up_def slot_live_def STATE_FREE_def active_state capacity_def demo_bus_def)
qed

theorem publish_returns_witness:
  "bus_reach 8 8 demo_full \<and>
   (\<exists>b' m'. bus_publish (\<lambda>_. True) (Some 11) demo_tick [id, demo_catch_up] (by_bus demo_full) (by_shm demo_full) = Some (b', m') \<and>
      bh_write_seq m' = 2)"
proof -
  have "\<forall>e \<in> set [id, demo_catch_up]. reader_action e" using demo_catch_up_ok(1) reader_action_id by simp
  moreover have "bh_write_seq (by_shm demo_full) = 1" by (simp add: demo_full_def)
  ultimately show ?thesis
    using publish_returns [OF demo_full_reach, of "[id, demo_catch_up]" "\<lambda>_. True" "Some 11" demo_tick] demo_catch_up_ok(2) demo_full_reach
    by (auto simp: demo_attached)
qed



end
