(* ===== verification/Seqlock.thy ===== *)
theory Seqlock
  imports PodBus
begin

unbundle bit_operations_syntax

text \<open>
  The slot protocol of the broadcast ring (\<open>publish_unchecked\<close> and \<open>try_recv\<close> in
  \<open>src/platform/pod_bus.rs\<close>) one memory access at a time: the publisher copies its value byte by byte
  between the stores of an odd and an even stamp, and any number of subscribers copy the slot byte by byte
  between two loads of the stamp, in any interleaving and in a sequentially consistent memory.  The final
  decision of a reader is \<open>recv_slot\<close> of theory \<open>PodBus\<close> on what it loaded.

  Ghost fields record the committed values and what the subscribers received.  The invariant shows that a
  value that a subscriber returns is never torn and is the one published under its cursor.
\<close>

section \<open>State and steps\<close>

datatype writer_pc = WrIdle | WrData bytes nat | WrCommit

datatype scanner_pc = ScIdle bus_subscriber | ScSlot bus_subscriber | ScData bus_subscriber u64 bytes

record lock_state =
  lk_stamp :: "nat \<Rightarrow> u64"
  lk_data :: "nat \<Rightarrow> bytes"
  lk_write_seq :: u64
  lk_pub :: writer_pc
  lk_readers :: "nat \<Rightarrow> scanner_pc"
  lk_log :: "bytes list"
  lk_results :: "(u64 \<times> bytes) list"

abbreviation writer_slot :: "u64 \<Rightarrow> lock_state \<Rightarrow> nat" where
  "writer_slot rmask \<sigma> \<equiv> unat (lk_write_seq \<sigma> AND rmask)"

abbreviation reader_slot :: "bus_subscriber \<Rightarrow> nat" where
  "reader_slot sub \<equiv> unat (cursor sub AND bs_mask sub)"

text \<open>The first access of a publication: the odd stamp.  Fewer than \<open>2^62\<close> values are published.\<close>

definition begin_write :: "u64 \<Rightarrow> nat \<Rightarrow> bytes \<Rightarrow> lock_state \<Rightarrow> lock_state option" where
  "begin_write rmask size_of_T value \<sigma> =
     (if lk_pub \<sigma> = WrIdle \<and> length value = size_of_T \<and> unat (lk_write_seq \<sigma>) < 2 ^ 62
      then Some (\<sigma>\<lparr>lk_stamp := (lk_stamp \<sigma>)(writer_slot rmask \<sigma> := lk_write_seq \<sigma> * 2 + 1), lk_pub := WrData value 0\<rparr>)
      else None)"

definition writer_access :: "u64 \<Rightarrow> lock_state \<Rightarrow> lock_state option" where
  "writer_access rmask \<sigma> =
     (let i = writer_slot rmask \<sigma> in
      case lk_pub \<sigma> of
        WrIdle \<Rightarrow> None
      | WrData value k \<Rightarrow>
          if k < length value
          then Some (\<sigma>\<lparr>lk_data := (lk_data \<sigma>)(i := (lk_data \<sigma> i)[k := value ! k]), lk_pub := WrData value (Suc k)\<rparr>)
          else Some (\<sigma>\<lparr>lk_stamp := (lk_stamp \<sigma>)(i := lk_write_seq \<sigma> * 2 + 2), lk_pub := WrCommit, lk_log := lk_log \<sigma> @ [value]\<rparr>)
      | WrCommit \<Rightarrow> Some (\<sigma>\<lparr>lk_write_seq := lk_write_seq \<sigma> + 1, lk_pub := WrIdle\<rparr>))"

abbreviation set_scanner :: "nat \<Rightarrow> scanner_pc \<Rightarrow> lock_state \<Rightarrow> lock_state" where
  "set_scanner r pc \<sigma> \<equiv> \<sigma>\<lparr>lk_readers := (lk_readers \<sigma>)(r := pc)\<rparr>"

definition scanner_access :: "nat \<Rightarrow> nat \<Rightarrow> lock_state \<Rightarrow> lock_state" where
  "scanner_access size_of_T r \<sigma> =
     (case lk_readers \<sigma> r of
        ScIdle sub \<Rightarrow>
          let head = lk_write_seq \<sigma> in
          if cursor sub \<ge> head then \<sigma> else set_scanner r (ScSlot (skip_ahead head sub)) \<sigma>
      | ScSlot sub \<Rightarrow>
          let stamp_before = lk_stamp \<sigma> (reader_slot sub) in
          if stamp_before AND 1 \<noteq> 0 then set_scanner r (ScIdle sub) \<sigma>
          else if stamp_before = 0 then set_scanner r (ScIdle sub) \<sigma>
          else set_scanner r (ScData sub stamp_before []) \<sigma>
      | ScData sub stamp_before value \<Rightarrow>
          if length value < size_of_T
          then set_scanner r (ScData sub stamp_before (value @ [lk_data \<sigma> (reader_slot sub) ! length value])) \<sigma>
          else (case recv_slot stamp_before value (lk_stamp \<sigma> (reader_slot sub)) sub of
              (None, sub') \<Rightarrow> set_scanner r (ScIdle sub') \<sigma>
            | (Some v, sub') \<Rightarrow> (set_scanner r (ScIdle sub') \<sigma>)\<lparr>lk_results := (cursor sub, v) # lk_results \<sigma>\<rparr>))"

definition lock_init :: "nat \<Rightarrow> (nat \<Rightarrow> bus_subscriber) \<Rightarrow> lock_state" where
  "lock_init size_of_T subs =
     \<lparr>lk_stamp = (\<lambda>_. 0), lk_data = (\<lambda>_. replicate size_of_T 0), lk_write_seq = 0, lk_pub = WrIdle,
      lk_readers = (\<lambda>r. ScIdle (subs r)), lk_log = [], lk_results = []\<rparr>"

inductive lock_reach :: "u64 \<Rightarrow> nat \<Rightarrow> (nat \<Rightarrow> bus_subscriber) \<Rightarrow> lock_state \<Rightarrow> bool" for rmask size_of_T subs where
  lock_start: "lock_reach rmask size_of_T subs (lock_init size_of_T subs)"
| lock_begin: "lock_reach rmask size_of_T subs \<sigma> \<Longrightarrow> begin_write rmask size_of_T value \<sigma> = Some \<sigma>' \<Longrightarrow> lock_reach rmask size_of_T subs \<sigma>'"
| lock_write: "lock_reach rmask size_of_T subs \<sigma> \<Longrightarrow> writer_access rmask \<sigma> = Some \<sigma>' \<Longrightarrow> lock_reach rmask size_of_T subs \<sigma>'"
| lock_scan: "lock_reach rmask size_of_T subs \<sigma> \<Longrightarrow> lock_reach rmask size_of_T subs (scanner_access size_of_T r \<sigma>)"

section \<open>The invariant\<close>

text \<open>A slot with an even stamp holds the value of the sequence number in the stamp.\<close>

definition holds :: "bytes list \<Rightarrow> u64 \<Rightarrow> bytes \<Rightarrow> bool" where
  "holds log st d \<longleftrightarrow> (\<exists>q < length log. unat st = 2 * q + 2 \<and> d = log ! q)"

definition slots_inv :: "u64 \<Rightarrow> nat \<Rightarrow> lock_state \<Rightarrow> bool" where
  "slots_inv rmask size_of_T \<sigma> \<longleftrightarrow>
     (\<forall>i. length (lk_data \<sigma> i) = size_of_T \<and>
       (lk_stamp \<sigma> i = 0 \<or> holds (lk_log \<sigma>) (lk_stamp \<sigma> i) (lk_data \<sigma> i) \<or>
        (\<exists>v k. lk_pub \<sigma> = WrData v k) \<and> i = writer_slot rmask \<sigma> \<and> unat (lk_stamp \<sigma> i) = 2 * unat (lk_write_seq \<sigma>) + 1))"

definition writer_inv :: "u64 \<Rightarrow> nat \<Rightarrow> lock_state \<Rightarrow> bool" where
  "writer_inv rmask size_of_T \<sigma> \<longleftrightarrow>
     (let n = unat (lk_write_seq \<sigma>); i = writer_slot rmask \<sigma> in
      case lk_pub \<sigma> of
        WrIdle \<Rightarrow> length (lk_log \<sigma>) = n \<and> n \<le> 2 ^ 62
      | WrData v k \<Rightarrow> length (lk_log \<sigma>) = n \<and> n < 2 ^ 62 \<and> length v = size_of_T \<and> k \<le> size_of_T \<and>
          take k (lk_data \<sigma> i) = take k v \<and> unat (lk_stamp \<sigma> i) = 2 * n + 1
      | WrCommit \<Rightarrow> length (lk_log \<sigma>) = Suc n \<and> n < 2 ^ 62)"

text \<open>As long as the stamp has not changed, a reader has a prefix of the value; a stamp never goes back.\<close>

definition scanner_ok :: "nat \<Rightarrow> lock_state \<Rightarrow> scanner_pc \<Rightarrow> bool" where
  "scanner_ok size_of_T \<sigma> pc \<longleftrightarrow>
     (case pc of
        ScIdle sub \<Rightarrow> True
      | ScSlot sub \<Rightarrow> cursor sub \<le> lk_write_seq \<sigma>
      | ScData sub st acc \<Rightarrow>
          cursor sub \<le> lk_write_seq \<sigma> \<and> st \<le> lk_stamp \<sigma> (reader_slot sub) \<and> even (unat st) \<and> length acc \<le> size_of_T \<and>
          (lk_stamp \<sigma> (reader_slot sub) = st \<longrightarrow> acc = take (length acc) (lk_data \<sigma> (reader_slot sub))))"

definition results_ok :: "lock_state \<Rightarrow> bool" where
  "results_ok \<sigma> \<longleftrightarrow> (\<forall>(q, v) \<in> set (lk_results \<sigma>). unat q < length (lk_log \<sigma>) \<and> lk_log \<sigma> ! unat q = v)"

definition lock_inv :: "u64 \<Rightarrow> nat \<Rightarrow> lock_state \<Rightarrow> bool" where
  "lock_inv rmask size_of_T \<sigma> \<longleftrightarrow> slots_inv rmask size_of_T \<sigma> \<and> writer_inv rmask size_of_T \<sigma> \<and>
     (\<forall>r. scanner_ok size_of_T \<sigma> (lk_readers \<sigma> r)) \<and> results_ok \<sigma>"

lemma lock_init_inv: "lock_inv rmask size_of_T (lock_init size_of_T subs)"
  by (simp add: lock_inv_def lock_init_def slots_inv_def writer_inv_def scanner_ok_def results_ok_def)

lemma holds_append: "holds log st d \<Longrightarrow> holds (log @ xs) st d"
  unfolding holds_def by (metis length_append nth_append trans_less_add1)

lemma stamp_nat:
  assumes "unat (n :: u64) < 2 ^ 62"
  shows "unat (n * 2 + 1) = 2 * unat n + 1" "unat (n * 2 + 2) = 2 * unat n + 2"
  using assms by (simp_all add: unat_word_ariths)

lemma and_one_even: "(w :: u64) AND 1 = 0 \<longleftrightarrow> even (unat w)"
  by (simp add: and_one_eq word_unat_eq_iff unat_mod even_iff_mod_2_eq_zero)

text \<open>Before a publication starts, every stamp is smaller than the one it will write.\<close>

lemma stamp_bound:
  assumes "slots_inv rmask size_of_T \<sigma>" "\<And>v k. lk_pub \<sigma> \<noteq> WrData v k"
  shows "unat (lk_stamp \<sigma> i) \<le> 2 * length (lk_log \<sigma>)"
  using assms unfolding slots_inv_def holds_def by (auto dest!: spec [of _ i])

section \<open>Preservation\<close>

text \<open>A reader of the slot that is being written has lost; readers of other slots notice nothing.\<close>

lemma scanner_ok_frame:
  assumes "scanner_ok size_of_T \<sigma> pc" "lk_write_seq \<sigma> \<le> lk_write_seq \<sigma>'"
    and "\<And>i. lk_stamp \<sigma>' i = lk_stamp \<sigma> i \<and> (lk_data \<sigma>' i = lk_data \<sigma> i \<or> odd (unat (lk_stamp \<sigma> i))) \<or> lk_stamp \<sigma> i < lk_stamp \<sigma>' i"
  shows "scanner_ok size_of_T \<sigma>' pc"
proof (cases pc)
  case (ScData sub st acc)
  with assms(1) have a: "cursor sub \<le> lk_write_seq \<sigma>" "st \<le> lk_stamp \<sigma> (reader_slot sub)" "even (unat st)" "length acc \<le> size_of_T"
    "lk_stamp \<sigma> (reader_slot sub) = st \<Longrightarrow> acc = take (length acc) (lk_data \<sigma> (reader_slot sub))" by (simp_all add: scanner_ok_def)
  have "cursor sub \<le> lk_write_seq \<sigma>'" using a(1) assms(2) by simp
  then show ?thesis using a(2-5) assms(3) [of "reader_slot sub"] ScData by (auto simp: scanner_ok_def)
qed (use assms in \<open>auto simp: scanner_ok_def\<close>)

lemma begin_write_inv:
  assumes inv: "lock_inv rmask size_of_T \<sigma>" and st: "begin_write rmask size_of_T value \<sigma> = Some \<sigma>'"
  shows "lock_inv rmask size_of_T \<sigma>'"
proof -
  let ?i = "writer_slot rmask \<sigma>" and ?n = "unat (lk_write_seq \<sigma>)"
  have pc: "lk_pub \<sigma> = WrIdle" "length value = size_of_T" "?n < 2 ^ 62"
    and \<sigma>': "\<sigma>' = \<sigma>\<lparr>lk_stamp := (lk_stamp \<sigma>)(?i := lk_write_seq \<sigma> * 2 + 1), lk_pub := WrData value 0\<rparr>"
    using st by (auto simp: begin_write_def split: if_splits)
  have S: "slots_inv rmask size_of_T \<sigma>" and W: "writer_inv rmask size_of_T \<sigma>" and R: "\<And>r. scanner_ok size_of_T \<sigma> (lk_readers \<sigma> r)"
    using inv by (simp_all add: lock_inv_def)
  have lg: "length (lk_log \<sigma>) = ?n" using W pc(1) by (simp add: writer_inv_def Let_def)
  have lt: "lk_stamp \<sigma> ?i < lk_write_seq \<sigma> * 2 + 1"
    using stamp_bound [OF S, of ?i] pc(1) lg stamp_nat(1) [OF pc(3)] by (simp add: word_less_nat_alt)
  have "scanner_ok size_of_T \<sigma>' (lk_readers \<sigma>' r)" for r
    using scanner_ok_frame [OF R, of \<sigma>' r] lt by (simp add: \<sigma>')
  moreover have "slots_inv rmask size_of_T \<sigma>'" using S stamp_nat(1) [OF pc(3)] pc(1) by (simp add: slots_inv_def \<sigma>')
  moreover have "writer_inv rmask size_of_T \<sigma>'" using pc lg stamp_nat(1) [OF pc(3)] by (simp add: writer_inv_def \<sigma>')
  moreover have "results_ok \<sigma>'" using inv by (simp add: lock_inv_def results_ok_def \<sigma>')
  ultimately show ?thesis by (simp add: lock_inv_def)
qed

lemma write_byte_inv:
  assumes inv: "lock_inv rmask size_of_T \<sigma>" and pc: "lk_pub \<sigma> = WrData value k" "k < length value"
    and \<sigma>': "\<sigma>' = \<sigma>\<lparr>lk_data := (lk_data \<sigma>)(writer_slot rmask \<sigma> := (lk_data \<sigma> (writer_slot rmask \<sigma>))[k := value ! k]), lk_pub := WrData value (Suc k)\<rparr>"
  shows "lock_inv rmask size_of_T \<sigma>'"
proof -
  let ?i = "writer_slot rmask \<sigma>" and ?n = "unat (lk_write_seq \<sigma>)"
  have S: "slots_inv rmask size_of_T \<sigma>" and W: "writer_inv rmask size_of_T \<sigma>" and R: "\<And>r. scanner_ok size_of_T \<sigma> (lk_readers \<sigma> r)"
    using inv by (simp_all add: lock_inv_def)
  have W': "length (lk_log \<sigma>) = ?n" "?n < 2 ^ 62" "length value = size_of_T" "take k (lk_data \<sigma> ?i) = take k value" "unat (lk_stamp \<sigma> ?i) = 2 * ?n + 1"
    using W pc(1) by (simp_all add: writer_inv_def Let_def)
  have len: "length (lk_data \<sigma> ?i) = size_of_T" using S by (simp add: slots_inv_def)
  have "scanner_ok size_of_T \<sigma>' (lk_readers \<sigma>' r)" for r
    using scanner_ok_frame [OF R, of \<sigma>' r] W'(5) by (simp add: \<sigma>')
  moreover have "slots_inv rmask size_of_T \<sigma>'" using S W'(5) pc(1) by (auto simp: slots_inv_def \<sigma>')
  moreover have "writer_inv rmask size_of_T \<sigma>'"
    using W' pc len by (simp add: writer_inv_def \<sigma>' Let_def take_Suc_conv_app_nth)
  moreover have "results_ok \<sigma>'" using inv by (simp add: lock_inv_def results_ok_def \<sigma>')
  ultimately show ?thesis by (simp add: lock_inv_def)
qed

lemma commit_inv:
  assumes inv: "lock_inv rmask size_of_T \<sigma>" and pc: "lk_pub \<sigma> = WrData value k" "\<not> k < length value"
    and \<sigma>': "\<sigma>' = \<sigma>\<lparr>lk_stamp := (lk_stamp \<sigma>)(writer_slot rmask \<sigma> := lk_write_seq \<sigma> * 2 + 2), lk_pub := WrCommit, lk_log := lk_log \<sigma> @ [value]\<rparr>"
  shows "lock_inv rmask size_of_T \<sigma>'"
proof -
  let ?i = "writer_slot rmask \<sigma>" and ?n = "unat (lk_write_seq \<sigma>)"
  have S: "slots_inv rmask size_of_T \<sigma>" and W: "writer_inv rmask size_of_T \<sigma>" and R: "\<And>r. scanner_ok size_of_T \<sigma> (lk_readers \<sigma> r)"
    using inv by (simp_all add: lock_inv_def)
  have W': "length (lk_log \<sigma>) = ?n" "?n < 2 ^ 62" "length value = size_of_T" "k = size_of_T" "take k (lk_data \<sigma> ?i) = value" "unat (lk_stamp \<sigma> ?i) = 2 * ?n + 1"
    using W pc by (auto simp: writer_inv_def Let_def)
  have len: "length (lk_data \<sigma> j) = size_of_T" for j using S by (simp add: slots_inv_def)
  have d: "lk_data \<sigma> ?i = value" using W'(3-5) len by simp
  have sn: "unat (lk_write_seq \<sigma> * 2 + 2) = 2 * ?n + 2" by (rule stamp_nat(2) [OF W'(2)])
  then have lt: "lk_stamp \<sigma> ?i < lk_write_seq \<sigma> * 2 + 2" using W'(6) by (simp add: word_less_nat_alt)
  have "scanner_ok size_of_T \<sigma>' (lk_readers \<sigma>' r)" for r
    using scanner_ok_frame [OF R, of \<sigma>' r] lt by (simp add: \<sigma>')
  moreover have "slots_inv rmask size_of_T \<sigma>'" unfolding slots_inv_def
  proof (intro allI conjI)
    fix j
    show "length (lk_data \<sigma>' j) = size_of_T" by (simp add: \<sigma>' len)
    have "holds (lk_log \<sigma> @ [value]) (lk_write_seq \<sigma> * 2 + 2) value"
      unfolding holds_def by (rule exI [of _ ?n]) (simp add: sn W'(1) nth_append)
    moreover have "lk_stamp \<sigma> j = 0 \<or> holds (lk_log \<sigma>) (lk_stamp \<sigma> j) (lk_data \<sigma> j)" if "j \<noteq> ?i" using S that by (auto simp: slots_inv_def)
    ultimately have "lk_stamp \<sigma>' j = 0 \<or> holds (lk_log \<sigma>') (lk_stamp \<sigma>' j) (lk_data \<sigma>' j)"
      using d holds_append by (cases "j = ?i") (auto simp: \<sigma>')
    then show "lk_stamp \<sigma>' j = 0 \<or> holds (lk_log \<sigma>') (lk_stamp \<sigma>' j) (lk_data \<sigma>' j) \<or>
        (\<exists>v k. lk_pub \<sigma>' = WrData v k) \<and> j = writer_slot rmask \<sigma>' \<and> unat (lk_stamp \<sigma>' j) = 2 * unat (lk_write_seq \<sigma>') + 1" by blast
  qed
  moreover have "writer_inv rmask size_of_T \<sigma>'" using W' by (simp add: writer_inv_def \<sigma>')
  moreover have "results_ok \<sigma>'" using inv by (auto simp: lock_inv_def results_ok_def \<sigma>' nth_append less_SucI)
  ultimately show ?thesis by (simp add: lock_inv_def)
qed

lemma advance_inv:
  assumes inv: "lock_inv rmask size_of_T \<sigma>" and pc: "lk_pub \<sigma> = WrCommit"
    and \<sigma>': "\<sigma>' = \<sigma>\<lparr>lk_write_seq := lk_write_seq \<sigma> + 1, lk_pub := WrIdle\<rparr>"
  shows "lock_inv rmask size_of_T \<sigma>'"
proof -
  let ?n = "unat (lk_write_seq \<sigma>)"
  have W: "length (lk_log \<sigma>) = Suc ?n" "?n < 2 ^ 62" using inv pc by (simp_all add: lock_inv_def writer_inv_def Let_def)
  have n: "unat (lk_write_seq \<sigma> + 1) = Suc ?n" using W(2) by (simp add: unat_word_ariths)
  then have le: "lk_write_seq \<sigma> \<le> lk_write_seq \<sigma>'" by (simp add: \<sigma>' word_le_nat_alt)
  have R: "\<And>r. scanner_ok size_of_T \<sigma> (lk_readers \<sigma> r)" using inv by (simp add: lock_inv_def)
  have "scanner_ok size_of_T \<sigma>' (lk_readers \<sigma>' r)" for r
    using scanner_ok_frame [OF R le, of r] by (simp add: \<sigma>')
  moreover have "slots_inv rmask size_of_T \<sigma>'" using inv pc by (auto simp: lock_inv_def slots_inv_def \<sigma>')
  moreover have "writer_inv rmask size_of_T \<sigma>'" using W n by (simp add: writer_inv_def \<sigma>')
  moreover have "results_ok \<sigma>'" using inv by (simp add: lock_inv_def results_ok_def \<sigma>')
  ultimately show ?thesis by (simp add: lock_inv_def)
qed

lemma writer_access_inv:
  assumes "lock_inv rmask size_of_T \<sigma>" "writer_access rmask \<sigma> = Some \<sigma>'"
  shows "lock_inv rmask size_of_T \<sigma>'"
proof (cases "lk_pub \<sigma>")
  case (WrData v k)
  with assms show ?thesis using write_byte_inv [OF assms(1) WrData] commit_inv [OF assms(1) WrData]
    by (cases "k < length v") (simp_all add: writer_access_def Let_def)
next
  case WrCommit
  with assms(2) show ?thesis by (intro advance_inv [OF assms(1) WrCommit]) (simp add: writer_access_def Let_def)
qed (use assms in \<open>simp add: writer_access_def Let_def\<close>)

text \<open>A reader changes only its own place and the results.\<close>

lemma set_scanner_inv:
  assumes "lock_inv rmask size_of_T \<sigma>" "scanner_ok size_of_T \<sigma> pc"
    and "set rs \<subseteq> {(q, v). unat q < length (lk_log \<sigma>) \<and> lk_log \<sigma> ! unat q = v}"
  shows "lock_inv rmask size_of_T ((set_scanner r pc \<sigma>)\<lparr>lk_results := rs\<rparr>)"
proof -
  let ?\<sigma> = "(set_scanner r pc \<sigma>)\<lparr>lk_results := rs\<rparr>"
  have "slots_inv rmask size_of_T ?\<sigma> = slots_inv rmask size_of_T \<sigma>" by (simp add: slots_inv_def)
  moreover have "writer_inv rmask size_of_T ?\<sigma> = writer_inv rmask size_of_T \<sigma>"
    by (cases "lk_pub \<sigma>") (simp_all add: writer_inv_def Let_def)
  moreover have "scanner_ok size_of_T ?\<sigma> x = scanner_ok size_of_T \<sigma> x" for x by (cases x) (simp_all add: scanner_ok_def)
  moreover have "results_ok ?\<sigma>" using assms(3) by (auto simp: results_ok_def)
  ultimately show ?thesis using assms(1,2) by (simp add: lock_inv_def)
qed

lemma skip_ahead_cursor: "cursor sub < head \<Longrightarrow> cursor (skip_ahead head sub) \<le> head"
  by (auto simp: skip_ahead_def word_le_nat_alt word_less_nat_alt unat_sub_if' split: if_splits)

text \<open>The stamp a reader expects names its cursor.\<close>

lemma expected_stamp:
  assumes "unat (c :: u64) < 2 ^ 63 - 1" "unat (c * 2 + 2) = 2 * q + 2"
  shows "unat c = q"
  using assms by (simp add: unat_word_ariths)

lemma accepted_value:
  assumes inv: "lock_inv rmask size_of_T \<sigma>" and pc: "lk_readers \<sigma> r = ScData sub st acc" and "length acc = size_of_T"
    and rs: "recv_slot st acc (lk_stamp \<sigma> (reader_slot sub)) sub = (Some v, sub')"
  shows "unat (cursor sub) < length (lk_log \<sigma>)" "lk_log \<sigma> ! unat (cursor sub) = v"
proof -
  let ?i = "reader_slot sub" and ?n = "unat (lk_write_seq \<sigma>)"
  have S: "slots_inv rmask size_of_T \<sigma>" and W: "writer_inv rmask size_of_T \<sigma>" and "scanner_ok size_of_T \<sigma> (ScData sub st acc)"
    using inv pc unfolding lock_inv_def by metis+
  then have R: "cursor sub \<le> lk_write_seq \<sigma>" "even (unat st)" "lk_stamp \<sigma> ?i = st \<Longrightarrow> acc = take (length acc) (lk_data \<sigma> ?i)"
    by (simp_all add: scanner_ok_def)
  have acc: "st \<noteq> 0" "lk_stamp \<sigma> ?i = st" "st = cursor sub * 2 + 2" "v = acc"
    using rs by (auto simp: recv_slot_def Let_def split: if_splits)
  have "acc = lk_data \<sigma> ?i" using R(3) [OF acc(2)] assms(3) S by (simp add: slots_inv_def)
  moreover have "holds (lk_log \<sigma>) st (lk_data \<sigma> ?i)" using S acc(1,2) R(2) by (auto simp: slots_inv_def)
  ultimately obtain q where q: "q < length (lk_log \<sigma>)" "unat st = 2 * q + 2" "acc = lk_log \<sigma> ! q" unfolding holds_def by blast
  have "?n \<le> 2 ^ 62" using W by (auto simp: writer_inv_def Let_def split: writer_pc.splits)
  then have "unat (cursor sub) < 2 ^ 63 - 1" using R(1) by (simp add: word_le_nat_alt)
  from expected_stamp [OF this, of q] q acc(3,4) show "unat (cursor sub) < length (lk_log \<sigma>)" "lk_log \<sigma> ! unat (cursor sub) = v" by simp_all
qed

lemma scanner_access_inv:
  assumes inv: "lock_inv rmask size_of_T \<sigma>"
  shows "lock_inv rmask size_of_T (scanner_access size_of_T r \<sigma>)"
proof -
  have res: "set (lk_results \<sigma>) \<subseteq> {(q, v). unat q < length (lk_log \<sigma>) \<and> lk_log \<sigma> ! unat q = v}"
    using inv by (auto simp: lock_inv_def results_ok_def)
  have keep: "lock_inv rmask size_of_T (set_scanner r pc \<sigma>)" if "scanner_ok size_of_T \<sigma> pc" for pc
    using set_scanner_inv [OF inv that res, of r] by simp
  have idle: "scanner_ok size_of_T \<sigma> (ScIdle sub)" for sub by (simp add: scanner_ok_def)
  have ok: "scanner_ok size_of_T \<sigma> (lk_readers \<sigma> r)" using inv by (simp add: lock_inv_def)
  show ?thesis
  proof (cases "lk_readers \<sigma> r")
    case (ScIdle sub)
    then show ?thesis using inv skip_ahead_cursor [of sub "lk_write_seq \<sigma>"]
      by (auto simp: scanner_access_def Let_def not_le scanner_ok_def intro!: keep)
  next
    case (ScSlot sub)
    let ?st = "lk_stamp \<sigma> (reader_slot sub)"
    have "scanner_ok size_of_T \<sigma> (ScData sub ?st [])" if "?st AND 1 = 0"
      using ok ScSlot that by (simp add: scanner_ok_def and_one_even)
    then show ?thesis using ScSlot by (auto simp: scanner_access_def Let_def intro!: keep idle)
  next
    case (ScData sub st acc)
    show ?thesis
    proof (cases "length acc < size_of_T")
      case True
      have "length (lk_data \<sigma> (reader_slot sub)) = size_of_T" using inv by (simp add: lock_inv_def slots_inv_def)
      then have "scanner_ok size_of_T \<sigma> (ScData sub st (acc @ [lk_data \<sigma> (reader_slot sub) ! length acc]))"
        using ok ScData True by (auto simp: scanner_ok_def take_Suc_conv_app_nth)
      with ScData True show ?thesis by (simp add: scanner_access_def keep)
    next
      case False
      obtain v sub' where rs: "recv_slot st acc (lk_stamp \<sigma> (reader_slot sub)) sub = (v, sub')" by (metis surj_pair)
      have len: "length acc = size_of_T" using False ok ScData by (simp add: scanner_ok_def)
      show ?thesis
      proof (cases v)
        case None
        with ScData False rs show ?thesis by (simp add: scanner_access_def keep idle)
      next
        case (Some x)
        from accepted_value [OF inv ScData len rs [unfolded Some]] set_scanner_inv [OF inv idle, of "(cursor sub, x) # lk_results \<sigma>" r sub'] res
        show ?thesis using ScData False rs Some by (simp add: scanner_access_def)
      qed
    qed
  qed
qed

lemma lock_reach_inv: "lock_reach rmask size_of_T subs \<sigma> \<Longrightarrow> lock_inv rmask size_of_T \<sigma>"
  by (induction rule: lock_reach.induct) (auto intro: lock_init_inv begin_write_inv writer_access_inv scanner_access_inv)

section \<open>Properties\<close>

text \<open>
  \<^bold>\<open>C34.\<close> No torn reads.  Under every interleaving of the publisher's byte-wise writes with the byte-wise reads of any
  number of subscribers, every value that a subscriber has received under a cursor is exactly the value that
  was published with that sequence number.
\<close>

theorem bus_reads_not_torn:
  assumes "lock_reach rmask size_of_T subs \<sigma>" "(q, v) \<in> set (lk_results \<sigma>)"
  shows "unat q < length (lk_log \<sigma>) \<and> v = lk_log \<sigma> ! unat q"
  using lock_reach_inv [OF assms(1)] assms(2) by (auto simp: lock_inv_def results_ok_def)

text \<open>A publication of two bytes, and a read that starts in its middle, fails, and succeeds afterwards.\<close>

fun lock_run :: "u64 \<Rightarrow> nat \<Rightarrow> (bytes option + nat) list \<Rightarrow> lock_state \<Rightarrow> lock_state option" where
  "lock_run rmask size_of_T [] \<sigma> = Some \<sigma>"
| "lock_run rmask size_of_T (Inl (Some v) # as) \<sigma> =
     (case begin_write rmask size_of_T v \<sigma> of None \<Rightarrow> None | Some \<sigma> \<Rightarrow> lock_run rmask size_of_T as \<sigma>)"
| "lock_run rmask size_of_T (Inl None # as) \<sigma> =
     (case writer_access rmask \<sigma> of None \<Rightarrow> None | Some \<sigma> \<Rightarrow> lock_run rmask size_of_T as \<sigma>)"
| "lock_run rmask size_of_T (Inr r # as) \<sigma> = lock_run rmask size_of_T as (scanner_access size_of_T r \<sigma>)"

lemma lock_run_reach: "lock_run rmask size_of_T as \<sigma> = Some \<sigma>' \<Longrightarrow> lock_reach rmask size_of_T subs \<sigma> \<Longrightarrow> lock_reach rmask size_of_T subs \<sigma>'"
  by (induction rmask size_of_T as \<sigma> rule: lock_run.induct) (auto split: option.splits intro: lock_reach.intros)

definition demo_bus_sub :: bus_subscriber where
  "demo_bus_sub = \<lparr>bs_mask = 3, bs_ring_size = 4, cursor = 0, total_lagged = 0, slot_index = None\<rparr>"

lemma demo_bus_run:
  "map_option lk_results (lock_run 3 2 [Inl (Some [7, 8]), Inr 0, Inl None, Inr 0, Inl None, Inl None, Inl None,
     Inr 0, Inr 0, Inr 0, Inr 0, Inr 0] (lock_init 2 (\<lambda>_. demo_bus_sub))) = Some [(0, [7, 8])]"
  by (simp add: lock_init_def begin_write_def writer_access_def scanner_access_def Let_def skip_ahead_def recv_slot_def demo_bus_sub_def)

theorem bus_reads_not_torn_witness:
  "\<exists>\<sigma>. lock_reach 3 2 (\<lambda>_. demo_bus_sub) \<sigma> \<and> lk_results \<sigma> = [(0, [7, 8])] \<and> [7, 8] = lk_log \<sigma> ! 0"
proof -
  obtain \<sigma> where run: "lock_run 3 2 [Inl (Some [7, 8]), Inr 0, Inl None, Inr 0, Inl None, Inl None, Inl None,
     Inr 0, Inr 0, Inr 0, Inr 0, Inr 0] (lock_init 2 (\<lambda>_. demo_bus_sub)) = Some \<sigma>" and \<sigma>: "lk_results \<sigma> = [(0, [7, 8])]"
    using demo_bus_run by auto
  note r = lock_run_reach [OF run lock_start]
  from bus_reads_not_torn [OF r, of 0 "[7, 8]"] r \<sigma> show ?thesis by auto
qed

end
