(* ===== verification/Interleaved.thy ===== *)
theory Interleaved
  imports Ring
begin

unbundle bit_operations_syntax

text \<open>
  Publication and reading of one topic's ring, one atomic memory access at a time.  Where theory \<open>Ring\<close>
  runs \<open>commit_to_ring\<close> (\<open>src/protocol/region.rs\<close>) and theory \<open>Subscription\<close> runs \<open>try_read_slot_raw\<close>
  (\<open>src/platform/subscription.rs\<close>) as uninterrupted calls, here any number of publishers and readers
  take turns between any two accesses, in a sequentially consistent memory.  A publisher may stop for
  ever at any point, which is a crash.

  The block pool appears as the list of idle blocks: taking and returning a block is one step, as
  theory \<open>Treiber\<close> shows for the lock-free stack.  Steps that touch no shared memory (prefetching, spin
  hints, waking sleepers) are left out.  A failed compare-exchange changes nothing and is repeated, so
  the load and the exchange that succeeds on its value are one step in the slot claim.
\<close>

section \<open>State\<close>

text \<open>
  Where a publisher stands: without a loan; holding the loan of a block; having taken a sequence number for
  a block and a length, with the number of spins so far; having marked the slot; having read the old block;
  having set the new block's count; having stored the block index; the length; having closed the slot.
\<close>

datatype pub_pc =
    PubIdle
  | PubLoan u32
  | PubClaim u32 u32 u64 u32
  | PubMarked u32 u32 u64
  | PubOld u32 u32 u64 u32
  | PubCount u32 u32 u64 u32
  | PubIndex u32 u32 u64 u32
  | PubLen u32 u32 u64 u32
  | PubClosed u32

text \<open>
  Where a reader stands: before a read; after the first check of the sequence number; after loading the
  block index; the length; a nonzero count; having raised the count; having to undo that.
\<close>

datatype reader_pc =
    RdIdle
  | RdSeq u64
  | RdIdx u64 u32
  | RdLen u64 u32 u32
  | RdRc u64 u32 u32 u32
  | RdRef u64 u32 u32
  | RdUndo u32

text \<open>\<open>r_limbo\<close> holds the blocks whose count has just reached zero and that are about to be freed; \<open>r_log\<close> is a
  ghost field, the message published under each sequence number.\<close>

record ring_state =
  r_seq :: "u32 \<Rightarrow> u64"
  r_idx :: "u32 \<Rightarrow> u32"
  r_len :: "u32 \<Rightarrow> u32"
  r_rc :: "u32 \<Rightarrow> u32"
  r_data :: "u32 \<Rightarrow> bytes"
  r_write_seq :: u64
  r_idle :: "u32 list"
  r_limbo :: "u32 list"
  r_pubs :: "nat \<Rightarrow> pub_pc"
  r_readers :: "nat \<Rightarrow> reader_pc"
  r_samples :: "(u64 \<times> u32 \<times> u32) list"
  r_log :: "u64 \<Rightarrow> bytes \<times> u32"

datatype ring_action =
    Loan_block nat
  | Write_block nat bytes
  | Drop_loan nat
  | Take_seq nat u32
  | Pub_access nat
  | Start_read nat u64
  | Reader_access nat
  | Drop_sample nat
  | Free_block u32

section \<open>Steps\<close>

text \<open>\<open>fetch_sub\<close> on a block's count; the block is to be freed when the count was one.\<close>

definition drop_ref :: "u32 \<Rightarrow> ring_state \<Rightarrow> ring_state" where
  "drop_ref b \<sigma> =
     (let prev = r_rc \<sigma> b; \<sigma> = \<sigma>\<lparr>r_rc := (r_rc \<sigma>)(b := prev - 1)\<rparr>
      in if prev = 1 then \<sigma>\<lparr>r_limbo := b # r_limbo \<sigma>\<rparr> else \<sigma>)"

abbreviation set_pub :: "nat \<Rightarrow> pub_pc \<Rightarrow> ring_state \<Rightarrow> ring_state" where
  "set_pub p pc \<sigma> \<equiv> \<sigma>\<lparr>r_pubs := (r_pubs \<sigma>)(p := pc)\<rparr>"

abbreviation set_reader :: "nat \<Rightarrow> reader_pc \<Rightarrow> ring_state \<Rightarrow> ring_state" where
  "set_reader r pc \<sigma> \<equiv> \<sigma>\<lparr>r_readers := (r_readers \<sigma>)(r := pc)\<rparr>"

abbreviation mark_slot :: "u32 \<Rightarrow> ring_state \<Rightarrow> ring_state" where
  "mark_slot k \<sigma> \<equiv> \<sigma>\<lparr>r_seq := (r_seq \<sigma>)(k := SEQ_WRITING)\<rparr>"

text \<open>The next access of a publisher inside \<open>commit_to_ring\<close>.\<close>

definition pub_access :: "config \<Rightarrow> (nat \<Rightarrow> bool) \<Rightarrow> nat \<Rightarrow> ring_state \<Rightarrow> ring_state option" where
  "pub_access c single_publisher p \<sigma> =
     (case r_pubs \<sigma> p of
        PubClaim y l s spins \<Rightarrow>
          let k = ring_slot c s in
          if single_publisher p then Some (set_pub p (PubMarked y l s) (mark_slot k \<sigma>))
          else if r_seq \<sigma> k = SEQ_WRITING then
            (if spins + 1 > 1024 then Some (set_pub p (PubMarked y l s) (mark_slot k \<sigma>))
             else Some (set_pub p (PubClaim y l s (spins + 1)) \<sigma>))
          else Some (set_pub p (PubMarked y l s) (mark_slot k \<sigma>))
      | PubMarked y l s \<Rightarrow> Some (set_pub p (PubOld y l s (r_idx \<sigma> (ring_slot c s))) \<sigma>)
      | PubOld y l s x \<Rightarrow> Some (set_pub p (PubCount y l s x) (\<sigma>\<lparr>r_rc := (r_rc \<sigma>)(y := 1)\<rparr>))
      | PubCount y l s x \<Rightarrow> Some (set_pub p (PubIndex y l s x) (\<sigma>\<lparr>r_idx := (r_idx \<sigma>)(ring_slot c s := y)\<rparr>))
      | PubIndex y l s x \<Rightarrow> Some (set_pub p (PubLen y l s x) (\<sigma>\<lparr>r_len := (r_len \<sigma>)(ring_slot c s := l)\<rparr>))
      | PubLen y l s x \<Rightarrow> Some (set_pub p (PubClosed x) (\<sigma>\<lparr>r_seq := (r_seq \<sigma>)(ring_slot c s := s)\<rparr>))
      | PubClosed x \<Rightarrow>
          Some (if x \<noteq> NO_BLOCK \<and> x < block_count c then drop_ref x (set_pub p PubIdle \<sigma>) else set_pub p PubIdle \<sigma>)
      | _ \<Rightarrow> None)"

text \<open>The next access of a reader inside \<open>try_read_slot_raw\<close>; fewer than \<open>2^32\<close> references to a block exist.\<close>

definition reader_access :: "config \<Rightarrow> nat \<Rightarrow> ring_state \<Rightarrow> ring_state option" where
  "reader_access c r \<sigma> =
     (case r_readers \<sigma> r of
        RdSeq s \<Rightarrow> Some (set_reader r (RdIdx s (r_idx \<sigma> (ring_slot c s))) \<sigma>)
      | RdIdx s b \<Rightarrow> Some (set_reader r (RdLen s b (r_len \<sigma> (ring_slot c s))) \<sigma>)
      | RdLen s b l \<Rightarrow>
          if b = NO_BLOCK \<or> b \<ge> block_count c \<or> as_usize l > data_capacity c then Some (set_reader r RdIdle \<sigma>)
          else if r_rc \<sigma> b = 0 then Some (set_reader r RdIdle \<sigma>)
          else Some (set_reader r (RdRc s b l (r_rc \<sigma> b)) \<sigma>)
      | RdRc s b l rc \<Rightarrow>
          if r_rc \<sigma> b \<noteq> rc then Some (set_reader r (RdLen s b l) \<sigma>)
          else if rc = - 1 then None
          else Some (set_reader r (RdRef s b l) (\<sigma>\<lparr>r_rc := (r_rc \<sigma>)(b := rc + 1)\<rparr>))
      | RdRef s b l \<Rightarrow>
          if r_seq \<sigma> (ring_slot c s) \<noteq> s then Some (set_reader r (RdUndo b) \<sigma>)
          else Some (set_reader r RdIdle (\<sigma>\<lparr>r_samples := (s, b, l) # r_samples \<sigma>\<rparr>))
      | RdUndo b \<Rightarrow> Some (drop_ref b (set_reader r RdIdle \<sigma>))
      | RdIdle \<Rightarrow> None)"

fun ring_step :: "config \<Rightarrow> (nat \<Rightarrow> bool) \<Rightarrow> ring_action \<Rightarrow> ring_state \<Rightarrow> ring_state option" where
  "ring_step c single_publisher (Loan_block p) \<sigma> =
     (case (r_pubs \<sigma> p, r_idle \<sigma>) of
        (PubIdle, y # ys) \<Rightarrow> Some (set_pub p (PubLoan y) (\<sigma>\<lparr>r_idle := ys\<rparr>)) | _ \<Rightarrow> None)"
| "ring_step c single_publisher (Write_block p d) \<sigma> =
     (case r_pubs \<sigma> p of PubLoan y \<Rightarrow> Some (\<sigma>\<lparr>r_data := (r_data \<sigma>)(y := d)\<rparr>) | _ \<Rightarrow> None)"
| "ring_step c single_publisher (Drop_loan p) \<sigma> =
     (case r_pubs \<sigma> p of PubLoan y \<Rightarrow> Some (set_pub p PubIdle (\<sigma>\<lparr>r_limbo := y # r_limbo \<sigma>\<rparr>)) | _ \<Rightarrow> None)"
| "ring_step c single_publisher (Take_seq p l) \<sigma> =
     (case r_pubs \<sigma> p of
        PubLoan y \<Rightarrow>
          let s = r_write_seq \<sigma> + 1 in
          if s < SEQ_WRITING \<and> r_write_seq \<sigma> < s
          then Some (set_pub p (PubClaim y l s 0) (\<sigma>\<lparr>r_write_seq := s, r_log := (r_log \<sigma>)(s := (r_data \<sigma> y, l))\<rparr>))
          else None
      | _ \<Rightarrow> None)"
| "ring_step c single_publisher (Pub_access p) \<sigma> = pub_access c single_publisher p \<sigma>"
| "ring_step c single_publisher (Start_read r s) \<sigma> =
     (if r_readers \<sigma> r = RdIdle \<and> 0 < s \<and> s \<le> r_write_seq \<sigma>
      then Some (if r_seq \<sigma> (ring_slot c s) \<noteq> s then \<sigma> else set_reader r (RdSeq s) \<sigma>) else None)"
| "ring_step c single_publisher (Reader_access r) \<sigma> = reader_access c r \<sigma>"
| "ring_step c single_publisher (Drop_sample j) \<sigma> =
     (if j < length (r_samples \<sigma>)
      then Some (drop_ref (fst (snd (r_samples \<sigma> ! j))) (\<sigma>\<lparr>r_samples := take j (r_samples \<sigma>) @ drop (Suc j) (r_samples \<sigma>)\<rparr>))
      else None)"
| "ring_step c single_publisher (Free_block b) \<sigma> =
     (if b \<in> set (r_limbo \<sigma>) then Some (\<sigma>\<lparr>r_limbo := remove1 b (r_limbo \<sigma>), r_idle := b # r_idle \<sigma>\<rparr>) else None)"

text \<open>The state after \<open>create\<close>.\<close>

definition ring_init :: "config \<Rightarrow> ring_state" where
  "ring_init c =
     \<lparr>r_seq = (\<lambda>_. 0), r_idx = (\<lambda>_. NO_BLOCK), r_len = (\<lambda>_. 0), r_rc = (\<lambda>_. 0), r_data = (\<lambda>_. []), r_write_seq = 0,
      r_idle = map of_nat [0..<unat (block_count c)], r_limbo = [], r_pubs = (\<lambda>_. PubIdle), r_readers = (\<lambda>_. RdIdle),
      r_samples = [], r_log = (\<lambda>_. ([], 0))\<rparr>"

text \<open>
  A schedule is orderly when no publisher takes a slot that another one is still writing: it neither gives up
  spinning nor, in single-publisher mode, stores over the mark of another publisher.
\<close>

definition orderly :: "config \<Rightarrow> (nat \<Rightarrow> bool) \<Rightarrow> ring_action \<Rightarrow> ring_state \<Rightarrow> bool" where
  "orderly c single_publisher a \<sigma> \<longleftrightarrow>
     (case a of
        Pub_access p \<Rightarrow>
          (case r_pubs \<sigma> p of
             PubClaim y l s spins \<Rightarrow> r_seq \<sigma> (ring_slot c s) = SEQ_WRITING \<longrightarrow> \<not> single_publisher p \<and> spins < 1024
           | _ \<Rightarrow> True)
      | _ \<Rightarrow> True)"

fun actor_ok :: "nat \<Rightarrow> nat \<Rightarrow> ring_action \<Rightarrow> bool" where
  "actor_ok np nr (Start_read r s) \<longleftrightarrow> r < nr"
| "actor_ok np nr (Reader_access r) \<longleftrightarrow> r < nr"
| "actor_ok np nr (Drop_sample j) \<longleftrightarrow> True"
| "actor_ok np nr (Free_block b) \<longleftrightarrow> True"
| "actor_ok np nr (Loan_block p) \<longleftrightarrow> p < np"
| "actor_ok np nr (Write_block p d) \<longleftrightarrow> p < np"
| "actor_ok np nr (Drop_loan p) \<longleftrightarrow> p < np"
| "actor_ok np nr (Take_seq p l) \<longleftrightarrow> p < np"
| "actor_ok np nr (Pub_access p) \<longleftrightarrow> p < np"

text \<open>The states that \<open>np\<close> publishers and \<open>nr\<close> readers reach on schedules that satisfy \<open>sched\<close>.\<close>

inductive ring_reach ::
    "config \<Rightarrow> (nat \<Rightarrow> bool) \<Rightarrow> nat \<Rightarrow> nat \<Rightarrow> (ring_action \<Rightarrow> ring_state \<Rightarrow> bool) \<Rightarrow> ring_state \<Rightarrow> bool"
  for c single_publisher np nr sched where
  reach_start: "ring_reach c single_publisher np nr sched (ring_init c)"
| reach_next: "ring_reach c single_publisher np nr sched \<sigma> \<Longrightarrow> actor_ok np nr a \<Longrightarrow> sched a \<sigma> \<Longrightarrow>
    ring_step c single_publisher a \<sigma> = Some \<sigma>' \<Longrightarrow> ring_reach c single_publisher np nr sched \<sigma>'"

end
