(* ===== verification/Handover.thy ===== *)
theory Handover
  imports Interleaved
begin

text \<open>
  The invariant of theory \<open>Interleaved\<close> holds on every orderly schedule, so a sample always shows the message
  published under its sequence number and its block stays out of circulation while it is held.
\<close>

section \<open>Who holds a block\<close>

text \<open>A publisher owns its block until it sets the count.\<close>

fun held :: "pub_pc \<Rightarrow> u32 \<Rightarrow> nat" where
  "held (PubLoan y) b = of_bool (y = b)"
| "held (PubClaim y l s n) b = of_bool (y = b)"
| "held (PubMarked y l s) b = of_bool (y = b)"
| "held (PubOld y l s x) b = of_bool (y = b)"
| "held _ b = 0"

text \<open>Then it holds a reference to it, until the slot does; and to the old block, until it drops that.\<close>

fun pend :: "pub_pc \<Rightarrow> u32 \<Rightarrow> nat" where
  "pend (PubCount y l s x) b = of_bool (y = b)"
| "pend (PubIndex y l s x) b = of_bool (x = b)"
| "pend (PubLen y l s x) b = of_bool (x = b)"
| "pend (PubClosed x) b = of_bool (x = b)"
| "pend _ b = 0"

fun tent :: "reader_pc \<Rightarrow> u32 \<Rightarrow> nat" where
  "tent (RdRef s b' l) b = of_bool (b' = b)"
| "tent (RdUndo b') b = of_bool (b' = b)"
| "tent _ b = 0"

text \<open>The slot a publisher has marked, and the sequence number it is about to publish.\<close>

fun marks :: "config \<Rightarrow> pub_pc \<Rightarrow> u32 \<Rightarrow> nat" where
  "marks c (PubMarked y l s) k = of_bool (ring_slot c s = k)"
| "marks c (PubOld y l s x) k = of_bool (ring_slot c s = k)"
| "marks c (PubCount y l s x) k = of_bool (ring_slot c s = k)"
| "marks c (PubIndex y l s x) k = of_bool (ring_slot c s = k)"
| "marks c (PubLen y l s x) k = of_bool (ring_slot c s = k)"
| "marks c _ k = 0"

fun pub_seq :: "pub_pc \<Rightarrow> u64 option" where
  "pub_seq (PubClaim y l s n) = Some s"
| "pub_seq (PubMarked y l s) = Some s"
| "pub_seq (PubOld y l s x) = Some s"
| "pub_seq (PubCount y l s x) = Some s"
| "pub_seq (PubIndex y l s x) = Some s"
| "pub_seq (PubLen y l s x) = Some s"
| "pub_seq _ = None"

fun pub_msg :: "pub_pc \<Rightarrow> (u32 \<times> u32) option" where
  "pub_msg (PubClaim y l s n) = Some (y, l)"
| "pub_msg (PubMarked y l s) = Some (y, l)"
| "pub_msg (PubOld y l s x) = Some (y, l)"
| "pub_msg (PubCount y l s x) = Some (y, l)"
| "pub_msg (PubIndex y l s x) = Some (y, l)"
| "pub_msg (PubLen y l s x) = Some (y, l)"
| "pub_msg _ = None"

fun reader_seq :: "reader_pc \<Rightarrow> u64 option" where
  "reader_seq (RdSeq s) = Some s"
| "reader_seq (RdIdx s b) = Some s"
| "reader_seq (RdLen s b l) = Some s"
| "reader_seq (RdRc s b l n) = Some s"
| "reader_seq (RdRef s b l) = Some s"
| "reader_seq _ = None"

definition tally :: "('a \<Rightarrow> u32 \<Rightarrow> nat) \<Rightarrow> nat \<Rightarrow> (nat \<Rightarrow> 'a) \<Rightarrow> u32 \<Rightarrow> nat" where
  "tally f n P b = (\<Sum>p<n. f (P p) b)"

definition slot_refs :: "config \<Rightarrow> (u32 \<Rightarrow> u32) \<Rightarrow> u32 \<Rightarrow> nat" where
  "slot_refs c idx b = (\<Sum>k \<in> {..<ring_depth c}. of_bool (idx k = b))"

definition owns :: "nat \<Rightarrow> ring_state \<Rightarrow> u32 \<Rightarrow> nat" where
  "owns np \<sigma> b = count_list (r_idle \<sigma>) b + count_list (r_limbo \<sigma>) b + tally held np (r_pubs \<sigma>) b"

definition refs :: "config \<Rightarrow> nat \<Rightarrow> nat \<Rightarrow> ring_state \<Rightarrow> u32 \<Rightarrow> nat" where
  "refs c np nr \<sigma> b = slot_refs c (r_idx \<sigma>) b + tally pend np (r_pubs \<sigma>) b + tally tent nr (r_readers \<sigma>) b +
     count_list (map (fst \<circ> snd) (r_samples \<sigma>)) b"

lemma tally_upd: "p < n \<Longrightarrow> tally f n (P(p := v)) b + f (P p) b = tally f n P b + f v b"
proof -
  assume p: "p < n"
  have "tally f n Q b = f (Q p) b + (\<Sum>i \<in> {..<n} - {p}. f (Q i) b)" for Q
    unfolding tally_def using p by (intro sum.remove) auto
  note this [of P] this [of "P(p := v)"]
  moreover have "(\<Sum>i \<in> {..<n} - {p}. f ((P(p := v)) i) b) = (\<Sum>i \<in> {..<n} - {p}. f (P i) b)"
    by (rule sum.cong) auto
  ultimately show ?thesis by simp
qed

lemma tally_ge: "p < n \<Longrightarrow> f (P p) b \<le> tally f n P b"
  unfolding tally_def by (rule member_le_sum) auto

lemma tally_two:
  assumes "p < n" "q < n" "p \<noteq> q"
  shows "f (P p) b + f (P q) b \<le> tally f n P b"
proof -
  have "tally f n P b = f (P p) b + (\<Sum>i \<in> {..<n} - {p}. f (P i) b)"
    unfolding tally_def using assms(1) by (intro sum.remove) auto
  moreover have "f (P q) b \<le> (\<Sum>i \<in> {..<n} - {p}. f (P i) b)"
    by (rule member_le_sum) (use assms in auto)
  ultimately show ?thesis by simp
qed

lemma tally_same: "p < n \<Longrightarrow> (\<And>b. f v b = f (P p) b) \<Longrightarrow> tally f n (P(p := v)) = tally f n P"
  using tally_upd [of p n f P v] by (auto simp: fun_eq_iff)

lemma slot_refs_upd:
  "k < ring_depth c \<Longrightarrow> slot_refs c (idx(k := y)) b + of_bool (idx k = b) = slot_refs c idx b + of_bool (y = b)"
proof -
  assume k: "k < ring_depth c"
  let ?A = "{..<ring_depth c}"
  have "slot_refs c i b = of_bool (i k = b) + (\<Sum>j \<in> ?A - {k}. of_bool (i j = b))" for i
    unfolding slot_refs_def using k by (intro sum.remove) auto
  note this [of idx] this [of "idx(k := y)"]
  moreover have "(\<Sum>j \<in> ?A - {k}. of_bool ((idx(k := y)) j = b)) = (\<Sum>j \<in> ?A - {k}. of_bool (idx j = b) :: nat)"
    by (rule sum.cong) auto
  ultimately show ?thesis by simp
qed

lemma slot_refs_ge:
  assumes "k < ring_depth c" "idx k = b"
  shows "1 \<le> slot_refs c idx b"
proof -
  have "(of_bool (idx k = b) :: nat) \<le> slot_refs c idx b"
    unfolding slot_refs_def by (rule member_le_sum) (use assms in auto)
  then show ?thesis using assms(2) by simp
qed

section \<open>The invariant\<close>

text \<open>Every block's count is exact, and a block nobody refers to is owned exactly once.\<close>

definition counted :: "config \<Rightarrow> nat \<Rightarrow> nat \<Rightarrow> ring_state \<Rightarrow> bool" where
  "counted c np nr \<sigma> \<longleftrightarrow> (\<forall>b < block_count c. unat (r_rc \<sigma> b) = refs c np nr \<sigma> b \<and>
     owns np \<sigma> b = (if refs c np nr \<sigma> b = 0 then 1 else 0))"

fun reader_ok :: "config \<Rightarrow> reader_pc \<Rightarrow> bool" where
  "reader_ok c (RdRc s b l n) \<longleftrightarrow> b < block_count c \<and> n \<noteq> 0"
| "reader_ok c (RdRef s b l) \<longleftrightarrow> b < block_count c"
| "reader_ok c (RdUndo b) \<longleftrightarrow> b < block_count c"
| "reader_ok c _ \<longleftrightarrow> True"

fun pub_block :: "pub_pc \<Rightarrow> u32 option" where
  "pub_block PubIdle = None"
| "pub_block (PubLoan y) = Some y"
| "pub_block (PubClosed x) = None"
| "pub_block pc = map_option fst (pub_msg pc)"

definition ranged :: "config \<Rightarrow> nat \<Rightarrow> nat \<Rightarrow> ring_state \<Rightarrow> bool" where
  "ranged c np nr \<sigma> \<longleftrightarrow> (\<forall>b \<in> set (r_idle \<sigma>) \<union> set (r_limbo \<sigma>) \<union> (fst \<circ> snd) ` set (r_samples \<sigma>). b < block_count c) \<and>
     (\<forall>p < np. \<forall>y. pub_block (r_pubs \<sigma> p) = Some y \<longrightarrow> y < block_count c) \<and>
     (\<forall>r < nr. reader_ok c (r_readers \<sigma> r))"

text \<open>A slot is marked exactly while one publisher writes it, and that publisher knows what it holds.\<close>

definition slots_ok :: "config \<Rightarrow> nat \<Rightarrow> ring_state \<Rightarrow> bool" where
  "slots_ok c np \<sigma> \<longleftrightarrow>
     (\<forall>k < ring_depth c. tally (marks c) np (r_pubs \<sigma>) k = of_bool (r_seq \<sigma> k = SEQ_WRITING)) \<and>
     (\<forall>p < np. case r_pubs \<sigma> p of
        PubOld y l s x \<Rightarrow> r_idx \<sigma> (ring_slot c s) = x
      | PubCount y l s x \<Rightarrow> r_idx \<sigma> (ring_slot c s) = x
      | PubIndex y l s x \<Rightarrow> r_idx \<sigma> (ring_slot c s) = y
      | PubLen y l s x \<Rightarrow> r_idx \<sigma> (ring_slot c s) = y \<and> r_len \<sigma> (ring_slot c s) = l
      | _ \<Rightarrow> True)"

text \<open>A sequence number to be published is in no slot yet, and no other publisher or reader has it.\<close>

definition seqs_ok :: "config \<Rightarrow> nat \<Rightarrow> nat \<Rightarrow> ring_state \<Rightarrow> bool" where
  "seqs_ok c np nr \<sigma> \<longleftrightarrow> r_write_seq \<sigma> < SEQ_WRITING \<and>
     (\<forall>p < np. \<forall>s. pub_seq (r_pubs \<sigma> p) = Some s \<longrightarrow> 0 < s \<and> s \<le> r_write_seq \<sigma> \<and> (\<forall>k < ring_depth c. r_seq \<sigma> k \<noteq> s) \<and>
        (\<forall>q < np. q \<noteq> p \<longrightarrow> pub_seq (r_pubs \<sigma> q) \<noteq> Some s) \<and> (\<forall>r < nr. reader_seq (r_readers \<sigma> r) \<noteq> Some s)) \<and>
     (\<forall>k < ring_depth c. r_seq \<sigma> k \<noteq> SEQ_WRITING \<longrightarrow> r_seq \<sigma> k \<le> r_write_seq \<sigma>) \<and>
     (\<forall>r < nr. \<forall>s. reader_seq (r_readers \<sigma> r) = Some s \<longrightarrow> 0 < s \<and> s \<le> r_write_seq \<sigma>) \<and>
     (\<forall>(s, _) \<in> set (r_samples \<sigma>). s \<le> r_write_seq \<sigma>)"

text \<open>What slots, publishers and samples hold is what was published.\<close>

definition logs_ok :: "config \<Rightarrow> nat \<Rightarrow> ring_state \<Rightarrow> bool" where
  "logs_ok c np \<sigma> \<longleftrightarrow>
     (\<forall>k < ring_depth c. r_seq \<sigma> k \<noteq> 0 \<longrightarrow> r_seq \<sigma> k \<noteq> SEQ_WRITING \<longrightarrow>
        r_idx \<sigma> k < block_count c \<and> r_log \<sigma> (r_seq \<sigma> k) = (r_data \<sigma> (r_idx \<sigma> k), r_len \<sigma> k)) \<and>
     (\<forall>p < np. \<forall>s y l. pub_seq (r_pubs \<sigma> p) = Some s \<longrightarrow> pub_msg (r_pubs \<sigma> p) = Some (y, l) \<longrightarrow> r_log \<sigma> s = (r_data \<sigma> y, l)) \<and>
     (\<forall>(s, b, l) \<in> set (r_samples \<sigma>). r_log \<sigma> s = (r_data \<sigma> b, l))"

text \<open>What a reader has loaded is still there if the sequence number is.\<close>

definition reads_ok :: "config \<Rightarrow> nat \<Rightarrow> ring_state \<Rightarrow> bool" where
  "reads_ok c nr \<sigma> \<longleftrightarrow> (\<forall>r < nr. case r_readers \<sigma> r of
        RdIdx s b \<Rightarrow> r_seq \<sigma> (ring_slot c s) = s \<longrightarrow> r_idx \<sigma> (ring_slot c s) = b
      | RdLen s b l \<Rightarrow> r_seq \<sigma> (ring_slot c s) = s \<longrightarrow> r_idx \<sigma> (ring_slot c s) = b \<and> r_len \<sigma> (ring_slot c s) = l
      | RdRc s b l rc \<Rightarrow> r_seq \<sigma> (ring_slot c s) = s \<longrightarrow> r_idx \<sigma> (ring_slot c s) = b \<and> r_len \<sigma> (ring_slot c s) = l
      | RdRef s b l \<Rightarrow> r_seq \<sigma> (ring_slot c s) = s \<longrightarrow> r_idx \<sigma> (ring_slot c s) = b \<and> r_len \<sigma> (ring_slot c s) = l
      | _ \<Rightarrow> True)"

definition ring_inv :: "config \<Rightarrow> nat \<Rightarrow> nat \<Rightarrow> ring_state \<Rightarrow> bool" where
  "ring_inv c np nr \<sigma> \<longleftrightarrow> counted c np nr \<sigma> \<and> ranged c np nr \<sigma> \<and> slots_ok c np \<sigma> \<and> seqs_ok c np nr \<sigma> \<and>
     logs_ok c np \<sigma> \<and> reads_ok c nr \<sigma>"

lemma ring_invD:
  assumes "ring_inv c np nr \<sigma>"
  shows "counted c np nr \<sigma>" "ranged c np nr \<sigma>" "slots_ok c np \<sigma>" "seqs_ok c np nr \<sigma>" "logs_ok c np \<sigma>" "reads_ok c nr \<sigma>"
  using assms by (simp_all add: ring_inv_def)

text \<open>The marked slot of a publisher, and that nobody else has marked it.\<close>

lemma marked_slot:
  assumes "slots_ok c np \<sigma>" "p < np" "marks c (r_pubs \<sigma> p) k = 1" "k < ring_depth c"
  shows "r_seq \<sigma> k = SEQ_WRITING" "q < np \<Longrightarrow> q \<noteq> p \<Longrightarrow> marks c (r_pubs \<sigma> q) k = 0"
proof -
  have t: "tally (marks c) np (r_pubs \<sigma>) k = of_bool (r_seq \<sigma> k = SEQ_WRITING)" using assms(1,4) by (simp add: slots_ok_def)
  show "r_seq \<sigma> k = SEQ_WRITING" using tally_ge [OF assms(2), of "marks c" "r_pubs \<sigma>" k] assms(3) t by (cases "r_seq \<sigma> k = SEQ_WRITING") auto
  assume "q < np" "q \<noteq> p"
  then show "marks c (r_pubs \<sigma> q) k = 0"
    using tally_two [of p np q "marks c" "r_pubs \<sigma>" k] assms(2,3) t by (cases "r_seq \<sigma> k = SEQ_WRITING") auto
qed

lemma unmarked:
  assumes "slots_ok c np \<sigma>" "r_seq \<sigma> k \<noteq> SEQ_WRITING" "k < ring_depth c" "q < np"
  shows "marks c (r_pubs \<sigma> q) k = 0"
  using assms tally_ge [OF assms(4), of "marks c" "r_pubs \<sigma>" k] by (simp add: slots_ok_def)

section \<open>Publishers keep the invariant\<close>

lemma no_block_out: "\<not> NO_BLOCK < block_count c"
  by (simp add: NO_BLOCK_def not_less)

lemma pub_access_cases [consumes 2, case_names spin mark old count index len close drop skip]:
  assumes "pub_access c single_publisher p \<sigma> = Some \<sigma>'" "orderly c single_publisher (Pub_access p) \<sigma>"
  obtains
    y l s n where "r_pubs \<sigma> p = PubClaim y l s n" "\<sigma>' = set_pub p (PubClaim y l s (n + 1)) \<sigma>"
  | y l s n where "r_pubs \<sigma> p = PubClaim y l s n" "r_seq \<sigma> (ring_slot c s) \<noteq> SEQ_WRITING"
      "\<sigma>' = set_pub p (PubMarked y l s) (mark_slot (ring_slot c s) \<sigma>)"
  | y l s where "r_pubs \<sigma> p = PubMarked y l s" "\<sigma>' = set_pub p (PubOld y l s (r_idx \<sigma> (ring_slot c s))) \<sigma>"
  | y l s x where "r_pubs \<sigma> p = PubOld y l s x" "\<sigma>' = set_pub p (PubCount y l s x) (\<sigma>\<lparr>r_rc := (r_rc \<sigma>)(y := 1)\<rparr>)"
  | y l s x where "r_pubs \<sigma> p = PubCount y l s x"
      "\<sigma>' = set_pub p (PubIndex y l s x) (\<sigma>\<lparr>r_idx := (r_idx \<sigma>)(ring_slot c s := y)\<rparr>)"
  | y l s x where "r_pubs \<sigma> p = PubIndex y l s x"
      "\<sigma>' = set_pub p (PubLen y l s x) (\<sigma>\<lparr>r_len := (r_len \<sigma>)(ring_slot c s := l)\<rparr>)"
  | y l s x where "r_pubs \<sigma> p = PubLen y l s x"
      "\<sigma>' = set_pub p (PubClosed x) (\<sigma>\<lparr>r_seq := (r_seq \<sigma>)(ring_slot c s := s)\<rparr>)"
  | x where "r_pubs \<sigma> p = PubClosed x" "x < block_count c" "\<sigma>' = drop_ref x (set_pub p PubIdle \<sigma>)"
  | x where "r_pubs \<sigma> p = PubClosed x" "\<not> x < block_count c" "\<sigma>' = set_pub p PubIdle \<sigma>"
proof (cases "r_pubs \<sigma> p")
  case (PubClaim y l s n)
  have n: "\<not> (n + 1 > 1024)" if "n < 1024" using that by (simp add: word_less_nat_alt unat_word_ariths)
  show thesis
  proof (cases "r_seq \<sigma> (ring_slot c s) = SEQ_WRITING")
    case True
    then have "\<not> single_publisher p" "\<not> (n + 1 > 1024)" using assms(2) PubClaim n by (simp_all add: orderly_def)
    with True assms(1) PubClaim have "\<sigma>' = set_pub p (PubClaim y l s (n + 1)) \<sigma>" by (simp add: pub_access_def)
    then show thesis by (rule that(1) [OF PubClaim])
  next
    case False
    then have "\<sigma>' = set_pub p (PubMarked y l s) (mark_slot (ring_slot c s) \<sigma>)" using assms(1) PubClaim by (simp add: pub_access_def Let_def split: if_splits)
    then show thesis by (rule that(2) [OF PubClaim False])
  qed
next
  case (PubMarked y l s)
  then show thesis using assms(1) by (intro that(3)) (auto simp: pub_access_def)
next
  case (PubOld y l s x)
  then show thesis using assms(1) by (intro that(4)) (auto simp: pub_access_def)
next
  case (PubCount y l s x)
  then show thesis using assms(1) by (intro that(5)) (auto simp: pub_access_def)
next
  case (PubIndex y l s x)
  then show thesis using assms(1) by (intro that(6)) (auto simp: pub_access_def)
next
  case (PubLen y l s x)
  then show thesis using assms(1) by (intro that(7)) (auto simp: pub_access_def)
next
  case (PubClosed x)
  show thesis
  proof (cases "x < block_count c")
    case True
    then have "x \<noteq> NO_BLOCK" using no_block_out [of c] by auto
    with True assms(1) PubClosed show thesis by (intro that(8)) (auto simp: pub_access_def)
  next
    case False
    with assms(1) PubClosed show thesis by (intro that(9)) (auto simp: pub_access_def)
  qed
qed (use assms(1) in \<open>simp_all add: pub_access_def\<close>)

fun pub_slot :: "config \<Rightarrow> pub_pc \<Rightarrow> u32 option" where
  "pub_slot c (PubMarked y l s) = Some (ring_slot c s)"
| "pub_slot c (PubOld y l s x) = Some (ring_slot c s)"
| "pub_slot c (PubCount y l s x) = Some (ring_slot c s)"
| "pub_slot c (PubIndex y l s x) = Some (ring_slot c s)"
| "pub_slot c (PubLen y l s x) = Some (ring_slot c s)"
| "pub_slot c _ = None"

lemma marks_slot: "marks c pc k = of_bool (pub_slot c pc = Some k)"
  by (cases pc) auto

definition knows :: "config \<Rightarrow> ring_state \<Rightarrow> pub_pc \<Rightarrow> bool" where
  "knows c \<sigma> pc \<longleftrightarrow> (case pc of
        PubOld y l s x \<Rightarrow> r_idx \<sigma> (ring_slot c s) = x
      | PubCount y l s x \<Rightarrow> r_idx \<sigma> (ring_slot c s) = x
      | PubIndex y l s x \<Rightarrow> r_idx \<sigma> (ring_slot c s) = y
      | PubLen y l s x \<Rightarrow> r_idx \<sigma> (ring_slot c s) = y \<and> r_len \<sigma> (ring_slot c s) = l
      | _ \<Rightarrow> True)"

lemma slots_ok_iff:
  "slots_ok c np \<sigma> \<longleftrightarrow>
     (\<forall>k < ring_depth c. tally (marks c) np (r_pubs \<sigma>) k = of_bool (r_seq \<sigma> k = SEQ_WRITING)) \<and> (\<forall>p < np. knows c \<sigma> (r_pubs \<sigma> p))"
  by (simp add: slots_ok_def knows_def)

lemma knows_frame:
  assumes "knows c \<sigma> pc" "\<And>k. pub_slot c pc = Some k \<Longrightarrow> r_idx \<sigma>' k = r_idx \<sigma> k \<and> r_len \<sigma>' k = r_len \<sigma> k"
  shows "knows c \<sigma>' pc"
  using assms by (cases pc) (auto simp: knows_def)

text \<open>A step of publisher \<open>p\<close> that keeps its slot, or marks one that was not marked, or closes its own.\<close>

lemma slots_ok_pub:
  assumes ok: "slots_ok c np \<sigma>" and p: "p < np"
    and others: "\<And>q. q < np \<Longrightarrow> q \<noteq> p \<Longrightarrow> r_pubs \<sigma>' q = r_pubs \<sigma> q" and own: "knows c \<sigma>' (r_pubs \<sigma>' p)"
    and mem: "\<And>k. pub_slot c (r_pubs \<sigma> p) \<noteq> Some k \<Longrightarrow> r_idx \<sigma>' k = r_idx \<sigma> k \<and> r_len \<sigma>' k = r_len \<sigma> k"
    and seq: "\<And>k. k < ring_depth c \<Longrightarrow> marks c (r_pubs \<sigma>' p) k + of_bool (r_seq \<sigma> k = SEQ_WRITING) =
      marks c (r_pubs \<sigma> p) k + of_bool (r_seq \<sigma>' k = SEQ_WRITING)"
    and pow: "is_power_of_two (ring_depth c)"
  shows "slots_ok c np \<sigma>'"
proof -
  have upd: "tally (marks c) np (r_pubs \<sigma>') k = tally (marks c) np ((r_pubs \<sigma>)(p := r_pubs \<sigma>' p)) k" for k
    unfolding tally_def by (rule sum.cong) (use others in auto)
  have "tally (marks c) np (r_pubs \<sigma>') k = of_bool (r_seq \<sigma>' k = SEQ_WRITING)" if k: "k < ring_depth c" for k
    using tally_upd [OF p, of "marks c" "r_pubs \<sigma>" "r_pubs \<sigma>' p" k] seq [OF k] ok k unfolding upd by (simp add: slots_ok_def)
  moreover have "knows c \<sigma>' (r_pubs \<sigma>' q)" if q: "q < np" for q
  proof (cases "q = p")
    case False
    have "knows c \<sigma> (r_pubs \<sigma> q)" using ok q by (simp add: slots_ok_iff)
    moreover have "r_idx \<sigma>' k = r_idx \<sigma> k \<and> r_len \<sigma>' k = r_len \<sigma> k" if "pub_slot c (r_pubs \<sigma> q) = Some k" for k
    proof (rule mem)
      show "pub_slot c (r_pubs \<sigma> p) \<noteq> Some k"
      proof
        assume s: "pub_slot c (r_pubs \<sigma> p) = Some k"
        then have "k < ring_depth c" by (cases "r_pubs \<sigma> p") (auto simp: ring_slot_less [OF pow])
        with marked_slot(2) [OF ok p _ this q False] s that show False by (simp add: marks_slot)
      qed
    qed
    ultimately show ?thesis using others [OF q False] knows_frame by metis
  qed (use own in simp)
  ultimately show ?thesis by (simp add: slots_ok_iff)
qed

lemma drop_ref_fields [simp]:
  "r_seq (drop_ref b \<sigma>) = r_seq \<sigma>" "r_idx (drop_ref b \<sigma>) = r_idx \<sigma>" "r_len (drop_ref b \<sigma>) = r_len \<sigma>"
  "r_data (drop_ref b \<sigma>) = r_data \<sigma>" "r_write_seq (drop_ref b \<sigma>) = r_write_seq \<sigma>" "r_idle (drop_ref b \<sigma>) = r_idle \<sigma>"
  "r_pubs (drop_ref b \<sigma>) = r_pubs \<sigma>" "r_readers (drop_ref b \<sigma>) = r_readers \<sigma>" "r_samples (drop_ref b \<sigma>) = r_samples \<sigma>"
  "r_log (drop_ref b \<sigma>) = r_log \<sigma>"
  by (simp_all add: drop_ref_def Let_def)

lemma pub_seq_fresh:
  assumes "seqs_ok c np nr \<sigma>" "p < np" "pub_seq (r_pubs \<sigma> p) = Some s"
  shows "0 < s \<and> s \<le> r_write_seq \<sigma>" "s \<noteq> SEQ_WRITING" "k < ring_depth c \<Longrightarrow> r_seq \<sigma> k \<noteq> s"
    "q < np \<Longrightarrow> q \<noteq> p \<Longrightarrow> pub_seq (r_pubs \<sigma> q) \<noteq> Some s" "r < nr \<Longrightarrow> reader_seq (r_readers \<sigma> r) \<noteq> Some s"
proof -
  have w: "r_write_seq \<sigma> < SEQ_WRITING" using assms(1) by (simp add: seqs_ok_def)
  from assms have all: "0 < s \<and> s \<le> r_write_seq \<sigma> \<and> (\<forall>k < ring_depth c. r_seq \<sigma> k \<noteq> s) \<and>
        (\<forall>q < np. q \<noteq> p \<longrightarrow> pub_seq (r_pubs \<sigma> q) \<noteq> Some s) \<and> (\<forall>r < nr. reader_seq (r_readers \<sigma> r) \<noteq> Some s)"
    unfolding seqs_ok_def by blast
  then show "0 < s \<and> s \<le> r_write_seq \<sigma>" "k < ring_depth c \<Longrightarrow> r_seq \<sigma> k \<noteq> s"
    "q < np \<Longrightarrow> q \<noteq> p \<Longrightarrow> pub_seq (r_pubs \<sigma> q) \<noteq> Some s" "r < nr \<Longrightarrow> reader_seq (r_readers \<sigma> r) \<noteq> Some s"
    by blast+
  show "s \<noteq> SEQ_WRITING" using all w by auto
qed

lemma pub_access_slots:
  assumes st: "pub_access c single_publisher p \<sigma> = Some \<sigma>'" "orderly c single_publisher (Pub_access p) \<sigma>"
    and inv: "slots_ok c np \<sigma>" "seqs_ok c np nr \<sigma>" and p: "p < np" and pow: "is_power_of_two (ring_depth c)"
  shows "slots_ok c np \<sigma>'"
proof -
  have k: "knows c \<sigma> (r_pubs \<sigma> p)" using inv(1) p by (simp add: slots_ok_iff)
  note S = slots_ok_pub [OF inv(1) p _ _ _ _ pow]
  show ?thesis using st
  proof (cases rule: pub_access_cases)
    case (spin y l s n)
    then show ?thesis by (intro S) (simp_all add: knows_def)
  next
    case (mark y l s n)
    then show ?thesis by (intro S) (auto simp: knows_def)
  next
    case (old y l s)
    then show ?thesis by (intro S) (simp_all add: knows_def)
  next
    case (count y l s x)
    with k show ?thesis by (intro S) (simp_all add: knows_def)
  next
    case (index y l s x)
    then show ?thesis by (intro S) (simp_all add: knows_def)
  next
    case (len y l s x)
    with k show ?thesis by (intro S) (simp_all add: knows_def)
  next
    case (close y l s x)
    have w: "r_seq \<sigma> (ring_slot c s) = SEQ_WRITING"
      using marked_slot(1) [OF inv(1) p, of "ring_slot c s"] close ring_slot_less [OF pow] by simp
    have "s \<noteq> SEQ_WRITING" by (rule pub_seq_fresh(2) [OF inv(2) p]) (simp add: close)
    with w close show ?thesis by (intro S) (auto simp: knows_def)
  next
    case (drop x)
    then show ?thesis by (intro S) (simp_all add: knows_def)
  next
    case (skip x)
    then show ?thesis by (intro S) (simp_all add: knows_def)
  qed
qed

lemma seqs_ok_pub:
  assumes ok: "seqs_ok c np nr \<sigma>" and p: "p < np"
    and others: "\<And>q. q < np \<Longrightarrow> q \<noteq> p \<Longrightarrow> r_pubs \<sigma>' q = r_pubs \<sigma> q"
    and own: "pub_seq (r_pubs \<sigma>' p) = None \<or> pub_seq (r_pubs \<sigma>' p) = pub_seq (r_pubs \<sigma> p)"
    and seq: "\<And>k. r_seq \<sigma>' k = r_seq \<sigma> k \<or> r_seq \<sigma>' k = SEQ_WRITING \<or>
      pub_seq (r_pubs \<sigma> p) = Some (r_seq \<sigma>' k) \<and> pub_seq (r_pubs \<sigma>' p) = None"
    and same: "r_write_seq \<sigma>' = r_write_seq \<sigma>" "r_readers \<sigma>' = r_readers \<sigma>" "r_samples \<sigma>' = r_samples \<sigma>"
  shows "seqs_ok c np nr \<sigma>'"
proof -
  have old: "pub_seq (r_pubs \<sigma> q) = Some s" if "q < np" "pub_seq (r_pubs \<sigma>' q) = Some s" for q s
    using that others own by (cases "q = p") auto
  have "0 < s \<and> s \<le> r_write_seq \<sigma> \<and> (\<forall>k < ring_depth c. r_seq \<sigma>' k \<noteq> s) \<and>
      (\<forall>q' < np. q' \<noteq> q \<longrightarrow> pub_seq (r_pubs \<sigma>' q') \<noteq> Some s) \<and> (\<forall>r < nr. reader_seq (r_readers \<sigma> r) \<noteq> Some s)"
    if q: "q < np" "pub_seq (r_pubs \<sigma>' q) = Some s" for q s
  proof -
    note F = pub_seq_fresh [OF ok q(1) old [OF q]]
    have "r_seq \<sigma>' k \<noteq> s" if k: "k < ring_depth c" for k
      using seq [of k] F(2) F(3) [OF k] F(4) [OF p] q by (cases "p = q") auto
    with F(1,4,5) old show ?thesis by blast
  qed
  moreover have "r_seq \<sigma>' k \<le> r_write_seq \<sigma>" if "k < ring_depth c" "r_seq \<sigma>' k \<noteq> SEQ_WRITING" for k
  proof -
    have "r_seq \<sigma> k \<noteq> SEQ_WRITING \<Longrightarrow> r_seq \<sigma> k \<le> r_write_seq \<sigma>" using ok that(1) unfolding seqs_ok_def by blast
    with seq [of k] that(2) pub_seq_fresh(1) [OF ok p] show ?thesis by metis
  qed
  ultimately show ?thesis using ok unfolding seqs_ok_def same by blast
qed

lemma pub_access_seqs:
  assumes "pub_access c single_publisher p \<sigma> = Some \<sigma>'" "orderly c single_publisher (Pub_access p) \<sigma>"
    and "seqs_ok c np nr \<sigma>" "p < np"
  shows "seqs_ok c np nr \<sigma>'"
  using assms(1,2)
proof (cases rule: pub_access_cases)
  case (close y l s x)
  then show ?thesis by (intro seqs_ok_pub [OF assms(3,4)]) auto
qed (rule seqs_ok_pub [OF assms(3,4)]; simp)+

lemma seqs_okD:
  assumes "seqs_ok c np nr \<sigma>"
  shows "r_write_seq \<sigma> < SEQ_WRITING" "k < ring_depth c \<Longrightarrow> r_seq \<sigma> k \<noteq> SEQ_WRITING \<Longrightarrow> r_seq \<sigma> k \<le> r_write_seq \<sigma>"
    "(s, b, l) \<in> set (r_samples \<sigma>) \<Longrightarrow> s \<le> r_write_seq \<sigma>"
  using assms unfolding seqs_ok_def by blast+

lemma reader_seq_bound:
  assumes "seqs_ok c np nr \<sigma>" "r < nr" "reader_seq (r_readers \<sigma> r) = Some s"
  shows "0 < s" "s \<le> r_write_seq \<sigma>" "s \<noteq> SEQ_WRITING"
proof -
  have w: "r_write_seq \<sigma> < SEQ_WRITING" using assms(1) by (simp add: seqs_ok_def)
  from assms show b: "0 < s" "s \<le> r_write_seq \<sigma>" unfolding seqs_ok_def by blast+
  show "s \<noteq> SEQ_WRITING" using b w by auto
qed

definition saw :: "config \<Rightarrow> ring_state \<Rightarrow> reader_pc \<Rightarrow> bool" where
  "saw c \<sigma> pc \<longleftrightarrow> (case pc of
        RdIdx s b \<Rightarrow> r_seq \<sigma> (ring_slot c s) = s \<longrightarrow> r_idx \<sigma> (ring_slot c s) = b
      | RdLen s b l \<Rightarrow> r_seq \<sigma> (ring_slot c s) = s \<longrightarrow> r_idx \<sigma> (ring_slot c s) = b \<and> r_len \<sigma> (ring_slot c s) = l
      | RdRc s b l rc \<Rightarrow> r_seq \<sigma> (ring_slot c s) = s \<longrightarrow> r_idx \<sigma> (ring_slot c s) = b \<and> r_len \<sigma> (ring_slot c s) = l
      | RdRef s b l \<Rightarrow> r_seq \<sigma> (ring_slot c s) = s \<longrightarrow> r_idx \<sigma> (ring_slot c s) = b \<and> r_len \<sigma> (ring_slot c s) = l
      | _ \<Rightarrow> True)"

lemma reads_ok_iff: "reads_ok c nr \<sigma> \<longleftrightarrow> (\<forall>r < nr. saw c \<sigma> (r_readers \<sigma> r))"
  by (simp add: reads_ok_def saw_def)

text \<open>A reader that looks for \<open>s\<close> notices no change in a slot that does not come to hold \<open>s\<close>.\<close>

lemma saw_frame:
  assumes "saw c \<sigma> pc" "\<And>s. reader_seq pc = Some s \<Longrightarrow> r_seq \<sigma>' (ring_slot c s) = s \<Longrightarrow>
      r_seq \<sigma> (ring_slot c s) = s \<and> r_idx \<sigma>' (ring_slot c s) = r_idx \<sigma> (ring_slot c s) \<and>
      r_len \<sigma>' (ring_slot c s) = r_len \<sigma> (ring_slot c s)"
  shows "saw c \<sigma>' pc"
  using assms by (cases pc) (auto simp: saw_def)

lemma pub_access_reads:
  assumes st: "pub_access c single_publisher p \<sigma> = Some \<sigma>'" "orderly c single_publisher (Pub_access p) \<sigma>"
    and inv: "reads_ok c nr \<sigma>" "slots_ok c np \<sigma>" "seqs_ok c np nr \<sigma>" and p: "p < np" and pow: "is_power_of_two (ring_depth c)"
  shows "reads_ok c nr \<sigma>'"
proof -
  note less = ring_slot_less [OF pow]
  have saw: "saw c \<sigma> (r_readers \<sigma> r)" if "r < nr" for r using inv(1) that by (simp add: reads_ok_iff)
  have rd: "r_readers \<sigma>' = r_readers \<sigma>" using st by (cases rule: pub_access_cases) simp_all
  have "r_seq \<sigma> (ring_slot c s) = s \<and> r_idx \<sigma>' (ring_slot c s) = r_idx \<sigma> (ring_slot c s) \<and>
      r_len \<sigma>' (ring_slot c s) = r_len \<sigma> (ring_slot c s)"
    if r: "r < nr" "reader_seq (r_readers \<sigma> r) = Some s" and new: "r_seq \<sigma>' (ring_slot c s) = s" for r s
  proof -
    note nw = reader_seq_bound(3) [OF inv(3) r]
    from st show ?thesis
    proof (cases rule: pub_access_cases)
      case (mark y l s' n)
      then show ?thesis using new nw by (cases "ring_slot c s = ring_slot c s'") simp_all
    next
      case (index y l s' x)
      then have "r_seq \<sigma> (ring_slot c s') = SEQ_WRITING" using marked_slot(1) [OF inv(2) p _ less [of s']] by simp
      then show ?thesis using index(2) new nw by (cases "ring_slot c s = ring_slot c s'") simp_all
    next
      case (len y l s' x)
      then have "r_seq \<sigma> (ring_slot c s') = SEQ_WRITING" using marked_slot(1) [OF inv(2) p _ less [of s']] by simp
      then show ?thesis using len(2) new nw by (cases "ring_slot c s = ring_slot c s'") simp_all
    next
      case (close y l s' x)
      then have "pub_seq (r_pubs \<sigma> p) = Some s'" by simp
      from pub_seq_fresh(5) [OF inv(3) p this r(1)] r(2) have "s' \<noteq> s" by simp
      then show ?thesis using close(2) new by (cases "ring_slot c s = ring_slot c s'") simp_all
    qed (use new in simp_all)
  qed
  then show ?thesis unfolding reads_ok_iff rd using saw saw_frame by blast
qed

lemma logs_okD:
  assumes "logs_ok c np \<sigma>"
  shows "k < ring_depth c \<Longrightarrow> r_seq \<sigma> k \<noteq> 0 \<Longrightarrow> r_seq \<sigma> k \<noteq> SEQ_WRITING \<Longrightarrow>
      r_idx \<sigma> k < block_count c \<and> r_log \<sigma> (r_seq \<sigma> k) = (r_data \<sigma> (r_idx \<sigma> k), r_len \<sigma> k)"
    "p < np \<Longrightarrow> pub_seq (r_pubs \<sigma> p) = Some s \<Longrightarrow> pub_msg (r_pubs \<sigma> p) = Some (y, l) \<Longrightarrow> r_log \<sigma> s = (r_data \<sigma> y, l)"
    "(s, b, l) \<in> set (r_samples \<sigma>) \<Longrightarrow> r_log \<sigma> s = (r_data \<sigma> b, l)"
  using assms unfolding logs_ok_def by blast+

lemma logs_ok_pub:
  assumes ok: "logs_ok c np \<sigma>" and p: "p < np"
    and others: "\<And>q. q < np \<Longrightarrow> q \<noteq> p \<Longrightarrow> r_pubs \<sigma>' q = r_pubs \<sigma> q"
    and own: "pub_seq (r_pubs \<sigma>' p) = None \<or>
      pub_seq (r_pubs \<sigma>' p) = pub_seq (r_pubs \<sigma> p) \<and> pub_msg (r_pubs \<sigma>' p) = pub_msg (r_pubs \<sigma> p)"
    and slot: "\<And>k. k < ring_depth c \<Longrightarrow> r_seq \<sigma>' k \<noteq> 0 \<Longrightarrow> r_seq \<sigma>' k \<noteq> SEQ_WRITING \<Longrightarrow>
      r_seq \<sigma>' k = r_seq \<sigma> k \<and> r_idx \<sigma>' k = r_idx \<sigma> k \<and> r_len \<sigma>' k = r_len \<sigma> k \<or>
      r_idx \<sigma>' k < block_count c \<and> r_log \<sigma> (r_seq \<sigma>' k) = (r_data \<sigma> (r_idx \<sigma>' k), r_len \<sigma>' k)"
    and same: "r_data \<sigma>' = r_data \<sigma>" "r_log \<sigma>' = r_log \<sigma>" "r_samples \<sigma>' = r_samples \<sigma>"
  shows "logs_ok c np \<sigma>'"
proof -
  have "r_idx \<sigma>' k < block_count c \<and> r_log \<sigma> (r_seq \<sigma>' k) = (r_data \<sigma> (r_idx \<sigma>' k), r_len \<sigma>' k)"
    if "k < ring_depth c" "r_seq \<sigma>' k \<noteq> 0" "r_seq \<sigma>' k \<noteq> SEQ_WRITING" for k
    using slot [OF that] logs_okD(1) [OF ok that(1)] that by metis
  moreover have "r_log \<sigma> s = (r_data \<sigma> y, l)"
    if "q < np" "pub_seq (r_pubs \<sigma>' q) = Some s" "pub_msg (r_pubs \<sigma>' q) = Some (y, l)" for q s y l
    using that others own logs_okD(2) [OF ok that(1)] by (cases "q = p") auto
  ultimately show ?thesis using logs_okD(3) [OF ok] unfolding logs_ok_def same by blast
qed

lemma pub_access_logs:
  assumes st: "pub_access c single_publisher p \<sigma> = Some \<sigma>'" "orderly c single_publisher (Pub_access p) \<sigma>"
    and inv: "logs_ok c np \<sigma>" "slots_ok c np \<sigma>" "ranged c np nr \<sigma>" and p: "p < np" and pow: "is_power_of_two (ring_depth c)"
  shows "logs_ok c np \<sigma>'"
proof -
  note L = logs_ok_pub [OF inv(1) p] and less = ring_slot_less [OF pow]
  have knows: "knows c \<sigma> (r_pubs \<sigma> p)" using inv(2) p by (simp add: slots_ok_iff)
  from st show ?thesis
  proof (cases rule: pub_access_cases)
    case (mark y l s n)
    then show ?thesis by (intro L) auto
  next
    case (index y l s x)
    then have "r_seq \<sigma> (ring_slot c s) = SEQ_WRITING" using marked_slot(1) [OF inv(2) p _ less [of s]] by simp
    with index show ?thesis by (intro L) auto
  next
    case (len y l s x)
    then have "r_seq \<sigma> (ring_slot c s) = SEQ_WRITING" using marked_slot(1) [OF inv(2) p _ less [of s]] by simp
    with len show ?thesis by (intro L) auto
  next
    case (close y l s x)
    have "y < block_count c" using inv(3) p close(1) by (auto simp: ranged_def)
    moreover have "r_log \<sigma> s = (r_data \<sigma> y, l)" by (rule logs_okD(2) [OF inv(1) p]) (simp_all add: close)
    ultimately show ?thesis using close knows by (intro L) (auto simp: knows_def)
  qed (rule L; simp)+
qed

lemma countedD:
  assumes "counted c np nr \<sigma>" "b < block_count c"
  shows "unat (r_rc \<sigma> b) = refs c np nr \<sigma> b" "owns np \<sigma> b = (if refs c np nr \<sigma> b = 0 then 1 else 0)"
  using assms by (simp_all add: counted_def)

lemma refs_drop_ref [simp]: "refs c np nr (drop_ref x \<sigma>) = refs c np nr \<sigma>"
  by (simp add: refs_def fun_eq_iff)

lemma drop_ref_counted:
  assumes "\<And>b. b < block_count c \<Longrightarrow> unat (r_rc \<sigma> b) = refs c np nr \<sigma> b + of_bool (b = x) \<and>
      owns np \<sigma> b = (if refs c np nr \<sigma> b + of_bool (b = x) = 0 then 1 else 0)"
  shows "counted c np nr (drop_ref x \<sigma>)"
  unfolding counted_def refs_drop_ref
proof (intro allI impI)
  fix b assume b: "b < block_count c"
  let ?n = "refs c np nr \<sigma> b"
  show "unat (r_rc (drop_ref x \<sigma>) b) = ?n \<and> owns np (drop_ref x \<sigma>) b = (if ?n = 0 then 1 else 0)"
  proof (cases "b = x")
    case False
    then have "owns np (drop_ref x \<sigma>) b = owns np \<sigma> b" "r_rc (drop_ref x \<sigma>) b = r_rc \<sigma> b"
      by (simp_all add: drop_ref_def owns_def Let_def)
    with False show ?thesis using assms [OF b] by simp
  next
    case True
    have rc: "unat (r_rc \<sigma> x) = ?n + 1" "owns np \<sigma> x = 0" using assms [OF b] True by simp_all
    then have "1 \<le> r_rc \<sigma> x" by (simp add: word_le_nat_alt)
    then have "unat (r_rc \<sigma> x - 1) = ?n" using rc(1) by (simp add: unat_sub)
    moreover have "r_rc \<sigma> x = 1 \<longleftrightarrow> ?n = 0" using rc(1) by (auto simp: word_unat_eq_iff)
    ultimately show ?thesis using rc(2) True by (simp add: drop_ref_def owns_def Let_def)
  qed
qed

text \<open>A block that is owned has no references.\<close>

lemma owned_unreferenced:
  assumes "counted c np nr \<sigma>" "b < block_count c" "0 < owns np \<sigma> b"
  shows "refs c np nr \<sigma> b = 0" "owns np \<sigma> b = 1" "r_rc \<sigma> b = 0"
  using countedD [OF assms(1,2)] assms(3) by (auto simp: unat_eq_0 split: if_splits)

lemma counted_pub_same:
  assumes "counted c np nr \<sigma>" "p < np" "\<And>b. held pc b = held (r_pubs \<sigma> p) b" "\<And>b. pend pc b = pend (r_pubs \<sigma> p) b"
    and "r_pubs \<sigma>' = (r_pubs \<sigma>)(p := pc)" "r_idle \<sigma>' = r_idle \<sigma>" "r_limbo \<sigma>' = r_limbo \<sigma>" "r_idx \<sigma>' = r_idx \<sigma>"
      "r_readers \<sigma>' = r_readers \<sigma>" "r_samples \<sigma>' = r_samples \<sigma>" "r_rc \<sigma>' = r_rc \<sigma>"
  shows "counted c np nr \<sigma>'"
proof -
  have "tally held np (r_pubs \<sigma>') = tally held np (r_pubs \<sigma>)" "tally pend np (r_pubs \<sigma>') = tally pend np (r_pubs \<sigma>)"
    unfolding assms(5) by (rule tally_same; simp add: assms(2,3,4))+
  with assms(1) show ?thesis by (simp add: counted_def refs_def owns_def assms(6-))
qed

lemma pub_access_counted:
  assumes st: "pub_access c single_publisher p \<sigma> = Some \<sigma>'" "orderly c single_publisher (Pub_access p) \<sigma>"
    and inv: "counted c np nr \<sigma>" "slots_ok c np \<sigma>" "ranged c np nr \<sigma>" and p: "p < np" and pow: "is_power_of_two (ring_depth c)"
  shows "counted c np nr \<sigma>'"
  using st
proof (cases rule: pub_access_cases)
  case (count y l s x)
  have y: "y < block_count c" using inv(3) p count(1) by (auto simp: ranged_def)
  have "0 < owns np \<sigma> y" using tally_ge [OF p, of held "r_pubs \<sigma>" y] count(1) by (simp add: owns_def)
  note O = owned_unreferenced [OF inv(1) y this]
  have "unat (r_rc \<sigma>' b) = refs c np nr \<sigma>' b \<and> owns np \<sigma>' b = (if refs c np nr \<sigma>' b = 0 then 1 else 0)"
    if b: "b < block_count c" for b
    using countedD [OF inv(1) b] O count
      tally_upd [OF p, of held "r_pubs \<sigma>" "PubCount y l s x" b] tally_upd [OF p, of pend "r_pubs \<sigma>" "PubCount y l s x" b]
    by (cases "b = y") (simp_all add: refs_def owns_def)
  then show ?thesis by (simp add: counted_def)
next
  case (index y l s x)
  have x: "r_idx \<sigma> (ring_slot c s) = x" using inv(2) p index(1) by (auto simp: slots_ok_def)
  have "refs c np nr \<sigma>' b = refs c np nr \<sigma> b \<and> owns np \<sigma>' b = owns np \<sigma> b" for b
    using index x slot_refs_upd [OF ring_slot_less [OF pow, of s], of "r_idx \<sigma>" y b]
      tally_upd [OF p, of held "r_pubs \<sigma>" "PubIndex y l s x" b] tally_upd [OF p, of pend "r_pubs \<sigma>" "PubIndex y l s x" b]
    by (simp add: refs_def owns_def)
  with inv(1) index show ?thesis by (simp add: counted_def)
next
  case (drop x)
  show ?thesis unfolding drop(3)
  proof (rule drop_ref_counted)
    fix b assume b: "b < block_count c"
    show "unat (r_rc (set_pub p PubIdle \<sigma>) b) = refs c np nr (set_pub p PubIdle \<sigma>) b + of_bool (b = x) \<and>
        owns np (set_pub p PubIdle \<sigma>) b = (if refs c np nr (set_pub p PubIdle \<sigma>) b + of_bool (b = x) = 0 then 1 else 0)"
      using countedD [OF inv(1) b] drop(1)
        tally_upd [OF p, of held "r_pubs \<sigma>" PubIdle b] tally_upd [OF p, of pend "r_pubs \<sigma>" PubIdle b]
      by (cases "b = x") (simp_all add: refs_def owns_def)
  qed
next
  case (skip x)
  have "refs c np nr \<sigma>' b = refs c np nr \<sigma> b \<and> owns np \<sigma>' b = owns np \<sigma> b" if "b < block_count c" for b
    using skip that tally_upd [OF p, of held "r_pubs \<sigma>" PubIdle b] tally_upd [OF p, of pend "r_pubs \<sigma>" PubIdle b]
    by (cases "b = x") (simp_all add: refs_def owns_def)
  with inv(1) skip show ?thesis by (simp add: counted_def)
qed (rule counted_pub_same [OF inv(1) p]; simp)+

lemma pub_access_ranged:
  assumes "pub_access c single_publisher p \<sigma> = Some \<sigma>'" "orderly c single_publisher (Pub_access p) \<sigma>" "ranged c np nr \<sigma>" "p < np"
  shows "ranged c np nr \<sigma>'"
  using assms(1,2)
proof (cases rule: pub_access_cases)
  case (drop x)
  with assms(3) show ?thesis by (auto simp: ranged_def drop_ref_def Let_def)
qed (use assms(3,4) in \<open>auto simp: ranged_def\<close>)

section \<open>Readers keep the invariant\<close>

lemma reader_access_cases [consumes 1, case_names idx len reject load retry inc undo take release]:
  assumes "reader_access c r \<sigma> = Some \<sigma>'"
  obtains
    s where "r_readers \<sigma> r = RdSeq s" "\<sigma>' = set_reader r (RdIdx s (r_idx \<sigma> (ring_slot c s))) \<sigma>"
  | s b where "r_readers \<sigma> r = RdIdx s b" "\<sigma>' = set_reader r (RdLen s b (r_len \<sigma> (ring_slot c s))) \<sigma>"
  | s b l where "r_readers \<sigma> r = RdLen s b l" "\<sigma>' = set_reader r RdIdle \<sigma>"
  | s b l where "r_readers \<sigma> r = RdLen s b l" "b < block_count c" "r_rc \<sigma> b \<noteq> 0" "\<sigma>' = set_reader r (RdRc s b l (r_rc \<sigma> b)) \<sigma>"
  | s b l n where "r_readers \<sigma> r = RdRc s b l n" "\<sigma>' = set_reader r (RdLen s b l) \<sigma>"
  | s b l n where "r_readers \<sigma> r = RdRc s b l n" "r_rc \<sigma> b = n" "n \<noteq> - 1"
      "\<sigma>' = set_reader r (RdRef s b l) (\<sigma>\<lparr>r_rc := (r_rc \<sigma>)(b := n + 1)\<rparr>)"
  | s b l where "r_readers \<sigma> r = RdRef s b l" "\<sigma>' = set_reader r (RdUndo b) \<sigma>"
  | s b l where "r_readers \<sigma> r = RdRef s b l" "r_seq \<sigma> (ring_slot c s) = s"
      "\<sigma>' = set_reader r RdIdle (\<sigma>\<lparr>r_samples := (s, b, l) # r_samples \<sigma>\<rparr>)"
  | b where "r_readers \<sigma> r = RdUndo b" "\<sigma>' = drop_ref b (set_reader r RdIdle \<sigma>)"
proof (cases "r_readers \<sigma> r")
  case (RdSeq s)
  with assms have "set_reader r (RdIdx s (r_idx \<sigma> (ring_slot c s))) \<sigma> = \<sigma>'" by (simp add: reader_access_def)
  then show thesis by (rule that(1) [OF RdSeq sym])
next
  case (RdIdx s b)
  with assms have "set_reader r (RdLen s b (r_len \<sigma> (ring_slot c s))) \<sigma> = \<sigma>'" by (simp add: reader_access_def)
  then show thesis by (rule that(2) [OF RdIdx sym])
next
  case (RdLen s b l)
  show thesis
  proof (cases "b = NO_BLOCK \<or> b \<ge> block_count c \<or> as_usize l > data_capacity c \<or> r_rc \<sigma> b = 0")
    case True
    then have "reader_access c r \<sigma> = Some (set_reader r RdIdle \<sigma>)" unfolding reader_access_def RdLen by (cases "r_rc \<sigma> b = 0") simp_all
    with assms have "set_reader r RdIdle \<sigma> = \<sigma>'" by simp
    then show thesis by (rule that(3) [OF RdLen sym])
  next
    case False
    then have "b < block_count c" "r_rc \<sigma> b \<noteq> 0" by (simp_all add: not_le)
    moreover from False assms RdLen have "set_reader r (RdRc s b l (r_rc \<sigma> b)) \<sigma> = \<sigma>'" by (simp add: reader_access_def)
    ultimately show thesis by (rule that(4) [OF RdLen _ _ sym])
  qed
next
  case (RdRc s b l n)
  show thesis
  proof (cases "r_rc \<sigma> b = n")
    case True
    have "n \<noteq> - 1"
    proof
      assume "n = - 1"
      with True RdRc have "reader_access c r \<sigma> = None" by (simp add: reader_access_def)
      with assms show False by simp
    qed
    moreover from this have "set_reader r (RdRef s b l) (\<sigma>\<lparr>r_rc := (r_rc \<sigma>)(b := n + 1)\<rparr>) = \<sigma>'"
      using assms RdRc True by (simp add: reader_access_def)
    ultimately show thesis by (rule that(6) [OF RdRc True _ sym])
  next
    case False
    with assms RdRc have "set_reader r (RdLen s b l) \<sigma> = \<sigma>'" by (simp add: reader_access_def)
    then show thesis by (rule that(5) [OF RdRc sym])
  qed
next
  case (RdRef s b l)
  show thesis
  proof (cases "r_seq \<sigma> (ring_slot c s) = s")
    case True
    from assms RdRef True have "set_reader r RdIdle (\<sigma>\<lparr>r_samples := (s, b, l) # r_samples \<sigma>\<rparr>) = \<sigma>'"
      by (simp add: reader_access_def)
    then show thesis by (rule that(8) [OF RdRef True sym])
  next
    case False
    with assms RdRef have "set_reader r (RdUndo b) \<sigma> = \<sigma>'" by (simp add: reader_access_def)
    then show thesis by (rule that(7) [OF RdRef sym])
  qed
next
  case (RdUndo b)
  with assms have "drop_ref b (set_reader r RdIdle \<sigma>) = \<sigma>'" by (simp add: reader_access_def)
  then show thesis by (rule that(9) [OF RdUndo sym])
next
  case RdIdle
  then have "reader_access c r \<sigma> = None" by (simp add: reader_access_def)
  with assms show thesis by simp
qed

lemma slots_ok_frame:
  assumes "slots_ok c np \<sigma>" "r_pubs \<sigma>' = r_pubs \<sigma>" "r_seq \<sigma>' = r_seq \<sigma>" "r_idx \<sigma>' = r_idx \<sigma>" "r_len \<sigma>' = r_len \<sigma>"
  shows "slots_ok c np \<sigma>'"
  using assms(1) unfolding slots_ok_def assms(2-) .

text \<open>A step of reader \<open>r\<close> that looks for no new sequence number.\<close>

lemma seqs_ok_reader:
  assumes ok: "seqs_ok c np nr \<sigma>" and r: "r < nr"
    and others: "\<And>q. q < nr \<Longrightarrow> q \<noteq> r \<Longrightarrow> r_readers \<sigma>' q = r_readers \<sigma> q"
    and own: "reader_seq (r_readers \<sigma>' r) = None \<or> reader_seq (r_readers \<sigma>' r) = reader_seq (r_readers \<sigma> r)"
    and smp: "\<And>s b l. (s, b, l) \<in> set (r_samples \<sigma>') \<Longrightarrow> s \<le> r_write_seq \<sigma>"
    and same: "r_write_seq \<sigma>' = r_write_seq \<sigma>" "r_pubs \<sigma>' = r_pubs \<sigma>" "r_seq \<sigma>' = r_seq \<sigma>"
  shows "seqs_ok c np nr \<sigma>'"
proof -
  have old: "reader_seq (r_readers \<sigma> q) = Some s" if "q < nr" "reader_seq (r_readers \<sigma>' q) = Some s" for q s
    using that others own by (cases "q = r") auto
  have "\<forall>r < nr. \<forall>s. reader_seq (r_readers \<sigma>' r) = Some s \<longrightarrow> 0 < s \<and> s \<le> r_write_seq \<sigma>"
    using old reader_seq_bound(1,2) [OF ok] by blast
  moreover have "\<forall>p < np. \<forall>s. pub_seq (r_pubs \<sigma> p) = Some s \<longrightarrow> (\<forall>r < nr. reader_seq (r_readers \<sigma>' r) \<noteq> Some s)"
    using old pub_seq_fresh(5) [OF ok] by blast
  moreover have "\<forall>(s, _) \<in> set (r_samples \<sigma>'). s \<le> r_write_seq \<sigma>" using smp by auto
  ultimately show ?thesis using ok unfolding seqs_ok_def same by blast
qed

lemma reader_access_frame:
  assumes "reader_access c r \<sigma> = Some \<sigma>'"
  shows "r_pubs \<sigma>' = r_pubs \<sigma>" "r_seq \<sigma>' = r_seq \<sigma>" "r_idx \<sigma>' = r_idx \<sigma>" "r_len \<sigma>' = r_len \<sigma>" "r_data \<sigma>' = r_data \<sigma>"
    "r_log \<sigma>' = r_log \<sigma>" "r_write_seq \<sigma>' = r_write_seq \<sigma>" "r_idle \<sigma>' = r_idle \<sigma>" "q \<noteq> r \<Longrightarrow> r_readers \<sigma>' q = r_readers \<sigma> q"
  using assms by (cases rule: reader_access_cases; simp)+

lemma reader_access_seqs:
  assumes st: "reader_access c r \<sigma> = Some \<sigma>'" and ok: "seqs_ok c np nr \<sigma>" and r: "r < nr"
  shows "seqs_ok c np nr \<sigma>'"
proof (rule seqs_ok_reader [OF ok r])
  have old: "s \<le> r_write_seq \<sigma>" if "(s, b, l) \<in> set (r_samples \<sigma>)" for s b l
    using ok that unfolding seqs_ok_def by auto
  show "reader_seq (r_readers \<sigma>' r) = None \<or> reader_seq (r_readers \<sigma>' r) = reader_seq (r_readers \<sigma> r)"
    using st by (cases rule: reader_access_cases) simp_all
  show "s \<le> r_write_seq \<sigma>" if "(s, b, l) \<in> set (r_samples \<sigma>')" for s b l
    using st
  proof (cases rule: reader_access_cases)
    case (take s' b' l')
    then show ?thesis using that old reader_seq_bound(2) [OF ok r, of s'] by simp blast
  qed (use that old in auto)
qed (use reader_access_frame [OF st] in auto)

lemma reader_access_reads:
  assumes st: "reader_access c r \<sigma> = Some \<sigma>'" and ok: "reads_ok c nr \<sigma>" and r: "r < nr"
  shows "reads_ok c nr \<sigma>'"
proof -
  note F = reader_access_frame [OF st]
  have old: "saw c \<sigma> (r_readers \<sigma> q)" if "q < nr" for q using ok that by (simp add: reads_ok_iff)
  have "saw c \<sigma>' (r_readers \<sigma>' r)"
    using st old [OF r] by (cases rule: reader_access_cases) (simp_all add: saw_def)
  moreover have "saw c \<sigma>' (r_readers \<sigma>' q)" if "q < nr" "q \<noteq> r" for q
    unfolding F(9) [OF that(2)] by (rule saw_frame [OF old [OF that(1)]]) (simp add: F)
  ultimately show ?thesis unfolding reads_ok_iff by metis
qed

lemma reader_access_logs:
  assumes st: "reader_access c r \<sigma> = Some \<sigma>'" and ok: "logs_ok c np \<sigma>" "reads_ok c nr \<sigma>" "seqs_ok c np nr \<sigma>"
    and r: "r < nr" and pow: "is_power_of_two (ring_depth c)"
  shows "logs_ok c np \<sigma>'"
proof -
  note F = reader_access_frame [OF st]
  have "r_log \<sigma> s = (r_data \<sigma> b, l)" if "(s, b, l) \<in> set (r_samples \<sigma>')" for s b l
    using st
  proof (cases rule: reader_access_cases)
    case (take s' b' l')
    have "s' \<noteq> 0" "s' \<noteq> SEQ_WRITING" using reader_seq_bound [OF ok(3) r, of s'] take(1) by auto
    moreover have "r_idx \<sigma> (ring_slot c s') = b'" "r_len \<sigma> (ring_slot c s') = l'" using ok(2) r take(1,2) by (auto simp: reads_ok_def)
    ultimately have "r_log \<sigma> s' = (r_data \<sigma> b', l')"
      using logs_okD(1) [OF ok(1) ring_slot_less [OF pow, of s']] take(2) by simp
    with take(3) that logs_okD(3) [OF ok(1)] show ?thesis by auto
  qed (use that logs_okD(3) [OF ok(1)] in auto)
  with ok(1) show ?thesis unfolding logs_ok_def F by blast
qed

lemma reader_access_counted:
  assumes st: "reader_access c r \<sigma> = Some \<sigma>'" and ok: "counted c np nr \<sigma>" "ranged c np nr \<sigma>" and r: "r < nr"
  shows "counted c np nr \<sigma>'"
proof -
  note U = tally_upd [OF r, of tent "r_readers \<sigma>"]
  have keep: "counted c np nr (set_reader r pc \<sigma>)" if "\<And>b. tent pc b = tent (r_readers \<sigma> r) b" for pc
    using ok(1) tally_same [OF r, of tent pc "r_readers \<sigma>", OF that] by (simp add: counted_def refs_def owns_def)
  from st show ?thesis
  proof (cases rule: reader_access_cases)
    case (inc s b l n)
    have "reader_ok c (RdRc s b l n)" using ok(2) r inc(1) unfolding ranged_def by metis
    then have n0: "0 < unat n" by (simp add: unat_gt_0)
    have "n < - 1" using inc(3) by (simp add: order.not_eq_order_implies_strict)
    then have "unat n < 2 ^ 32 - 1" by (simp add: word_less_nat_alt unsigned_minus_1_eq_mask mask_eq_exp_minus_1)
    then have n1: "unat (n + 1) = unat n + 1" by (simp add: unat_word_ariths)
    have "unat (r_rc \<sigma>' b') = refs c np nr \<sigma>' b' \<and> owns np \<sigma>' b' = (if refs c np nr \<sigma>' b' = 0 then 1 else 0)"
      if b': "b' < block_count c" for b'
      using countedD [OF ok(1) b'] inc U [of "RdRef s b l" b'] n0 n1
      by (cases "b' = b") (simp_all add: refs_def owns_def)
    then show ?thesis by (simp add: counted_def)
  next
    case (take s b l)
    have "refs c np nr \<sigma>' b' = refs c np nr \<sigma> b'" for b'
      using take U [of RdIdle b'] by (cases "b' = b") (simp_all add: refs_def)
    with ok(1) take show ?thesis by (simp add: counted_def owns_def)
  next
    case (release b)
    show ?thesis unfolding release(2)
    proof (rule drop_ref_counted)
      fix b' assume b': "b' < block_count c"
      show "unat (r_rc (set_reader r RdIdle \<sigma>) b') = refs c np nr (set_reader r RdIdle \<sigma>) b' + of_bool (b' = b) \<and>
          owns np (set_reader r RdIdle \<sigma>) b' = (if refs c np nr (set_reader r RdIdle \<sigma>) b' + of_bool (b' = b) = 0 then 1 else 0)"
        using countedD [OF ok(1) b'] release(1) U [of RdIdle b'] by (cases "b' = b") (simp_all add: refs_def owns_def)
    qed
  qed (use keep in simp_all)
qed

lemma ranged_reader:
  assumes "ranged c np nr \<sigma>" "r < nr" "reader_ok c pc"
  shows "ranged c np nr (set_reader r pc \<sigma>)"
  using assms by (simp add: ranged_def)

lemma ranged_drop_ref: "ranged c np nr \<sigma> \<Longrightarrow> b < block_count c \<Longrightarrow> ranged c np nr (drop_ref b \<sigma>)"
  by (auto simp: ranged_def drop_ref_def Let_def)

lemma reader_access_ranged:
  assumes "reader_access c r \<sigma> = Some \<sigma>'" "ranged c np nr \<sigma>" "r < nr"
  shows "ranged c np nr \<sigma>'"
proof -
  have old: "reader_ok c (r_readers \<sigma> r)" using assms(2,3) by (simp add: ranged_def)
  note keep = ranged_reader [OF assms(2,3)]
  from assms(1) show ?thesis
  proof (cases rule: reader_access_cases)
    case (inc s b l n)
    then show ?thesis using assms(2,3) old by (simp add: ranged_def)
  next
    case (take s b l)
    then show ?thesis using assms(2,3) old by (simp add: ranged_def)
  next
    case (release b)
    then show ?thesis using old keep [of RdIdle] ranged_drop_ref by simp
  qed (use keep old in simp_all)
qed

section \<open>Loans, sequence numbers and frees keep the invariant\<close>

lemma ring_invI:
  assumes "counted c np nr \<sigma>" "ranged c np nr \<sigma>" "slots_ok c np \<sigma>" "seqs_ok c np nr \<sigma>" "logs_ok c np \<sigma>" "reads_ok c nr \<sigma>"
  shows "ring_inv c np nr \<sigma>"
  using assms by (simp add: ring_inv_def)

text \<open>A publisher that has no sequence number before and after changes only ownership.\<close>

lemma reads_ok_frame:
  assumes "reads_ok c nr \<sigma>" "r_readers \<sigma>' = r_readers \<sigma>" "r_seq \<sigma>' = r_seq \<sigma>" "r_idx \<sigma>' = r_idx \<sigma>" "r_len \<sigma>' = r_len \<sigma>"
  shows "reads_ok c nr \<sigma>'"
  using assms(1) unfolding reads_ok_def assms(2-) .

lemma idle_pub_inv:
  assumes inv: "ring_inv c np nr \<sigma>" and p: "p < np" and pow: "is_power_of_two (ring_depth c)"
    and pc: "r_pubs \<sigma> p \<in> {PubIdle} \<union> range PubLoan" "pc \<in> {PubIdle} \<union> range PubLoan"
    and st: "\<sigma>' = \<sigma>\<lparr>r_pubs := (r_pubs \<sigma>)(p := pc), r_idle := idle, r_limbo := limbo\<rparr>"
    and own: "\<And>b. count_list idle b + count_list limbo b + held pc b =
      count_list (r_idle \<sigma>) b + count_list (r_limbo \<sigma>) b + held (r_pubs \<sigma> p) b"
    and rng: "\<forall>b \<in> set idle \<union> set limbo. b < block_count c" "\<forall>y. pub_block pc = Some y \<longrightarrow> y < block_count c"
  shows "ring_inv c np nr \<sigma>'"
proof (rule ring_invI)
  note I = ring_invD [OF inv]
  have m: "marks c pc k = 0" "marks c (r_pubs \<sigma> p) k = 0" "pub_seq pc = None" "pend pc b = 0" "pend (r_pubs \<sigma> p) b = 0"
    "knows c \<tau> pc" for k b \<tau> using pc by (auto simp: knows_def)
  have pd: "tally pend np (r_pubs \<sigma>') = tally pend np (r_pubs \<sigma>)" unfolding st by (simp add: tally_same [OF p] m)
  have "owns np \<sigma>' b = owns np \<sigma> b" for b
    using own [of b] tally_upd [OF p, of held "r_pubs \<sigma>" pc b] by (simp add: owns_def st)
  moreover have "refs c np nr \<sigma>' b = refs c np nr \<sigma> b" for b using pd by (simp add: refs_def st)
  ultimately show "counted c np nr \<sigma>'" using I(1) by (simp add: counted_def st)
  show "ranged c np nr \<sigma>'" using I(2) rng p by (simp add: ranged_def st ball_Un)
  show "slots_ok c np \<sigma>'" by (rule slots_ok_pub [OF I(3) p]) (simp_all add: st m pow)
  show "seqs_ok c np nr \<sigma>'" by (rule seqs_ok_pub [OF I(4) p]) (simp_all add: st m)
  show "logs_ok c np \<sigma>'" by (rule logs_ok_pub [OF I(5) p]) (simp_all add: st m)
  show "reads_ok c nr \<sigma>'" by (rule reads_ok_frame [OF I(6)]) (simp_all add: st)
qed

text \<open>The block of a loan is in no slot, in no sample and with no other publisher.\<close>

lemma loaned_elsewhere:
  assumes inv: "ring_inv c np nr \<sigma>" and p: "p < np" "r_pubs \<sigma> p = PubLoan y" and pow: "is_power_of_two (ring_depth c)"
  shows "k < ring_depth c \<Longrightarrow> r_idx \<sigma> k \<noteq> y" "(s, b, l) \<in> set (r_samples \<sigma>) \<Longrightarrow> b \<noteq> y"
    "q < np \<Longrightarrow> pub_msg (r_pubs \<sigma> q) = Some (y', l) \<Longrightarrow> y' \<noteq> y"
proof -
  note I = ring_invD [OF inv]
  have y: "y < block_count c" using I(2) p by (auto simp: ranged_def)
  have "0 < owns np \<sigma> y" using tally_ge [OF p(1), of held "r_pubs \<sigma>" y] p(2) by (simp add: owns_def)
  note O = owned_unreferenced [OF I(1) y this]
  show slot: "k < ring_depth c \<Longrightarrow> r_idx \<sigma> k \<noteq> y" for k using O(1) slot_refs_ge [of k c "r_idx \<sigma>" y] by (auto simp: refs_def)
  show "(s, b, l) \<in> set (r_samples \<sigma>) \<Longrightarrow> b \<noteq> y"
    using O(1) by (force simp: refs_def count_list_0_iff)
  assume q: "q < np" "pub_msg (r_pubs \<sigma> q) = Some (y', l)"
  then have "q \<noteq> p" using p(2) by auto
  then have "held (r_pubs \<sigma> q) y = 0" using tally_two [OF q(1) p(1), of held "r_pubs \<sigma>" y] O(2) p(2) by (simp add: owns_def)
  moreover have "pend (r_pubs \<sigma> q) y = 0" using tally_ge [OF q(1), of pend "r_pubs \<sigma>" y] O(1) by (simp add: refs_def)
  moreover have "knows c \<sigma> (r_pubs \<sigma> q)" using I(3) q(1) by (simp add: slots_ok_iff)
  ultimately show "y' \<noteq> y"
    using q(2) slot ring_slot_less [OF pow] by (cases "r_pubs \<sigma> q") (auto simp: knows_def)
qed

lemma write_inv:
  assumes inv: "ring_inv c np nr \<sigma>" and p: "p < np" "r_pubs \<sigma> p = PubLoan y" and pow: "is_power_of_two (ring_depth c)"
  shows "ring_inv c np nr (\<sigma>\<lparr>r_data := (r_data \<sigma>)(y := d)\<rparr>)"
proof (rule ring_invI)
  let ?\<sigma> = "\<sigma>\<lparr>r_data := (r_data \<sigma>)(y := d)\<rparr>"
  note I = ring_invD [OF inv] and E = loaned_elsewhere [OF inv p pow]
  show "logs_ok c np ?\<sigma>"
    using I(5) E unfolding logs_ok_def by (fastforce simp: split_beta)
  show "counted c np nr ?\<sigma>" using I(1) by (simp add: counted_def refs_def owns_def)
  show "ranged c np nr ?\<sigma>" using I(2) by (simp add: ranged_def)
  show "slots_ok c np ?\<sigma>" by (rule slots_ok_frame [OF I(3)]) simp_all
  show "seqs_ok c np nr ?\<sigma>" using I(4) by (simp add: seqs_ok_def)
  show "reads_ok c nr ?\<sigma>" by (rule reads_ok_frame [OF I(6)]) simp_all
qed

lemma take_seq_inv:
  assumes inv: "ring_inv c np nr \<sigma>" and p: "p < np" "r_pubs \<sigma> p = PubLoan y" and pow: "is_power_of_two (ring_depth c)"
    and s: "s = r_write_seq \<sigma> + 1" "s < SEQ_WRITING" "r_write_seq \<sigma> < s"
  shows "ring_inv c np nr (set_pub p (PubClaim y l s 0) (\<sigma>\<lparr>r_write_seq := s, r_log := (r_log \<sigma>)(s := (r_data \<sigma> y, l))\<rparr>))"
    (is "ring_inv c np nr ?\<sigma>")
proof (rule ring_invI)
  note I = ring_invD [OF inv]
  have slot: "r_seq \<sigma> k \<noteq> s" if "k < ring_depth c" for k
    using seqs_okD(2) [OF I(4) that] s(2,3) by (cases "r_seq \<sigma> k = SEQ_WRITING") auto
  have pub: "pub_seq (r_pubs \<sigma> q) \<noteq> Some s" if "q < np" for q using pub_seq_fresh(1) [OF I(4) that, of s] s(3) by auto
  have rd: "reader_seq (r_readers \<sigma> r) \<noteq> Some s" if "r < nr" for r using reader_seq_bound(2) [OF I(4) that, of s] s(3) by auto
  have smp: "s' < s" if "(s', b, l') \<in> set (r_samples \<sigma>)" for s' b l' using seqs_okD(3) [OF I(4) that] s(3) by simp
  have up: "x \<le> s" if "x \<le> r_write_seq \<sigma>" for x using that s(3) by simp
  show "counted c np nr ?\<sigma>" by (rule counted_pub_same [OF I(1) p(1), where pc = "PubClaim y l s 0"]) (simp_all add: p(2))
  show "ranged c np nr ?\<sigma>" using I(2) p by (simp add: ranged_def)
  show "slots_ok c np ?\<sigma>" by (rule slots_ok_pub [OF I(3) p(1)]) (simp_all add: p(2) pow knows_def)
  show "reads_ok c nr ?\<sigma>" by (rule reads_ok_frame [OF I(6)]) simp_all
  show "logs_ok c np ?\<sigma>"
    unfolding logs_ok_def
  proof (intro conjI allI impI ballI)
    fix k assume k: "k < ring_depth c" "r_seq ?\<sigma> k \<noteq> 0" "r_seq ?\<sigma> k \<noteq> SEQ_WRITING"
    then show "r_idx ?\<sigma> k < block_count c" "r_log ?\<sigma> (r_seq ?\<sigma> k) = (r_data ?\<sigma> (r_idx ?\<sigma> k), r_len ?\<sigma> k)"
      using logs_okD(1) [OF I(5)] slot [OF k(1)] by simp_all
  next
    fix q s' y' l' assume q: "q < np" "pub_seq (r_pubs ?\<sigma> q) = Some s'" "pub_msg (r_pubs ?\<sigma> q) = Some (y', l')"
    then show "r_log ?\<sigma> s' = (r_data ?\<sigma> y', l')"
      using logs_okD(2) [OF I(5) q(1)] pub [OF q(1)] by (cases "q = p") auto
  next
    fix x assume "x \<in> set (r_samples ?\<sigma>)"
    moreover obtain s' b l' where x: "x = (s', b, l')" by (cases x)
    ultimately have m: "(s', b, l') \<in> set (r_samples \<sigma>)" by simp
    show "case x of (s, b, l) \<Rightarrow> r_log ?\<sigma> s = (r_data ?\<sigma> b, l)"
      using logs_okD(3) [OF I(5) m] less_imp_neq [OF smp [OF m]] by (simp add: x)
  qed
  show "seqs_ok c np nr ?\<sigma>"
    unfolding seqs_ok_def
  proof (intro conjI allI impI ballI)
    fix q s' assume q: "q < np" "pub_seq (r_pubs ?\<sigma> q) = Some s'"
    have "0 < s" using s(3) by (cases "s = 0") (simp_all add: word_gt_0)
    then show "0 < s'" "s' \<le> r_write_seq ?\<sigma>"
      using q up pub_seq_fresh(1) [OF I(4) q(1), of s'] by (cases "q = p"; simp)+
    show "r_seq ?\<sigma> k \<noteq> s'" if "k < ring_depth c" for k
      using q slot [OF that] pub_seq_fresh(3) [OF I(4) q(1) _ that] by (cases "q = p") auto
    show "pub_seq (r_pubs ?\<sigma> q') \<noteq> Some s'" if "q' < np" "q' \<noteq> q" for q'
      using q that pub pub_seq_fresh(4) [OF I(4) q(1) _ that] by (cases "q = p"; cases "q' = p") auto
    show "reader_seq (r_readers ?\<sigma> r) \<noteq> Some s'" if "r < nr" for r
      using q rd [OF that] pub_seq_fresh(5) [OF I(4) q(1) _ that] by (cases "q = p") auto
  next
    fix r s' assume "r < nr" "reader_seq (r_readers ?\<sigma> r) = Some s'"
    then show "0 < s'" "s' \<le> r_write_seq ?\<sigma>" using reader_seq_bound(1,2) [OF I(4)] up by simp_all
  next
    fix x assume "x \<in> set (r_samples ?\<sigma>)"
    moreover obtain s' b l' where x: "x = (s', b, l')" by (cases x)
    ultimately have "(s', b, l') \<in> set (r_samples \<sigma>)" by simp
    from smp [OF this] show "case x of (s', _) \<Rightarrow> s' \<le> r_write_seq ?\<sigma>" by (simp add: x)
  next
    fix k assume "k < ring_depth c" "r_seq ?\<sigma> k \<noteq> SEQ_WRITING"
    then show "r_seq ?\<sigma> k \<le> r_write_seq ?\<sigma>" using seqs_okD(2) [OF I(4)] up by simp
  qed (use s in simp)
qed

lemma start_read_inv:
  assumes inv: "ring_inv c np nr \<sigma>" and r: "r < nr" and s: "0 < s" "s \<le> r_write_seq \<sigma>" "r_seq \<sigma> (ring_slot c s) = s"
    and pow: "is_power_of_two (ring_depth c)" and idle: "r_readers \<sigma> r = RdIdle"
  shows "ring_inv c np nr (set_reader r (RdSeq s) \<sigma>)" (is "ring_inv c np nr ?\<sigma>")
proof (rule ring_invI)
  note I = ring_invD [OF inv]
  have pub: "pub_seq (r_pubs \<sigma> p) \<noteq> Some s" if "p < np" for p
    using pub_seq_fresh(3) [OF I(4) that _ ring_slot_less [OF pow, of s]] s(3) by metis
  have "tally tent nr (r_readers ?\<sigma>) = tally tent nr (r_readers \<sigma>)" using tally_same [OF r, of tent "RdSeq s" "r_readers \<sigma>"] by (simp add: idle)
  then show "counted c np nr ?\<sigma>" using I(1) by (simp add: counted_def refs_def owns_def)
  show "ranged c np nr ?\<sigma>" by (rule ranged_reader [OF I(2) r]) simp
  show "slots_ok c np ?\<sigma>" by (rule slots_ok_frame [OF I(3)]) simp_all
  show "logs_ok c np ?\<sigma>" using I(5) by (simp add: logs_ok_def)
  have "saw c ?\<sigma> (r_readers ?\<sigma> q)" if "q < nr" for q
  proof (cases "q = r")
    case False
    have "saw c \<sigma> (r_readers \<sigma> q)" using I(6) that by (simp add: reads_ok_iff)
    then have "saw c ?\<sigma> (r_readers \<sigma> q)" by (rule saw_frame) simp
    with False show ?thesis by simp
  qed (simp add: saw_def)
  then show "reads_ok c nr ?\<sigma>" by (simp add: reads_ok_iff)
  have rd: "0 < s' \<and> s' \<le> r_write_seq \<sigma>" if "q < nr" "reader_seq (r_readers ?\<sigma> q) = Some s'" for q s'
    using that s reader_seq_bound(1,2) [OF I(4) that(1)] by (cases "q = r") auto
  have fresh: "reader_seq (r_readers ?\<sigma> q) \<noteq> Some s'" if "p < np" "pub_seq (r_pubs \<sigma> p) = Some s'" "q < nr" for p q s'
    using that pub [OF that(1)] pub_seq_fresh(5) [OF I(4) that] by (cases "q = r") auto
  have eq: "r_write_seq ?\<sigma> = r_write_seq \<sigma>" "r_pubs ?\<sigma> = r_pubs \<sigma>" "r_seq ?\<sigma> = r_seq \<sigma>" "r_samples ?\<sigma> = r_samples \<sigma>" by simp_all
  show "seqs_ok c np nr ?\<sigma>" using I(4) rd fresh unfolding seqs_ok_def eq by blast
qed

lemma drop_sample_inv:
  assumes inv: "ring_inv c np nr \<sigma>" and j: "r_samples \<sigma> = xs @ (s, b, l) # ys"
  shows "ring_inv c np nr (drop_ref b (\<sigma>\<lparr>r_samples := xs @ ys\<rparr>))" (is "ring_inv c np nr (drop_ref b ?\<sigma>)")
proof (rule ring_invI)
  note I = ring_invD [OF inv]
  have b: "b < block_count c" using I(2) j by (auto simp: ranged_def)
  have "ranged c np nr ?\<sigma>" using I(2) j by (auto simp: ranged_def)
  then show "ranged c np nr (drop_ref b ?\<sigma>)" by (rule ranged_drop_ref [OF _ b])
  show "counted c np nr (drop_ref b ?\<sigma>)"
  proof (rule drop_ref_counted)
    fix b' assume b': "b' < block_count c"
    show "unat (r_rc ?\<sigma> b') = refs c np nr ?\<sigma> b' + of_bool (b' = b) \<and>
        owns np ?\<sigma> b' = (if refs c np nr ?\<sigma> b' + of_bool (b' = b) = 0 then 1 else 0)"
      using countedD [OF I(1) b'] by (cases "b' = b") (simp_all add: refs_def owns_def j)
  qed
  show "slots_ok c np (drop_ref b ?\<sigma>)" by (rule slots_ok_frame [OF I(3)]) simp_all
  show "reads_ok c nr (drop_ref b ?\<sigma>)" by (rule reads_ok_frame [OF I(6)]) simp_all
  show "logs_ok c np (drop_ref b ?\<sigma>)" using I(5) by (simp add: logs_ok_def j)
  show "seqs_ok c np nr (drop_ref b ?\<sigma>)" using I(4) by (simp add: seqs_ok_def j)
qed

lemma free_inv:
  assumes inv: "ring_inv c np nr \<sigma>" and b: "b \<in> set (r_limbo \<sigma>)"
  shows "ring_inv c np nr (\<sigma>\<lparr>r_limbo := remove1 b (r_limbo \<sigma>), r_idle := b # r_idle \<sigma>\<rparr>)" (is "ring_inv c np nr ?\<sigma>")
proof (rule ring_invI)
  note I = ring_invD [OF inv]
  have "count_list (remove1 b xs) b' + of_bool (b = b') = count_list xs b'" if "b \<in> set xs" for xs b'
    using that by (induction xs) auto
  note C = this [OF b]
  have "owns np ?\<sigma> b' = owns np \<sigma> b'" for b' using C [of b'] by (cases "b = b'") (simp_all add: owns_def)
  then show "counted c np nr ?\<sigma>" using I(1) by (simp add: counted_def refs_def)
  show "ranged c np nr ?\<sigma>" using I(2) b set_remove1_subset [of b "r_limbo \<sigma>"] by (auto simp: ranged_def)
  show "slots_ok c np ?\<sigma>" by (rule slots_ok_frame [OF I(3)]) simp_all
  show "reads_ok c nr ?\<sigma>" by (rule reads_ok_frame [OF I(6)]) simp_all
  show "logs_ok c np ?\<sigma>" using I(5) by (simp add: logs_ok_def)
  show "seqs_ok c np nr ?\<sigma>" using I(4) by (simp add: seqs_ok_def)
qed

section \<open>Reachable states\<close>

lemma count_idle_init: "b < block_count c \<Longrightarrow> count_list (map of_nat [0..<unat (block_count c)]) b = 1"
proof -
  assume b: "b < block_count c"
  let ?xs = "map of_nat [0..<unat (block_count c)] :: u32 list"
  have "inj_on (of_nat :: nat \<Rightarrow> u32) {0..<unat (block_count c)}"
    by (rule inj_onI) (metis atLeastLessThan_iff unat_of_nat_below)
  then have "distinct ?xs" by (simp add: distinct_map)
  moreover have "b = of_nat (unat b)" by simp
  then have "b \<in> set ?xs" using b by (auto simp: word_less_nat_alt intro!: image_eqI [of b of_nat "unat b"])
  ultimately show ?thesis by (simp add: count_mset [symmetric] distinct_count_atmost_1 del: set_map)
qed

lemma ring_init_inv: "ring_inv c np nr (ring_init c)"
proof (rule ring_invI)
  let ?\<sigma> = "ring_init c"
  have no: "NO_BLOCK \<noteq> b" if "b < block_count c" for b using that no_block_out by metis
  have t0: "tally f n (\<lambda>_. pc) b = 0" if "f pc b = 0" for f :: "'x \<Rightarrow> u32 \<Rightarrow> nat" and n pc b using that by (simp add: tally_def)
  have "refs c np nr ?\<sigma> b = 0 \<and> owns np ?\<sigma> b = 1" if "b < block_count c" for b
    using no [OF that] count_idle_init [OF that] by (simp add: refs_def owns_def ring_init_def slot_refs_def t0)
  then show "counted c np nr ?\<sigma>" by (simp add: counted_def) (simp add: ring_init_def)
  show "ranged c np nr ?\<sigma>" by (auto simp: ranged_def ring_init_def word_less_nat_alt unat_of_nat_below)
  show "slots_ok c np ?\<sigma>" by (simp add: slots_ok_def ring_init_def t0 SEQ_WRITING_def)
  show "seqs_ok c np nr ?\<sigma>" by (simp add: seqs_ok_def ring_init_def SEQ_WRITING_def word_gt_0)
  show "logs_ok c np ?\<sigma>" by (simp add: logs_ok_def ring_init_def)
  show "reads_ok c nr ?\<sigma>" by (simp add: reads_ok_def ring_init_def)
qed

lemma pub_access_inv:
  assumes "ring_inv c np nr \<sigma>" "p < np" "pub_access c single_publisher p \<sigma> = Some \<sigma>'"
    "orderly c single_publisher (Pub_access p) \<sigma>" "is_power_of_two (ring_depth c)"
  shows "ring_inv c np nr \<sigma>'"
proof -
  note I = ring_invD [OF assms(1)]
  show ?thesis
    by (rule ring_invI [OF pub_access_counted [OF assms(3,4) I(1,3,2) assms(2,5)] pub_access_ranged [OF assms(3,4) I(2) assms(2)]
        pub_access_slots [OF assms(3,4) I(3,4) assms(2,5)] pub_access_seqs [OF assms(3,4) I(4) assms(2)]
        pub_access_logs [OF assms(3,4) I(5,3,2) assms(2,5)] pub_access_reads [OF assms(3,4) I(6,3,4) assms(2,5)]])
qed

lemma reader_access_inv:
  assumes "ring_inv c np nr \<sigma>" "r < nr" "reader_access c r \<sigma> = Some \<sigma>'" "is_power_of_two (ring_depth c)"
  shows "ring_inv c np nr \<sigma>'"
proof -
  note I = ring_invD [OF assms(1)] and F = reader_access_frame [OF assms(3)]
  show ?thesis
    by (rule ring_invI [OF reader_access_counted [OF assms(3) I(1,2) assms(2)] reader_access_ranged [OF assms(3) I(2) assms(2)]
        slots_ok_frame [OF I(3) F(1-4)] reader_access_seqs [OF assms(3) I(4) assms(2)]
        reader_access_logs [OF assms(3) I(5,6,4) assms(2,4)] reader_access_reads [OF assms(3) I(6) assms(2)]])
qed

lemma ring_step_inv:
  assumes inv: "ring_inv c np nr \<sigma>" and a: "actor_ok np nr a" "orderly c single_publisher a \<sigma>"
    and st: "ring_step c single_publisher a \<sigma> = Some \<sigma>'" and pow: "is_power_of_two (ring_depth c)"
  shows "ring_inv c np nr \<sigma>'"
proof (cases a)
  case (Loan_block p)
  then obtain y ys where y: "r_pubs \<sigma> p = PubIdle" "r_idle \<sigma> = y # ys" "\<sigma>' = set_pub p (PubLoan y) (\<sigma>\<lparr>r_idle := ys\<rparr>)"
    using st by (auto split: pub_pc.splits list.splits)
  have "y < block_count c" "\<forall>b \<in> set ys \<union> set (r_limbo \<sigma>). b < block_count c"
    using ring_invD(2) [OF inv] y(2) by (auto simp: ranged_def)
  with y a Loan_block show ?thesis
    by (intro idle_pub_inv [OF inv _ pow, where p = p and pc = "PubLoan y" and idle = ys and limbo = "r_limbo \<sigma>"]) auto
next
  case (Write_block p d)
  then obtain y where "r_pubs \<sigma> p = PubLoan y" "\<sigma>' = \<sigma>\<lparr>r_data := (r_data \<sigma>)(y := d)\<rparr>"
    using st by (auto split: pub_pc.splits)
  with a Write_block show ?thesis using write_inv [OF inv _ _ pow] by simp
next
  case (Drop_loan p)
  then obtain y where y: "r_pubs \<sigma> p = PubLoan y" "\<sigma>' = set_pub p PubIdle (\<sigma>\<lparr>r_limbo := y # r_limbo \<sigma>\<rparr>)"
    using st by (auto split: pub_pc.splits)
  have "\<forall>b \<in> set (r_idle \<sigma>) \<union> set (y # r_limbo \<sigma>). b < block_count c"
    using ring_invD(2) [OF inv] y(1) a Drop_loan by (auto simp: ranged_def)
  with y a Drop_loan show ?thesis
    by (intro idle_pub_inv [OF inv _ pow, where p = p and pc = PubIdle and idle = "r_idle \<sigma>" and limbo = "y # r_limbo \<sigma>"]) auto
next
  case (Take_seq p l)
  then obtain y s where "r_pubs \<sigma> p = PubLoan y" "s = r_write_seq \<sigma> + 1" "s < SEQ_WRITING" "r_write_seq \<sigma> < s"
    "\<sigma>' = set_pub p (PubClaim y l s 0) (\<sigma>\<lparr>r_write_seq := s, r_log := (r_log \<sigma>)(s := (r_data \<sigma> y, l))\<rparr>)"
    using st by (auto simp: Let_def split: pub_pc.splits if_splits)
  with a Take_seq show ?thesis using take_seq_inv [OF inv _ _ pow] by simp
next
  case (Pub_access p)
  with assms show ?thesis using pub_access_inv [OF inv] by simp
next
  case (Start_read r s)
  then show ?thesis using st a inv start_read_inv [OF inv _ _ _ _ pow] by (auto split: if_splits)
next
  case (Reader_access r)
  with assms show ?thesis using reader_access_inv [OF inv] by simp
next
  case (Drop_sample j)
  then have j: "j < length (r_samples \<sigma>)" using st by (auto split: if_splits)
  obtain s b l where x: "r_samples \<sigma> ! j = (s, b, l)" by (cases "r_samples \<sigma> ! j")
  with j have "r_samples \<sigma> = take j (r_samples \<sigma>) @ (s, b, l) # drop (Suc j) (r_samples \<sigma>)" by (metis id_take_nth_drop)
  from drop_sample_inv [OF inv this] j x st Drop_sample show ?thesis by auto
next
  case (Free_block b)
  then show ?thesis using st free_inv [OF inv] by (auto split: if_splits)
qed

lemma ring_reach_inv:
  assumes "ring_reach c single_publisher np nr (orderly c single_publisher) \<sigma>" "is_power_of_two (ring_depth c)"
  shows "ring_inv c np nr \<sigma>"
  using assms by (induction rule: ring_reach.induct) (auto intro: ring_init_inv ring_step_inv)

text \<open>A publisher that is alone never finds its slot marked.\<close>

lemma alone_orderly:
  assumes "ring_inv c 1 nr \<sigma>" "actor_ok 1 nr a" "is_power_of_two (ring_depth c)"
  shows "orderly c single_publisher a \<sigma>"
proof (cases a)
  case (Pub_access p)
  then have p: "p = 0" using assms(2) by simp
  show ?thesis
  proof (cases "r_pubs \<sigma> p")
    case (PubClaim y l s n)
    have "tally (marks c) 1 (r_pubs \<sigma>) (ring_slot c s) = of_bool (r_seq \<sigma> (ring_slot c s) = SEQ_WRITING)"
      using ring_invD(3) [OF assms(1)] ring_slot_less [OF assms(3)] by (simp add: slots_ok_def)
    then have "r_seq \<sigma> (ring_slot c s) \<noteq> SEQ_WRITING" using PubClaim p by (auto simp: tally_def)
    with PubClaim Pub_access show ?thesis by (simp add: orderly_def)
  qed (simp_all add: orderly_def Pub_access)
qed (simp_all add: orderly_def)

lemma sched_reach_inv:
  assumes "ring_reach c single_publisher np nr sched \<sigma>" "is_power_of_two (ring_depth c)"
    and "np = 1 \<or> (\<forall>a \<tau>. sched a \<tau> \<longrightarrow> orderly c single_publisher a \<tau>)"
  shows "ring_inv c np nr \<sigma>"
  using assms(1)
proof (induction rule: ring_reach.induct)
  case (reach_next \<sigma> a \<sigma>')
  have "orderly c single_publisher a \<sigma>" using assms(3)
  proof
    assume "np = 1"
    with reach_next show ?thesis by (intro alone_orderly [OF _ _ assms(2)]) simp_all
  next
    assume "\<forall>a \<tau>. sched a \<tau> \<longrightarrow> orderly c single_publisher a \<tau>"
    with reach_next show ?thesis by blast
  qed
  from ring_step_inv [OF reach_next.IH reach_next.hyps(2) this reach_next.hyps(4) assms(2)] show ?case .
qed (rule ring_init_inv)

text \<open>The block of a sample is out of circulation.\<close>

lemma sample_block:
  assumes inv: "ring_inv c np nr \<sigma>" and s: "(s, b, l) \<in> set (r_samples \<sigma>)"
  shows "b < block_count c" "r_rc \<sigma> b \<noteq> 0" "b \<notin> set (r_idle \<sigma>) \<union> set (r_limbo \<sigma>)" "p < np \<Longrightarrow> r_pubs \<sigma> p \<noteq> PubLoan b"
proof -
  note I = ring_invD [OF inv]
  show b: "b < block_count c" using I(2) s by (force simp: ranged_def)
  have "b \<in> set (map (fst \<circ> snd) (r_samples \<sigma>))" using s by force
  then have "count_list (map (fst \<circ> snd) (r_samples \<sigma>)) b \<noteq> 0" by (simp add: count_list_0_iff)
  then have r: "refs c np nr \<sigma> b \<noteq> 0" by (simp add: refs_def)
  then show "r_rc \<sigma> b \<noteq> 0" using countedD(1) [OF I(1) b] by auto
  have o: "owns np \<sigma> b = 0" using countedD(2) [OF I(1) b] r by simp
  then show "b \<notin> set (r_idle \<sigma>) \<union> set (r_limbo \<sigma>)" by (simp add: owns_def count_list_0_iff)
  assume p: "p < np"
  show "r_pubs \<sigma> p \<noteq> PubLoan b"
  proof
    assume "r_pubs \<sigma> p = PubLoan b"
    then have "1 \<le> tally held np (r_pubs \<sigma>) b" using tally_ge [OF p, of held "r_pubs \<sigma>" b] by simp
    with o show False by (simp add: owns_def)
  qed
qed

section \<open>Concrete schedules\<close>

fun ring_run :: "config \<Rightarrow> (nat \<Rightarrow> bool) \<Rightarrow> ring_action list \<Rightarrow> ring_state \<Rightarrow> ring_state option" where
  "ring_run c single_publisher [] \<sigma> = Some \<sigma>"
| "ring_run c single_publisher (a # as) \<sigma> =
     (case ring_step c single_publisher a \<sigma> of None \<Rightarrow> None | Some \<sigma>' \<Rightarrow> ring_run c single_publisher as \<sigma>')"

lemma ring_run_reach:
  assumes "ring_run c single_publisher as \<sigma> = Some \<sigma>'" "list_all (actor_ok np nr) as" "ring_reach c single_publisher np nr (\<lambda>_ _. True) \<sigma>"
  shows "ring_reach c single_publisher np nr (\<lambda>_ _. True) \<sigma>'"
  using assms by (induction as arbitrary: \<sigma>) (auto split: option.splits intro: reach_next)

definition two_slots :: config where
  "two_slots = \<lparr>max_topics = 1, block_count = 4, block_size = 128, ring_depth = 2, heartbeat_interval = 0, stale_timeout = 0\<rparr>"

text \<open>Publisher \<open>p\<close> publishes \<open>d\<close> without interruption, and frees the block \<open>x\<close> it replaces, if any.\<close>

definition publish_run :: "nat \<Rightarrow> bytes \<Rightarrow> u32 option \<Rightarrow> ring_action list" where
  "publish_run p d x = [Loan_block p, Write_block p d, Take_seq p (of_nat (length d))] @ replicate 7 (Pub_access p) @
     (case x of None \<Rightarrow> [] | Some b \<Rightarrow> [Free_block b])"

definition read_run :: "nat \<Rightarrow> u64 \<Rightarrow> ring_action list" where
  "read_run r s = Start_read r s # replicate 5 (Reader_access r)"

lemma two_slots_simps:
  "ring_slot two_slots s = as_u32 (s AND 1)" "block_count two_slots = 4" "data_capacity two_slots = 120"
  by (simp_all add: ring_slot_def two_slots_def as_u64_def data_capacity_def as_usize_def BLOCK_DATA_OFFSET_def)

lemma run_simps:
  "publish_run p d x = Loan_block p # Write_block p d # Take_seq p (of_nat (length d)) # Pub_access p # Pub_access p # Pub_access p #
     Pub_access p # Pub_access p # Pub_access p # Pub_access p # (case x of None \<Rightarrow> [] | Some b \<Rightarrow> [Free_block b])"
  "read_run r s = [Start_read r s, Reader_access r, Reader_access r, Reader_access r, Reader_access r, Reader_access r]"
  by (simp_all add: publish_run_def read_run_def eval_nat_numeral)

lemma ring_init_two:
  "ring_init two_slots =
     \<lparr>r_seq = (\<lambda>_. 0), r_idx = (\<lambda>_. NO_BLOCK), r_len = (\<lambda>_. 0), r_rc = (\<lambda>_. 0), r_data = (\<lambda>_. []), r_write_seq = 0,
      r_idle = [0, 1, 2, 3], r_limbo = [], r_pubs = (\<lambda>_. PubIdle), r_readers = (\<lambda>_. RdIdle),
      r_samples = [], r_log = (\<lambda>_. ([], 0))\<rparr>"
  by (simp add: ring_init_def two_slots_simps upt_conv_Cons)

lemma less_all_ones: "(x :: u64) < - 1 \<longleftrightarrow> x \<noteq> - 1"
  by (auto simp: order.strict_iff_order)

lemmas schedule_simps = less_all_ones run_simps ring_init_two two_slots_simps pub_access_def reader_access_def Let_def drop_ref_def
  SEQ_WRITING_def NO_BLOCK_def as_u32_def as_usize_def

lemma one_message:
  "map_option (\<lambda>\<sigma>. (r_samples \<sigma>, r_data \<sigma> 0)) (ring_run two_slots (\<lambda>_. True) (publish_run 0 [7] None @ read_run 0 1) (ring_init two_slots)) =
     Some ([(1, 0, 1)], [7])"
  by (simp add: schedule_simps)

text \<open>The owner, publisher 0, and a secondary publisher, which stops after reading the old block of its slot.\<close>

definition overtaken_run :: "ring_action list" where
  "overtaken_run =
     publish_run 0 [1] None @ publish_run 0 [2] None @
     [Loan_block 1, Write_block 1 [3], Take_seq 1 1, Pub_access 1, Pub_access 1] @
     publish_run 0 [4] (Some 1) @ publish_run 0 [5] (Some 0) @ publish_run 0 [6] (Some 3) @
     [Pub_access 1, Pub_access 1, Pub_access 1, Pub_access 1, Pub_access 1, Free_block 0,
      Loan_block 0, Write_block 0 [7], Take_seq 0 1, Pub_access 0, Pub_access 0, Pub_access 0] @
     read_run 0 6"

lemma overtaken:
  "map_option (\<lambda>\<sigma>. (r_samples \<sigma>, r_data \<sigma> 0, r_log \<sigma> 6)) (ring_run two_slots (\<lambda>p. p = 0) overtaken_run (ring_init two_slots)) =
     Some ([(6, 0, 1)], [7], ([6], 1))"
  by (simp add: schedule_simps overtaken_run_def)

section \<open>Properties\<close>

text \<open>
  \<^bold>\<open>C3.\<close> Under every interleaving of any number of readers with one publisher, and with any number of
  publishers as long as none takes a slot that another is still writing: a sample that a reader holds
  shows the bytes and the length published under its sequence number, its block has a positive count and
  is neither idle, nor about to be freed, nor on loan to a publisher; every closed slot holds the message of
  its sequence number; and every block's reference count is exact, with the blocks nobody refers to owned
  exactly once.
\<close>

theorem samples_show_published:
  assumes "ring_reach c single_publisher np nr sched \<sigma>" "is_power_of_two (ring_depth c)"
    and "np = 1 \<or> (\<forall>a \<tau>. sched a \<tau> \<longrightarrow> orderly c single_publisher a \<tau>)"
  shows "(\<forall>(s, b, l) \<in> set (r_samples \<sigma>). r_log \<sigma> s = (r_data \<sigma> b, l) \<and> r_rc \<sigma> b \<noteq> 0 \<and>
       b \<notin> set (r_idle \<sigma>) \<union> set (r_limbo \<sigma>) \<and> (\<forall>p < np. r_pubs \<sigma> p \<noteq> PubLoan b)) \<and>
     (\<forall>k < ring_depth c. r_seq \<sigma> k \<noteq> 0 \<longrightarrow> r_seq \<sigma> k \<noteq> SEQ_WRITING \<longrightarrow>
       r_log \<sigma> (r_seq \<sigma> k) = (r_data \<sigma> (r_idx \<sigma> k), r_len \<sigma> k)) \<and>
     (\<forall>b < block_count c. unat (r_rc \<sigma> b) = refs c np nr \<sigma> b \<and> owns np \<sigma> b = (if refs c np nr \<sigma> b = 0 then 1 else 0))"
proof -
  note inv = sched_reach_inv [OF assms]
  note I = ring_invD [OF inv]
  have "r_log \<sigma> s = (r_data \<sigma> b, l) \<and> r_rc \<sigma> b \<noteq> 0 \<and> b \<notin> set (r_idle \<sigma>) \<union> set (r_limbo \<sigma>) \<and> (\<forall>p < np. r_pubs \<sigma> p \<noteq> PubLoan b)"
    if "(s, b, l) \<in> set (r_samples \<sigma>)" for s b l
    using logs_okD(3) [OF I(5) that] sample_block(2-) [OF inv that] by blast
  moreover have "r_log \<sigma> (r_seq \<sigma> k) = (r_data \<sigma> (r_idx \<sigma> k), r_len \<sigma> k)"
    if "k < ring_depth c" "r_seq \<sigma> k \<noteq> 0" "r_seq \<sigma> k \<noteq> SEQ_WRITING" for k
    using logs_okD(1) [OF I(5) that] by blast
  ultimately show ?thesis using I(1) unfolding counted_def by blast
qed

lemma two_slots_pow: "is_power_of_two (ring_depth two_slots)"
  by (simp add: two_slots_def is_power_of_two_def count_ones_def upt_conv_Cons)

theorem samples_show_published_witness:
  "\<exists>\<sigma>. ring_reach two_slots (\<lambda>_. True) 1 1 (\<lambda>_ _. True) \<sigma> \<and> (1, 0, 1) \<in> set (r_samples \<sigma>) \<and>
     r_data \<sigma> 0 = [7] \<and> r_log \<sigma> 1 = (r_data \<sigma> 0, 1)"
proof -
  obtain \<sigma> where run: "ring_run two_slots (\<lambda>_. True) (publish_run 0 [7] None @ read_run 0 1) (ring_init two_slots) = Some \<sigma>"
    and \<sigma>: "r_samples \<sigma> = [(1, 0, 1)]" "r_data \<sigma> 0 = [7]" using one_message by auto
  have r: "ring_reach two_slots (\<lambda>_. True) 1 1 (\<lambda>_ _. True) \<sigma>"
    by (rule ring_run_reach [OF run _ reach_start]) (simp add: run_simps)
  from samples_show_published [OF r two_slots_pow] r \<sigma> show ?thesis by auto
qed

text \<open>
  \<^bold>\<open>C4.\<close> The condition on slots is needed, and the program does not ensure it.  The creator of a segment always
  publishes in single-publisher mode, also when a secondary publisher has opened the segment.  There is a
  schedule of a creator and one secondary publisher, both running correctly, in which the creator takes the
  slot that the secondary has marked, the old block of that slot is released twice, and a reader then
  receives a sample whose bytes are not those published under its sequence number.
\<close>

theorem owner_overtakes_secondary:
  "\<exists>\<sigma> s b l. ring_reach two_slots (\<lambda>p. p = 0) 2 1 (\<lambda>_ _. True) \<sigma> \<and> (s, b, l) \<in> set (r_samples \<sigma>) \<and>
     r_log \<sigma> s \<noteq> (r_data \<sigma> b, l)"
proof -
  obtain \<sigma> where run: "ring_run two_slots (\<lambda>p. p = 0) overtaken_run (ring_init two_slots) = Some \<sigma>"
    and \<sigma>: "r_samples \<sigma> = [(6, 0, 1)]" "r_data \<sigma> 0 = [7]" "r_log \<sigma> 6 = ([6], 1)" using overtaken by auto
  have "ring_reach two_slots (\<lambda>p. p = 0) 2 1 (\<lambda>_ _. True) \<sigma>"
    by (rule ring_run_reach [OF run _ reach_start]) (simp add: run_simps overtaken_run_def)
  with \<sigma> show ?thesis by (intro exI [of _ \<sigma>] exI [of _ 6] exI [of _ 0] exI [of _ 1]) simp
qed

end
