(* ===== verification/Wakeup.thy ===== *)
theory Wakeup
  imports Wait
begin

text \<open>
  The wake-up protocol between publishers and a receiver that sleeps on the low half of \<open>write_seq\<close>: step 8 of
  \<open>commit_to_ring\<close> (\<open>src/protocol/region.rs\<close>), which makes the system call only when the topic has
  waiters, against the sleeping phase of \<open>blocking_recv\<close> (\<open>src/platform/subscription.rs\<close>) and the
  parking loop of \<open>wait_until_not\<close> (\<open>src/platform/notify.rs\<close>), one shared access at a time.

  A message is its sequence number; it is available once its slot is closed.  \<open>futex_wait\<close> compares the word
  and goes to sleep in one step, and \<open>futex_wake\<close> wakes every sleeper, as Linux documents.  A run has fewer
  than \<open>2^32\<close> publications, so the futex word does not repeat.
\<close>

section \<open>State and steps\<close>

datatype waker_pc = WkIdle | WkTaken u64 | WkClosed | WkWake

datatype sleeper_pc =
    SlPass | SlLoad | SlRetry u32 | SlAnnounce u32 | SlCheck u32 | SlPark u32 | SlAsleep u32 | SlLeave bool
  | SlGot | SlFailed

record wake_state =
  wk_write_seq :: u64
  wk_closed :: "u64 list"
  wk_waiters :: u32
  wk_last_seq :: u64
  wk_pubs :: "nat \<Rightarrow> waker_pc"
  wk_rcv :: sleeper_pc

definition available :: "wake_state \<Rightarrow> bool" where
  "available \<sigma> \<longleftrightarrow> list_ex (\<lambda>q. wk_last_seq \<sigma> < q) (wk_closed \<sigma>)"

abbreviation futex_word :: "wake_state \<Rightarrow> u32" where
  "futex_word \<sigma> \<equiv> as_u32 (wk_write_seq \<sigma>)"

text \<open>The next access of a publisher; the slot protocol between taking a number and closing is one step.\<close>

definition waker_access :: "nat \<Rightarrow> wake_state \<Rightarrow> wake_state option" where
  "waker_access p \<sigma> =
     (case wk_pubs \<sigma> p of
        WkIdle \<Rightarrow>
          let s = wk_write_seq \<sigma> + 1 in
          if unat s < 2 ^ 32 \<and> wk_write_seq \<sigma> < s then Some (\<sigma>\<lparr>wk_write_seq := s, wk_pubs := (wk_pubs \<sigma>)(p := WkTaken s)\<rparr>)
          else None
      | WkTaken s \<Rightarrow> Some (\<sigma>\<lparr>wk_closed := s # wk_closed \<sigma>, wk_pubs := (wk_pubs \<sigma>)(p := WkClosed)\<rparr>)
      | WkClosed \<Rightarrow> Some (\<sigma>\<lparr>wk_pubs := (wk_pubs \<sigma>)(p := if wk_waiters \<sigma> > 0 then WkWake else WkIdle)\<rparr>)
      | WkWake \<Rightarrow>
          Some (\<sigma>\<lparr>wk_pubs := (wk_pubs \<sigma>)(p := WkIdle),
            wk_rcv := (case wk_rcv \<sigma> of SlAsleep cur \<Rightarrow> SlCheck cur | pc \<Rightarrow> pc)\<rparr>))"

text \<open>
  The next access of the receiver.  \<open>expired\<close> says whether its deadline has passed, \<open>stale\<close> whether the
  heartbeat check fails.  A sleeper moves by itself when the futex times out or returns spuriously.
\<close>

definition sleeper_access :: "bool \<Rightarrow> bool \<Rightarrow> wake_state \<Rightarrow> wake_state option" where
  "sleeper_access expired stale \<sigma> =
     (case wk_rcv \<sigma> of
        SlPass \<Rightarrow> Some (\<sigma>\<lparr>wk_rcv := if available \<sigma> then SlGot else SlLoad\<rparr>)
      | SlLoad \<Rightarrow> Some (\<sigma>\<lparr>wk_rcv := SlRetry (futex_word \<sigma>)\<rparr>)
      | SlRetry cur \<Rightarrow> Some (\<sigma>\<lparr>wk_rcv := if available \<sigma> then SlGot else SlAnnounce cur\<rparr>)
      | SlAnnounce cur \<Rightarrow> Some (\<sigma>\<lparr>wk_waiters := wk_waiters \<sigma> + 1, wk_rcv := SlCheck cur\<rparr>)
      | SlCheck cur \<Rightarrow>
          Some (\<sigma>\<lparr>wk_rcv := if futex_word \<sigma> \<noteq> cur then SlLeave False else if expired then SlLeave True else SlPark cur\<rparr>)
      | SlPark cur \<Rightarrow> Some (\<sigma>\<lparr>wk_rcv := if futex_word \<sigma> \<noteq> cur then SlCheck cur else SlAsleep cur\<rparr>)
      | SlAsleep cur \<Rightarrow> Some (\<sigma>\<lparr>wk_rcv := SlCheck cur\<rparr>)
      | SlLeave timed_out \<Rightarrow>
          Some (\<sigma>\<lparr>wk_waiters := wk_waiters \<sigma> - 1, wk_rcv := if timed_out \<and> stale then SlFailed else SlPass\<rparr>)
      | _ \<Rightarrow> None)"

datatype wake_action = Waker nat | Sleeper bool bool

fun wake_step :: "wake_action \<Rightarrow> wake_state \<Rightarrow> wake_state option" where
  "wake_step (Waker p) \<sigma> = waker_access p \<sigma>"
| "wake_step (Sleeper expired stale) \<sigma> = sleeper_access expired stale \<sigma>"

definition wake_init :: wake_state where
  "wake_init = \<lparr>wk_write_seq = 0, wk_closed = [], wk_waiters = 0, wk_last_seq = 0, wk_pubs = (\<lambda>_. WkIdle), wk_rcv = SlPass\<rparr>"

inductive wake_reach :: "wake_state \<Rightarrow> bool" where
  wake_start: "wake_reach wake_init"
| wake_next: "wake_reach \<sigma> \<Longrightarrow> wake_step a \<sigma> = Some \<sigma>' \<Longrightarrow> wake_reach \<sigma>'"

fun wake_run :: "wake_action list \<Rightarrow> wake_state \<Rightarrow> wake_state option" where
  "wake_run [] \<sigma> = Some \<sigma>"
| "wake_run (a # as) \<sigma> = (case wake_step a \<sigma> of None \<Rightarrow> None | Some \<sigma>' \<Rightarrow> wake_run as \<sigma>')"

lemma wake_run_reach: "wake_run as \<sigma> = Some \<sigma>' \<Longrightarrow> wake_reach \<sigma> \<Longrightarrow> wake_reach \<sigma>'"
  by (induction as arbitrary: \<sigma>) (auto split: option.splits intro: wake_next)

section \<open>The invariant\<close>







section \<open>Properties\<close>


text \<open>A receiver that finds nothing and goes to sleep; then a publication that wakes it.\<close>

definition sleep_run :: "wake_action list" where
  "sleep_run = replicate 6 (Sleeper False False)"

lemma sleep_run_simps: "sleep_run = [Sleeper False False, Sleeper False False, Sleeper False False, Sleeper False False, Sleeper False False, Sleeper False False]"
  by (simp add: sleep_run_def numeral_eq_Suc)

lemmas wake_eval = sleep_run_simps wake_init_def waker_access_def sleeper_access_def available_def as_u32_def Let_def



text \<open>
  \<^bold>\<open>C27.\<close> A wake-up can be missed.  When the receiver reads the futex word after a publisher took its number and
  before it closed the slot, and the publisher then looks for waiters before the receiver has announced
  itself, the receiver goes to sleep although the message is available and no publisher will wake it; only
  the time-out of at most 50 milliseconds ends the sleep.
\<close>

definition missed_run :: "wake_action list" where
  "missed_run = [Sleeper False False, Waker 0, Sleeper False False, Sleeper False False, Waker 0, Waker 0,
     Sleeper False False, Sleeper False False, Sleeper False False]"

theorem wakeup_can_be_missed:
  "(\<exists>\<sigma> cur. wake_reach \<sigma> \<and> wk_rcv \<sigma> = SlAsleep cur \<and> available \<sigma> \<and> (\<forall>p. wk_pubs \<sigma> p = WkIdle)) \<and> poll_ms c \<le> 50"
proof -
  have "map_option (\<lambda>\<sigma>. (wk_rcv \<sigma>, available \<sigma>)) (wake_run missed_run wake_init) = Some (SlAsleep 1, True)"
    by (simp add: wake_eval missed_run_def)
  moreover have "\<forall>\<sigma>. wake_run missed_run wake_init = Some \<sigma> \<longrightarrow> (\<forall>p. wk_pubs \<sigma> p = WkIdle)"
    by (simp add: wake_eval missed_run_def)
  ultimately show ?thesis using wake_run_reach [OF _ wake_start] by (auto simp: poll_ms_def map_option_case split: option.splits)
qed

end
