(* ===== verification/Windows.thy ===== *)
theory Windows
  imports PodBus
begin

unbundle bit_operations_syntax

text \<open>
  The code that exists once per operating system: the Windows mapping of \<open>src/platform/mmap.rs\<close>, the
  file identity of \<open>src/platform/shm.rs\<close> and the Windows process probe of \<open>src/platform/pod_bus.rs\<close>.
  The system calls are parameters, functions of the arguments the code passes; an error is the text of
  the last system error.  The lemmas show that a mapping behaves as on Unix, because the two halves of the
  length denote the length, and that two files have the same identity only if their indices agree.
\<close>

section \<open>Mapping\<close>

definition len_high :: "usize \<Rightarrow> u32" where
  "len_high len = as_u32 (drop_bit 32 len)"

definition len_low :: "usize \<Rightarrow> u32" where
  "len_low len = as_u32 len"

definition from_file_with_len_windows ::
  "(u32 \<Rightarrow> u32 \<Rightarrow> string option) \<Rightarrow> (usize \<Rightarrow> string option) \<Rightarrow> usize \<Rightarrow> usize result" where
  "from_file_with_len_windows create_file_mapping map_view_of_file len =
     (if len = 0 then Inl (Io ''mmap length must be > 0'')
      else case create_file_mapping (len_high len) (len_low len) of
          Some e \<Rightarrow> Inl (Io e)
        | None \<Rightarrow>
            (case map_view_of_file len of
               Some e \<Rightarrow> Inl (Io e)
             | None \<Rightarrow> Inr len))"

lemma pack_len: "pack (len_high len) (len_low len) = len"
  using pack_unpack [of len] by (simp add: len_high_def len_low_def unpack_def)

text \<open>
  \<open>CreateFileMappingW\<close> takes the size of the section as two words; when it answers for the number they
  denote, the Windows constructor returns what the Unix one returns.
\<close>

lemma windows_maps_like_unix:
  "map_sum id unat (from_file_with_len_windows (\<lambda>hi lo. sys (pack hi lo)) mv len) =
     from_file_with_len (case sys len of Some e \<Rightarrow> Some e | None \<Rightarrow> mv len) (unat len)"
  by (auto simp: from_file_with_len_windows_def from_file_with_len_def pack_len unat_eq_0 split: option.splits)

section \<open>File identity\<close>

text \<open>Unix: \<open>metadata\<close> answers with the inode or fails.\<close>

definition file_identity :: "string + u64 \<Rightarrow> u64 option" where
  "file_identity metadata = (case metadata of Inl _ \<Rightarrow> None | Inr ino \<Rightarrow> Some ino)"

text \<open>Windows: opening the file may fail; then the call answers \<open>ok\<close> and the two index words.\<close>

definition file_identity_windows :: "string + int \<times> u32 \<times> u32 \<Rightarrow> u64 option" where
  "file_identity_windows opened =
     (case opened of
        Inl _ \<Rightarrow> None
      | Inr (ok, nFileIndexHigh, nFileIndexLow) \<Rightarrow>
          if ok = 0 then None
          else Some (push_bit 32 (as_u64 nFileIndexHigh) OR as_u64 nFileIndexLow))"

lemma pack_inject: "pack a b = pack a' b' \<longleftrightarrow> a = a' \<and> b = b'"
  by (metis fst_conv snd_conv unpack_pack)

lemma file_identity_windows_inject:
  assumes "file_identity_windows (Inr (ok, hi, lo)) = Some i" "file_identity_windows (Inr (ok', hi', lo')) = Some i"
  shows "hi = hi' \<and> lo = lo'"
proof -
  have "pack hi lo = pack hi' lo'"
    using assms by (simp add: file_identity_windows_def pack_def split: if_splits)
  then show ?thesis by (simp add: pack_inject)
qed

section \<open>Process probe\<close>

text \<open>\<open>open_process\<close> tells whether \<open>OpenProcess\<close> returned a handle for the process.\<close>

definition is_pid_alive_windows :: "(u32 \<Rightarrow> bool) \<Rightarrow> u32 \<Rightarrow> bool" where
  "is_pid_alive_windows open_process pid = (if \<not> open_process pid then False else True)"

end
