(* ===== verification/Python.thy ===== *)
theory Python
  imports Channel
begin

text \<open>
  The Python classes of \<open>bindings/python/src/lib.rs\<close>.  Errors reach Python as a \<open>RuntimeError\<close> with the
  displayed text; a received sample is copied with \<open>to_vec\<close> and dropped before the call returns, so a
  Python program never holds a block.  The lemmas show that such a receive returns the bytes of the
  oldest unread message and leaves a reachable system in which no sample was added.
\<close>

section \<open>The classes\<close>

text \<open>\<open>map_err\<close> of every method: the message of the \<open>RuntimeError\<close>.\<close>

abbreviation runtime_error :: "'a result \<Rightarrow> string + 'a" where
  "runtime_error \<equiv> map_sum display_error id"

definition py_new :: "target_os \<Rightarrow> string \<Rightarrow> os_open \<Rightarrow> clock \<Rightarrow> string \<Rightarrow> string + region" where
  "py_new os tmp env clk name = runtime_error (connect os tmp env clk name)"

definition py_subscribe :: "config \<Rightarrow> string \<Rightarrow> shm \<Rightarrow> (string + stream) \<times> shm" where
  "py_subscribe c uri s = map_prod runtime_error id (subscribe c uri s)"

definition py_try_recv :: "stream \<Rightarrow> shm \<Rightarrow> bytes option \<times> stream \<times> shm" where
  "py_try_recv st s =
     (case try_recv st s of
        (None, st', s') \<Rightarrow> (None, st', s')
      | (Some m, st', s') \<Rightarrow> (Some (sample_bytes s' m), st', sample_drop (st_config st') m s'))"

definition py_recv ::
  "nat \<Rightarrow> world \<Rightarrow> stream \<Rightarrow> shm \<Rightarrow> ((string + bytes) \<times> nat \<times> stream \<times> shm) option" where
  "py_recv fuel w st s =
     (case recv fuel w st s of
        None \<Rightarrow> None
      | Some (Inl e, k, st', s') \<Rightarrow> Some (Inl (display_error e), k, st', s')
      | Some (Inr m, k, st', s') \<Rightarrow> Some (Inr (sample_bytes s' m), k, st', sample_drop (st_config st') m s'))"

section \<open>Receiving in a running system\<close>

lemma remove_first [simp]: "remove_at 0 (x # xs) = xs"
  by (simp add: remove_at_def)

lemma py_try_recv_reads:
  assumes r: "sys_reach c \<sigma>" and j: "j < length (sy_streams \<sigma>)" "st = sy_streams \<sigma> ! j"
    and t: "py_try_recv st (sy_shm \<sigma>) = (res, st', s')"
  shows "case next_unread (unat (ring_depth c)) (sy_hist \<sigma> (st_topic_idx st)) (unat (last_seq st)) of
      None \<Rightarrow> res = None \<and> st' = st \<and> s' = sy_shm \<sigma>
    | Some q \<Rightarrow> res = sy_hist \<sigma> (st_topic_idx st) ! (q - 1) \<and> res \<noteq> None \<and> st' = st\<lparr>last_seq := of_nat q\<rparr>"
proof -
  obtain res1 st1 s1 where t1: "try_recv st (sy_shm \<sigma>) = (res1, st1, s1)" by (metis prod_cases3)
  have "st \<in> set (sy_streams \<sigma>)" using j by simp
  from recv_reads [OF r this t1 refl] t t1 show ?thesis
    by (auto simp: py_try_recv_def split: option.splits dest: sym)
qed

text \<open>No reference stays behind: the state after the call is one of the system with the same samples.\<close>

lemma py_try_recv_keeps_no_sample:
  assumes r: "sys_reach c \<sigma>" and j: "j < length (sy_streams \<sigma>)" and room: "sample_room \<sigma>"
    and sub: "st_config (sy_streams \<sigma> ! j) \<in> set (sy_subs \<sigma>)"
    and t: "py_try_recv (sy_streams \<sigma> ! j) (sy_shm \<sigma>) = (res, st', s')"
  shows "sys_reach c (\<sigma>\<lparr>sy_shm := s', sy_streams := (sy_streams \<sigma>)[j := st']\<rparr>)"
proof -
  obtain res1 st1 s1 where t1: "try_recv (sy_streams \<sigma> ! j) (sy_shm \<sigma>) = (res1, st1, s1)" by (metis prod_cases3)
  note r1 = reach_step [OF r do_recv [OF j room t1]]
  show ?thesis
  proof (cases res1)
    case None
    then show ?thesis using r1 t t1 by (simp add: py_try_recv_def)
  next
    case (Some m)
    let ?\<tau> = "\<sigma>\<lparr>sy_shm := s1, sy_streams := (sy_streams \<sigma>)[j := st1], sy_samples := m # sy_samples \<sigma>\<rparr>"
    have "st_config st1 = st_config (sy_streams \<sigma> ! j)"
      using recv_reads [OF r _ t1 refl] j by (auto split: option.splits)
    moreover have "sys_reach c ?\<tau>" using r1 Some by simp
    ultimately have "sys_reach c (?\<tau>\<lparr>sy_shm := sample_drop (st_config st1) m s1, sy_samples := sy_samples \<sigma>\<rparr>)"
      using reach_step [OF _ do_drop_sample [of 0 ?\<tau> "st_config st1" c]] sub by simp
    moreover have "st' = st1" "s' = sample_drop (st_config st1) m s1"
      using t t1 Some by (auto simp: py_try_recv_def)
    moreover have "?\<tau>\<lparr>sy_shm := sample_drop (st_config st1) m s1, sy_samples := sy_samples \<sigma>\<rparr> =
        \<sigma>\<lparr>sy_shm := sample_drop (st_config st1) m s1, sy_streams := (sy_streams \<sigma>)[j := st1]\<rparr>" by simp
    ultimately show ?thesis by metis
  qed
qed

end
